(* ===== verification/Prelude.thy ===== *)
theory Prelude
  imports Complex_Main "HOL-Library.Word"
begin

text \<open>
  Shared vocabulary of the development: the names of the machine types the C++ code uses,
  the fact collections the component theories fill, and generic facts about lists and
  strictly sorted key sequences.

  Signed 64-bit quantities (\<open>int64_t\<close>: prices in ticks, quantities, nanosecond timestamps) are
  HOL integers: signed overflow is undefined behaviour in C++, so the model follows the
  program on every run that stays inside the type, and \<open>int64_ok\<close> states that range where
  a result depends on it.  Unsigned 64-bit numbers whose wrap-around is defined and matters
  (sequence numbers, order ids, ring-buffer indices) are 64-bit words.
\<close>

section \<open>Machine types\<close>

type_synonym u8 = "8 word"
type_synonym u64 = "64 word"

definition int64_ok :: "int \<Rightarrow> bool" where
  "int64_ok i \<longleftrightarrow> - (2 ^ 63) \<le> i \<and> i < 2 ^ 63"

section \<open>Fact collections\<close>

named_theorems double_mono
  \<open>monotonicity of the rounded operations\<close>
named_theorems fp_eval
  \<open>evaluation of double operations on small exact numbers\<close>
named_theorems keeps
  \<open>fields an operation leaves alone\<close>
named_theorems preserved
  \<open>invariants an operation preserves\<close>

section \<open>Lists\<close>

lemma set_take_drop_split: "i \<le> length xs \<Longrightarrow> set xs = set (take i xs) \<union> set (drop i xs)"
  by (metis append_take_drop_id set_append)

lemma distinct_map_filter_fst: "distinct (map fst xs) \<Longrightarrow> distinct (map fst (filter P xs))"
  by (induction xs) auto

lemma option_bind_Some_iff:
  "(case x of None \<Rightarrow> None | Some y \<Rightarrow> f y) = Some z \<longleftrightarrow> (\<exists>y. x = Some y \<and> f y = Some z)"
  by (cases x) auto

lemma hd_of_sorted_wrt:
  "sorted_wrt P xs \<Longrightarrow> x \<in> set xs \<Longrightarrow> x = hd xs \<or> P (hd xs) x"
  by (cases xs) auto

end
