(* ===== verification/Doubles.thy ===== *)
theory Doubles
  imports Prelude "HOL-Library.Log_Nat"
begin

text \<open>
  The C++ type \<open>double\<close> as the program uses it: IEEE 754 binary64 with rounding to nearest,
  ties to even.  A finite double is the rational number it denotes; the arithmetic
  operations compute the exact result and round it once.  The sign of zero is not recorded:
  no operation of the program can observe it (every divisor that can be zero is produced by
  a conversion from an integer or by an addition, and is then a positive zero).

  What the theory shows: the rounding is monotone, odd, the identity on representable
  numbers (in particular on all integers up to \<open>2^53\<close>), and has relative error at most
  \<open>2^-53\<close> on normal numbers.  The component theories use only these facts.
\<close>

section \<open>Powers of two with integer exponents\<close>

definition two_pow :: "int \<Rightarrow> rat" where
  "two_pow e = (if 0 \<le> e then 2 ^ nat e else 1 / 2 ^ nat (- e))"

lemma two_pow_powi: "two_pow e = 2 powi e"
  by (simp add: two_pow_def power_int_def field_simps)

lemma two_pow_pos [simp]: "0 < two_pow e"
  by (simp add: two_pow_def)

lemma two_pow_neq_0 [simp]: "two_pow e \<noteq> 0"
  using two_pow_pos [of e] by linarith

lemma two_pow_nonneg [simp]: "0 \<le> two_pow e"
  using two_pow_pos [of e] by linarith

lemma two_pow_add: "two_pow (a + b) = two_pow a * two_pow b"
  by (simp add: two_pow_powi power_int_add)

lemma two_pow_diff: "two_pow (a - b) = two_pow a / two_pow b"
  by (simp add: two_pow_powi power_int_diff)

lemma two_pow_0 [simp]: "two_pow 0 = 1"
  by (simp add: two_pow_def)

lemma two_pow_nat: "two_pow (int n) = 2 ^ n"
  by (simp add: two_pow_def)

lemma two_pow_mono: "a \<le> b \<Longrightarrow> two_pow a \<le> two_pow b"
  by (simp add: two_pow_powi power_int_increasing)

lemma two_pow_strict_mono: "a < b \<Longrightarrow> two_pow a < two_pow b"
  by (simp add: two_pow_powi power_int_strict_increasing)

lemma two_pow_less_iff [simp]: "two_pow a < two_pow b \<longleftrightarrow> a < b"
  by (meson not_less two_pow_mono two_pow_strict_mono)

lemma two_pow_le_iff [simp]: "two_pow a \<le> two_pow b \<longleftrightarrow> a \<le> b"
  by (meson not_less two_pow_less_iff)

lemma two_pow_of_int: "0 \<le> e \<Longrightarrow> two_pow e = of_int (2 ^ nat e)"
  by (simp add: two_pow_def)

section \<open>The binary exponent\<close>

definition ilog2 :: "rat \<Rightarrow> int" where
  "ilog2 x = (let (p, q) = quotient_of x; d = bitlen p - bitlen q
              in if two_pow d \<le> x then d else d - 1)"

lemma bitlen_two_pow:
  assumes "0 < p"
  shows "two_pow (bitlen p - 1) \<le> of_int p" and "of_int p < two_pow (bitlen p)"
proof -
  have b: "2 ^ nat (bitlen p - 1) \<le> p" "p < 2 ^ nat (bitlen p)"
    using bitlen_bounds [OF assms] by auto
  have n: "1 \<le> bitlen p"
    using assms by (simp add: bitlen_alt_def)
  show "two_pow (bitlen p - 1) \<le> of_int p"
    using b(1) n by (simp only: two_pow_of_int of_int_le_iff)
  show "of_int p < two_pow (bitlen p)"
    using b(2) n by (simp only: two_pow_of_int of_int_less_iff)
qed

lemma ilog2_bounds:
  assumes "0 < x"
  shows "two_pow (ilog2 x) \<le> x" and "x < two_pow (ilog2 x + 1)"
proof -
  obtain p q where pq: "quotient_of x = (p, q)" by fastforce
  then have q: "0 < q" and x: "x = of_int p / of_int q"
    by (auto simp: quotient_of_denom_pos quotient_of_div)
  with assms have p: "0 < p"
    by (simp add: zero_less_divide_iff)
  define d where "d = bitlen p - bitlen q"
  have lo: "two_pow (d - 1) < x"
  proof -
    have "two_pow (d - 1) = two_pow (bitlen p - 1) / two_pow (bitlen q)"
      by (simp add: d_def two_pow_diff two_pow_powi power_int_diff)
    also have "\<dots> < of_int p / of_int q"
      using bitlen_two_pow(1) [OF p] bitlen_two_pow(2) [OF q] q p
      by (intro frac_less2) auto
    finally show ?thesis using x by simp
  qed
  have hi: "x < two_pow (d + 1)"
  proof -
    have "of_int p / of_int q < two_pow (bitlen p) / two_pow (bitlen q - 1)"
      using bitlen_two_pow(2) [OF p] bitlen_two_pow(1) [OF q] q p
      by (intro frac_less) auto
    also have "\<dots> = two_pow (d + 1)"
      by (simp add: d_def two_pow_powi power_int_diff power_int_add)
    finally show ?thesis using x by simp
  qed
  have ilog: "ilog2 x = (if two_pow d \<le> x then d else d - 1)"
    by (simp add: ilog2_def pq d_def)
  show "two_pow (ilog2 x) \<le> x" using lo by (auto simp: ilog)
  show "x < two_pow (ilog2 x + 1)" using hi by (auto simp: ilog)
qed

lemma ilog2_mono:
  assumes "0 < x" "x \<le> y"
  shows "ilog2 x \<le> ilog2 y"
proof -
  have "two_pow (ilog2 x) < two_pow (ilog2 y + 1)"
    using ilog2_bounds(1) [of x] ilog2_bounds(2) [of y] assms by linarith
  then show ?thesis by simp
qed

section \<open>Rounding to an integer, ties to even\<close>

definition rne :: "rat \<Rightarrow> int" where
  "rne x = (let f = \<lfloor>x\<rfloor>; d = x - of_int f
            in if d < 1 / 2 then f else if 1 / 2 < d then f + 1
               else if even f then f else f + 1)"

lemma rne_of_int [simp]: "rne (of_int n) = n"
  by (simp add: rne_def)

lemma rne_error: "\<bar>of_int (rne x) - x\<bar> \<le> 1 / 2"
proof -
  have "0 \<le> x - of_int \<lfloor>x\<rfloor>" "x - of_int \<lfloor>x\<rfloor> < 1"
    using floor_correct [of x] by (auto simp: algebra_simps)
  then show ?thesis
    unfolding rne_def Let_def abs_if by (auto split: if_splits) linarith+
qed

lemma rne_cases:
  "rne x = \<lfloor>x\<rfloor> \<and> x - of_int \<lfloor>x\<rfloor> \<le> 1 / 2 \<or> rne x = \<lfloor>x\<rfloor> + 1 \<and> 1 / 2 \<le> x - of_int \<lfloor>x\<rfloor>"
  by (auto simp: rne_def Let_def)

lemma rne_mono:
  assumes "x \<le> y"
  shows "rne x \<le> rne y"
proof (cases "\<lfloor>x\<rfloor> = \<lfloor>y\<rfloor>")
  case True
  then show ?thesis using assms by (auto simp: rne_def Let_def)
next
  case False
  with floor_mono [OF assms] have "\<lfloor>x\<rfloor> + 1 \<le> \<lfloor>y\<rfloor>" by linarith
  then show ?thesis using rne_cases [of x] rne_cases [of y] by linarith
qed

lemma rne_le_int: "x \<le> of_int n \<Longrightarrow> rne x \<le> n"
  using rne_mono [of x "of_int n"] by simp

lemma rne_ge_int: "of_int n \<le> x \<Longrightarrow> n \<le> rne x"
  using rne_mono [of "of_int n" x] by simp

lemma rne_minus: "rne (- x) = - rne x"
proof (cases "of_int \<lfloor>x\<rfloor> = x")
  case True
  then show ?thesis by (metis of_int_minus rne_of_int)
next
  case False
  then have c: "\<lceil>x\<rceil> = \<lfloor>x\<rfloor> + 1"
    by (metis ceiling_altdef)
  have d: "- x - of_int \<lfloor>- x\<rfloor> = 1 - (x - of_int \<lfloor>x\<rfloor>)"
    by (simp add: floor_minus c)
  show ?thesis
    unfolding rne_def Let_def d by (simp add: floor_minus c)
qed

section \<open>Rounding to the double grid\<close>

text \<open>
  \<open>ulp_exp x\<close> is the exponent of the last place of a double near \<open>x\<close>: 53 significant bits,
  and never below the subnormal unit \<open>2^-1074\<close>.  \<open>rnd_rat\<close> rounds with an unbounded upper
  exponent; \<open>rnd\<close> turns results of \<open>2^1024\<close> and more into infinities.
\<close>

definition ulp_exp :: "rat \<Rightarrow> int" where
  "ulp_exp x = max (ilog2 \<bar>x\<bar> - 52) (- 1074)"

definition rnd_rat :: "rat \<Rightarrow> rat" where
  "rnd_rat x = (if x = 0 then 0
                else let u = two_pow (ulp_exp x) in of_int (rne (x / u)) * u)"

definition is_fp :: "rat \<Rightarrow> bool" where
  "is_fp x \<longleftrightarrow> (\<exists>m e. \<bar>m\<bar> \<le> 2 ^ 53 \<and> - 1074 \<le> e \<and> x = of_int m * two_pow e)"

lemma rnd_rat_0 [simp]: "rnd_rat 0 = 0"
  by (simp add: rnd_rat_def)

lemma rnd_rat_minus: "rnd_rat (- x) = - rnd_rat x"
  by (simp add: rnd_rat_def Let_def ulp_exp_def rne_minus)

lemma ulp_exp_mono: "0 < x \<Longrightarrow> x \<le> y \<Longrightarrow> ulp_exp x \<le> ulp_exp y"
  using ilog2_mono [of x y] by (auto simp: ulp_exp_def)

lemma rnd_rat_on_grid:
  assumes "x \<noteq> 0" "x = of_int m * two_pow e" "ulp_exp x \<le> e"
  shows "rnd_rat x = x"
proof -
  let ?u = "ulp_exp x"
  have "x / two_pow ?u = of_int m * two_pow (e - ?u)"
    using assms(2) by (simp add: two_pow_diff)
  also have "\<dots> = of_int (m * 2 ^ nat (e - ?u))"
    using assms(3) by (simp add: two_pow_of_int)
  finally have "of_int (rne (x / two_pow ?u)) = x / two_pow ?u"
    by (simp only: rne_of_int)
  then show ?thesis by (simp add: rnd_rat_def Let_def)
qed

lemma rnd_rat_is_fp:
  assumes "is_fp x"
  shows "rnd_rat x = x"
proof (cases "x = 0")
  case False
  from assms obtain m e where m: "\<bar>m\<bar> \<le> 2 ^ 53" and e: "- 1074 \<le> e"
    and x: "x = of_int m * two_pow e" by (auto simp: is_fp_def)
  have lo: "two_pow (ilog2 \<bar>x\<bar>) \<le> \<bar>x\<bar>"
    using False by (intro ilog2_bounds(1)) simp
  show ?thesis
  proof (cases "\<bar>m\<bar> = 2 ^ 53")
    case True
    then have "x = of_int (sgn m * 2 ^ 52) * two_pow (e + 1)"
      unfolding x two_pow_add by (auto simp: abs_if sgn_if two_pow_def split: if_splits)
    moreover have "\<bar>x\<bar> = two_pow (53 + e)"
      using True unfolding x two_pow_add by (simp add: abs_mult two_pow_def flip: of_int_abs)
    then have "ilog2 \<bar>x\<bar> \<le> 53 + e" using lo by simp
    then have "ulp_exp x \<le> e + 1" using e by (simp add: ulp_exp_def)
    ultimately show ?thesis using False rnd_rat_on_grid by blast
  next
    case 2: False
    with m have "\<bar>m\<bar> < 2 ^ 53" by simp
    then have "of_int \<bar>m\<bar> < (of_int (2 ^ 53) :: rat)" by (simp only: of_int_less_iff)
    then have "\<bar>of_int m\<bar> < (2 ^ 53 :: rat)" by simp
    then have "\<bar>x\<bar> < two_pow (53 + e)"
      unfolding x two_pow_add by (simp add: abs_mult two_pow_def [of 53])
    then have "ilog2 \<bar>x\<bar> < 53 + e" using lo by (metis order_le_less_trans two_pow_less_iff)
    then have "ulp_exp x \<le> e" using e by (simp add: ulp_exp_def)
    then show ?thesis using False x rnd_rat_on_grid by blast
  qed
qed simp

lemma is_fp_0 [simp]: "is_fp 0"
  unfolding is_fp_def by (rule exI [of _ 0], rule exI [of _ 0]) simp

lemma is_fp_of_int: "\<bar>i\<bar> \<le> 2 ^ 53 \<Longrightarrow> is_fp (of_int i)"
  unfolding is_fp_def by (rule exI [of _ i], rule exI [of _ 0]) simp

lemma is_fp_two_pow: "- 1074 \<le> e \<Longrightarrow> is_fp (two_pow e)"
  unfolding is_fp_def by (rule exI [of _ 1], rule exI [of _ e]) simp

lemma is_fp_minus: "is_fp x \<Longrightarrow> is_fp (- x)"
  unfolding is_fp_def
  by (elim exE conjE, rename_tac m e, rule_tac x = "- m" in exI, rule_tac x = e in exI) simp

lemma is_fp_double: "is_fp x \<Longrightarrow> is_fp (2 * x)"
  unfolding is_fp_def
  by (elim exE conjE, rename_tac m e, rule_tac x = m in exI, rule_tac x = "e + 1" in exI)
     (simp add: two_pow_add two_pow_def [of 1])

lemma rnd_rat_mono_pos:
  assumes "0 < x" "x \<le> y"
  shows "rnd_rat x \<le> rnd_rat y"
proof (cases "ulp_exp x = ulp_exp y")
  case True
  have "x / two_pow (ulp_exp y) \<le> y / two_pow (ulp_exp y)"
    using assms by (simp add: divide_right_mono)
  then have "rne (x / two_pow (ulp_exp y)) \<le> rne (y / two_pow (ulp_exp y))"
    by (rule rne_mono)
  then show ?thesis using assms True by (simp add: rnd_rat_def Let_def)
next
  case False
  then have lt: "ulp_exp x < ulp_exp y"
    using ulp_exp_mono [OF assms] by simp
  define k where "k = ilog2 y"
  have uy: "ulp_exp y = k - 52"
    using lt assms by (auto simp: ulp_exp_def k_def)
  have xk: "ilog2 x < k" "ulp_exp x \<le> k"
    using lt uy assms by (auto simp: ulp_exp_def)
  have "x < two_pow k"
    using ilog2_bounds(2) [OF assms(1)] xk
    by (meson order_less_le_trans two_pow_le_iff zless_imp_add1_zle)
  then have "x / two_pow (ulp_exp x) \<le> two_pow (k - ulp_exp x)"
    by (simp add: two_pow_diff divide_right_mono)
  also have "\<dots> = of_int (2 ^ nat (k - ulp_exp x))"
    using xk by (intro two_pow_of_int) simp
  finally have "rne (x / two_pow (ulp_exp x)) \<le> 2 ^ nat (k - ulp_exp x)"
    by (rule rne_le_int)
  then have "rnd_rat x \<le> of_int (2 ^ nat (k - ulp_exp x)) * two_pow (ulp_exp x)"
    using assms by (simp only: rnd_rat_def Let_def of_int_le_iff mult_right_mono two_pow_nonneg) simp
  also have "\<dots> = two_pow k"
    using xk two_pow_of_int [of "k - ulp_exp x"] by (simp add: two_pow_diff nonzero_divide_eq_eq)
  finally have left: "rnd_rat x \<le> two_pow k" .
  have "two_pow k \<le> y"
    using ilog2_bounds(1) [of y] assms by (simp add: k_def)
  then have "two_pow 52 \<le> y / two_pow (ulp_exp y)"
    unfolding uy by (simp add: two_pow_diff field_simps two_pow_def [of 52])
  then have "2 ^ 52 \<le> rne (y / two_pow (ulp_exp y))"
    by (intro rne_ge_int) (simp add: two_pow_def [of 52])
  then have "of_int (2 ^ 52) * two_pow (ulp_exp y) \<le> rnd_rat y"
    using assms by (simp only: rnd_rat_def Let_def of_int_le_iff mult_right_mono two_pow_nonneg) simp
  then have "two_pow k \<le> rnd_rat y"
    unfolding uy two_pow_diff by (simp add: two_pow_def [of 52])
  with left show ?thesis by linarith
qed

lemma rnd_rat_nonneg: "0 \<le> x \<Longrightarrow> 0 \<le> rnd_rat x"
  using rne_mono [of 0 "x / two_pow (ulp_exp x)"] rne_of_int [of 0]
  by (auto simp: rnd_rat_def Let_def)

lemma rnd_rat_nonpos: "x \<le> 0 \<Longrightarrow> rnd_rat x \<le> 0"
  using rnd_rat_nonneg [of "- x"] by (simp add: rnd_rat_minus)

lemma rnd_rat_mono:
  assumes "x \<le> y"
  shows "rnd_rat x \<le> rnd_rat y"
proof -
  consider "0 < x" | "y < 0" | "x \<le> 0" "0 \<le> y" using assms by linarith
  then show ?thesis
  proof cases
    case 2
    then show ?thesis
      using rnd_rat_mono_pos [of "- y" "- x"] assms by (simp add: rnd_rat_minus)
  qed (use assms rnd_rat_mono_pos rnd_rat_nonneg rnd_rat_nonpos order_trans in blast)+
qed

lemma rnd_rat_le_fp: "x \<le> y \<Longrightarrow> is_fp y \<Longrightarrow> rnd_rat x \<le> y"
  by (metis rnd_rat_is_fp rnd_rat_mono)

lemma rnd_rat_ge_fp: "x \<le> y \<Longrightarrow> is_fp x \<Longrightarrow> x \<le> rnd_rat y"
  by (metis rnd_rat_is_fp rnd_rat_mono)

lemma is_fp_rnd_rat: "is_fp (rnd_rat x)"
proof (cases "x = 0")
  case False
  let ?u = "two_pow (ulp_exp x)"
  have "\<bar>x\<bar> < two_pow (ilog2 \<bar>x\<bar> + 1)"
    using ilog2_bounds(2) [of "\<bar>x\<bar>"] False by simp
  also have "\<dots> \<le> two_pow (53 + ulp_exp x)"
    by (simp add: ulp_exp_def)
  finally have "\<bar>x\<bar> \<le> 2 ^ 53 * ?u"
    by (simp add: two_pow_add two_pow_def [of 53])
  then have "x / ?u \<le> of_int (2 ^ 53)" "of_int (- (2 ^ 53)) \<le> x / ?u"
    by (simp_all add: field_simps abs_le_iff)
  then have "rne (x / ?u) \<le> 2 ^ 53" "- (2 ^ 53) \<le> rne (x / ?u)"
    using rne_le_int rne_ge_int by blast+
  then have "\<bar>rne (x / ?u)\<bar> \<le> 2 ^ 53" by simp
  moreover have "- 1074 \<le> ulp_exp x" by (simp add: ulp_exp_def)
  ultimately show ?thesis
    unfolding is_fp_def using False by (auto simp: rnd_rat_def Let_def)
qed simp

lemma rnd_rat_error: "\<bar>rnd_rat x - x\<bar> \<le> two_pow (ulp_exp x) / 2"
proof (cases "x = 0")
  case False
  let ?u = "two_pow (ulp_exp x)"
  have "rnd_rat x - x = (of_int (rne (x / ?u)) - x / ?u) * ?u"
    using False by (simp add: rnd_rat_def Let_def algebra_simps)
  then have "\<bar>rnd_rat x - x\<bar> = \<bar>of_int (rne (x / ?u)) - x / ?u\<bar> * ?u"
    by (simp add: abs_mult)
  then show ?thesis
    using mult_right_mono [OF rne_error [of "x / ?u"], of ?u] by simp
qed simp

text \<open>The relative error on normal numbers.\<close>

lemma rnd_rat_rel_error:
  assumes "two_pow (- 1022) \<le> \<bar>x\<bar>"
  shows "\<bar>rnd_rat x - x\<bar> \<le> \<bar>x\<bar> * two_pow (- 53)"
proof -
  have pos: "0 < \<bar>x\<bar>" using assms two_pow_pos [of "- 1022"] by linarith
  have "two_pow (- 1022) < two_pow (ilog2 \<bar>x\<bar> + 1)"
    using ilog2_bounds(2) [OF pos] assms by linarith
  then have u: "ulp_exp x = ilog2 \<bar>x\<bar> - 52" by (simp add: ulp_exp_def)
  have "two_pow (ulp_exp x) / 2 = two_pow (ilog2 \<bar>x\<bar>) * two_pow (- 53)"
    unfolding u by (simp add: two_pow_diff two_pow_def [of 52] two_pow_def [of "- 53"])
  also have "\<dots> \<le> \<bar>x\<bar> * two_pow (- 53)"
    using ilog2_bounds(1) [OF pos] by simp
  finally show ?thesis using rnd_rat_error [of x] by linarith
qed

section \<open>Doubles and their operations\<close>

datatype double = Fin rat | PInf | NInf | NaN

definition rnd :: "rat \<Rightarrow> double" where
  "rnd x = (let y = rnd_rat x
            in if y = 0 \<or> ilog2 \<bar>y\<bar> < 1024 then Fin y else if 0 < y then PInf else NInf)"

fun dneg :: "double \<Rightarrow> double" where
  "dneg (Fin a) = Fin (- a)"
| "dneg PInf = NInf"
| "dneg NInf = PInf"
| "dneg NaN = NaN"

fun dadd :: "double \<Rightarrow> double \<Rightarrow> double" where
  "dadd (Fin a) (Fin b) = rnd (a + b)"
| "dadd NaN _ = NaN"
| "dadd _ NaN = NaN"
| "dadd PInf NInf = NaN"
| "dadd NInf PInf = NaN"
| "dadd PInf _ = PInf"
| "dadd _ PInf = PInf"
| "dadd NInf _ = NInf"
| "dadd _ NInf = NInf"

definition dsub :: "double \<Rightarrow> double \<Rightarrow> double" where
  "dsub a b = dadd a (dneg b)"

definition inf_of_sign :: "rat \<Rightarrow> double" where
  "inf_of_sign s = (if 0 < s then PInf else if s < 0 then NInf else NaN)"

fun dsign :: "double \<Rightarrow> rat" where
  "dsign (Fin a) = sgn a"
| "dsign PInf = 1"
| "dsign NInf = - 1"
| "dsign NaN = 0"

fun dmul :: "double \<Rightarrow> double \<Rightarrow> double" where
  "dmul (Fin a) (Fin b) = rnd (a * b)"
| "dmul NaN _ = NaN"
| "dmul _ NaN = NaN"
| "dmul a b = inf_of_sign (dsign a * dsign b)"

fun ddiv :: "double \<Rightarrow> double \<Rightarrow> double" where
  "ddiv (Fin a) (Fin b) = (if b = 0 then inf_of_sign a else rnd (a / b))"
| "ddiv NaN _ = NaN"
| "ddiv _ NaN = NaN"
| "ddiv (Fin a) _ = Fin 0"
| "ddiv a (Fin b) = (if b < 0 then dneg a else a)"
| "ddiv _ _ = NaN"

fun dlt :: "double \<Rightarrow> double \<Rightarrow> bool" where
  "dlt (Fin a) (Fin b) = (a < b)"
| "dlt NaN _ = False"
| "dlt _ NaN = False"
| "dlt NInf b = (b \<noteq> NInf)"
| "dlt a PInf = (a \<noteq> PInf)"
| "dlt _ _ = False"

definition deq :: "double \<Rightarrow> double \<Rightarrow> bool" where
  "deq a b \<longleftrightarrow> a \<noteq> NaN \<and> a = b"

definition dle :: "double \<Rightarrow> double \<Rightarrow> bool" where
  "dle a b \<longleftrightarrow> dlt a b \<or> deq a b"

fun dabs :: "double \<Rightarrow> double" where
  "dabs (Fin a) = Fin \<bar>a\<bar>"
| "dabs NaN = NaN"
| "dabs _ = PInf"

text \<open>\<open>std::max\<close>, \<open>std::min\<close> and \<open>std::clamp\<close> as the library defines them with \<open><\<close>.\<close>

definition dmax :: "double \<Rightarrow> double \<Rightarrow> double" where
  "dmax a b = (if dlt a b then b else a)"

definition dmin :: "double \<Rightarrow> double \<Rightarrow> double" where
  "dmin a b = (if dlt b a then b else a)"

definition dclamp :: "double \<Rightarrow> double \<Rightarrow> double \<Rightarrow> double" where
  "dclamp v lo hi = (if dlt v lo then lo else if dlt hi v then hi else v)"

text \<open>
  Conversions.  \<open>static_cast<int64_t>\<close> truncates towards zero; outside the range of the
  target type the C++ behaviour is undefined and the model leaves the result unspecified.
\<close>

definition d_of_int :: "int \<Rightarrow> double" where
  "d_of_int i = rnd (of_int i)"

definition trunc_rat :: "rat \<Rightarrow> int" where
  "trunc_rat x = (if 0 \<le> x then \<lfloor>x\<rfloor> else \<lceil>x\<rceil>)"

fun d_to_int64 :: "double \<Rightarrow> int" where
  "d_to_int64 (Fin a) = (if int64_ok (trunc_rat a) then trunc_rat a else undefined)"
| "d_to_int64 _ = undefined"

section \<open>Facts about doubles\<close>

lemma ilog2_less_iff: "0 < x \<Longrightarrow> ilog2 x < k \<longleftrightarrow> x < two_pow k"
  using ilog2_bounds [of x]
  by (meson not_less order_le_less_trans order_less_le_trans two_pow_le_iff two_pow_less_iff
      zless_imp_add1_zle)

lemma rnd_eq:
  "rnd x = (let y = rnd_rat x
            in if \<bar>y\<bar> < two_pow 1024 then Fin y else if 0 < y then PInf else NInf)"
  using ilog2_less_iff [of "\<bar>rnd_rat x\<bar>" 1024]
  by (cases "rnd_rat x = 0") (simp_all add: rnd_def Let_def)

lemma rnd_Fin: "\<bar>x\<bar> \<le> two_pow 1023 \<Longrightarrow> rnd x = Fin (rnd_rat x)"
proof -
  assume x: "\<bar>x\<bar> \<le> two_pow 1023"
  have fp: "is_fp (two_pow 1023)" by (rule is_fp_two_pow) simp
  have "rnd_rat x \<le> two_pow 1023" "- two_pow 1023 \<le> rnd_rat x"
    using x rnd_rat_le_fp [OF _ fp, of x] rnd_rat_ge_fp [OF _ is_fp_minus [OF fp], of x]
    by (auto simp: abs_le_iff)
  moreover have "two_pow 1023 < two_pow 1024" by simp
  ultimately have "\<bar>rnd_rat x\<bar> < two_pow 1024" by linarith
  then show ?thesis by (simp add: rnd_eq Let_def)
qed

lemma rnd_Fin_le: "\<bar>x\<bar> \<le> two_pow k \<Longrightarrow> k \<le> 1023 \<Longrightarrow> rnd x = Fin (rnd_rat x)"
  by (rule rnd_Fin, erule order_trans) simp

lemma rnd_fp: "is_fp x \<Longrightarrow> \<bar>x\<bar> < two_pow 1024 \<Longrightarrow> rnd x = Fin x"
  by (simp add: rnd_eq rnd_rat_is_fp Let_def)

lemma rnd_not_NaN [simp]: "rnd x \<noteq> NaN"
  by (simp add: rnd_eq Let_def)

lemma rnd_0 [simp]: "rnd 0 = Fin 0"
  by (simp add: rnd_eq)

lemma rnd_FinD: "rnd x = Fin y \<Longrightarrow> y = rnd_rat x"
  by (auto simp: rnd_eq Let_def split: if_splits)

lemma int64_le_two_pow: "\<bar>i\<bar> \<le> 2 ^ 64 \<Longrightarrow> \<bar>of_int i :: rat\<bar> \<le> two_pow 64"
  by (simp add: two_pow_def flip: of_int_abs)

lemma d_of_int_Fin: "\<bar>i\<bar> \<le> 2 ^ 64 \<Longrightarrow> d_of_int i = Fin (rnd_rat (of_int i))"
  unfolding d_of_int_def
  by (rule rnd_Fin, rule order_trans [OF int64_le_two_pow]) simp_all

lemma d_of_int_exact: "\<bar>i\<bar> \<le> 2 ^ 53 \<Longrightarrow> d_of_int i = Fin (of_int i)"
  using d_of_int_Fin [of i] by (simp add: rnd_rat_is_fp is_fp_of_int)

lemma d_of_int_0 [simp]: "d_of_int 0 = Fin 0"
  by (simp add: d_of_int_def)

lemma trunc_rat_of_int [simp]: "trunc_rat (of_int i) = i"
  by (simp add: trunc_rat_def)

lemma trunc_rat_mono: "x \<le> y \<Longrightarrow> trunc_rat x \<le> trunc_rat y"
proof -
  assume xy: "x \<le> y"
  consider "0 \<le> x" | "y < 0" | "x < 0" "0 \<le> y" using xy by linarith
  then show ?thesis
  proof cases
    case 3
    then have "\<lceil>x\<rceil> \<le> 0" "0 \<le> \<lfloor>y\<rfloor>" by (simp_all add: ceiling_le_iff)
    then have "\<lceil>x\<rceil> \<le> \<lfloor>y\<rfloor>" by (rule order_trans)
    then show ?thesis using 3 by (simp add: trunc_rat_def)
  qed (use xy in \<open>auto simp: trunc_rat_def floor_mono ceiling_mono\<close>)
qed

lemma trunc_rat_nonneg: "0 \<le> x \<Longrightarrow> 0 \<le> trunc_rat x"
  by (simp add: trunc_rat_def)

lemma d_to_int64_exact: "int64_ok i \<Longrightarrow> d_to_int64 (Fin (of_int i)) = i"
  by simp

lemma dle_Fin [simp]: "dle (Fin a) (Fin b) \<longleftrightarrow> a \<le> b"
  by (auto simp: dle_def deq_def)

lemma deq_Fin [simp]: "deq (Fin a) (Fin b) \<longleftrightarrow> a = b"
  by (auto simp: deq_def)

lemma dsub_Fin [simp]: "dsub (Fin a) (Fin b) = rnd (a - b)"
  by (simp add: dsub_def)

lemma rnd_mono [double_mono]: "x \<le> y \<Longrightarrow> dle (rnd x) (rnd y)"
  using rnd_rat_mono [of x y]
  by (auto simp: rnd_eq Let_def dle_def deq_def abs_if split: if_splits)

text \<open>The magnitude bound below which every conversion from a product or sum of 64-bit
  numbers stays finite.\<close>

lemma rnd_rat_abs_le: "\<bar>x\<bar> \<le> two_pow k \<Longrightarrow> - 1074 \<le> k \<Longrightarrow> \<bar>rnd_rat x\<bar> \<le> two_pow k"
  using rnd_rat_le_fp [of x "two_pow k"] rnd_rat_ge_fp [of "- two_pow k" x]
  by (auto simp: abs_le_iff is_fp_two_pow is_fp_minus)

lemma rnd_half: "is_fp x \<Longrightarrow> rnd_rat (2 * x) = 2 * x"
  by (simp add: rnd_rat_is_fp is_fp_double)

section \<open>Evaluation on exact values\<close>

lemma rnd_of_int: "\<bar>i\<bar> \<le> 2 ^ 53 \<Longrightarrow> rnd (of_int i) = Fin (of_int i)"
  using d_of_int_exact by (simp add: d_of_int_def)

lemma rnd_numeral [fp_eval]: "(numeral n :: int) \<le> 2 ^ 53 \<Longrightarrow> rnd (numeral n) = Fin (numeral n)"
  using rnd_of_int [of "numeral n"] by simp

lemma rnd_neg_numeral [fp_eval]:
  "(numeral n :: int) \<le> 2 ^ 53 \<Longrightarrow> rnd (- numeral n) = Fin (- numeral n)"
  using rnd_of_int [of "- numeral n"] by simp

lemma rnd_one [fp_eval]: "rnd 1 = Fin 1" "rnd (- 1) = Fin (- 1)"
  using rnd_of_int [of 1] rnd_of_int [of "- 1"] by simp_all

lemma d_of_numeral [fp_eval]:
  "(numeral n :: int) \<le> 2 ^ 53 \<Longrightarrow> d_of_int (numeral n) = Fin (numeral n)"
  "(numeral n :: int) \<le> 2 ^ 53 \<Longrightarrow> d_of_int (- numeral n) = Fin (- numeral n)"
  "d_of_int 1 = Fin 1" "d_of_int (- 1) = Fin (- 1)"
  using d_of_int_exact [of "numeral n"] d_of_int_exact [of "- numeral n"]
    d_of_int_exact [of 1] d_of_int_exact [of "- 1"] by simp_all

lemma rnd_dyadic: "x * 2 ^ k = of_int m \<Longrightarrow> \<bar>m\<bar> \<le> 2 ^ 53 \<Longrightarrow> k \<le> 1074 \<Longrightarrow> rnd x = Fin x"
proof -
  assume x: "x * 2 ^ k = of_int m" and m: "\<bar>m\<bar> \<le> 2 ^ 53" and k: "k \<le> 1074"
  have "x = of_int m * two_pow (- int k)"
    using x by (simp add: two_pow_powi power_int_minus field_simps)
  then have "is_fp x"
    unfolding is_fp_def using m k by (intro exI [of _ m] exI [of _ "- int k"]) simp
  moreover have "\<bar>x\<bar> \<le> \<bar>of_int m\<bar>"
    unfolding x [symmetric] abs_mult by (simp add: mult_le_cancel_left1)
  then have "\<bar>x\<bar> \<le> two_pow 64"
    using int64_le_two_pow [of m] m by simp
  then have "\<bar>x\<bar> < two_pow 1024" by (rule order_le_less_trans) simp
  ultimately show ?thesis by (rule rnd_fp)
qed

lemma trunc_rat_numeral [fp_eval]:
  "trunc_rat (numeral n) = numeral n" "trunc_rat (- numeral n) = - numeral n"
  "trunc_rat 0 = 0" "trunc_rat 1 = 1"
  using trunc_rat_of_int [of "numeral n"] trunc_rat_of_int [of "- numeral n"]
    trunc_rat_of_int [of 0] trunc_rat_of_int [of 1] by simp_all

lemma int64_ok_numeral [fp_eval]:
  "(numeral n :: int) < 2 ^ 63 \<Longrightarrow> int64_ok (numeral n)"
  "(numeral n :: int) < 2 ^ 63 \<Longrightarrow> int64_ok (- numeral n)" "int64_ok 0" "int64_ok 1"
  by (simp_all add: int64_ok_def)

section \<open>Magnitude bounds\<close>

definition bounded_by :: "int \<Rightarrow> double \<Rightarrow> bool" where
  "bounded_by k d \<longleftrightarrow> (\<exists>x. d = Fin x \<and> \<bar>x\<bar> \<le> two_pow k)"

lemma bounded_by_rnd:
  assumes "\<bar>x\<bar> \<le> two_pow k" "- 1074 \<le> k" "k \<le> 1023"
  shows "bounded_by k (rnd x)"
  using rnd_Fin_le [OF assms(1,3)] rnd_rat_abs_le [OF assms(1,2)] by (simp add: bounded_by_def)

lemma bounded_by_mono: "bounded_by j d \<Longrightarrow> j \<le> k \<Longrightarrow> bounded_by k d"
  using two_pow_mono [of j k] by (auto simp: bounded_by_def simp del: two_pow_le_iff)

lemma two_pow_Suc: "two_pow (k + 1) = two_pow k + two_pow k"
  by (simp add: two_pow_add two_pow_def [of 1])

lemma bounded_by_dadd:
  assumes "bounded_by k a" "bounded_by k b" "0 \<le> k" "k < 1023"
  shows "bounded_by (k + 1) (dadd a b)"
proof -
  obtain x y where xy: "a = Fin x" "b = Fin y" "\<bar>x\<bar> \<le> two_pow k" "\<bar>y\<bar> \<le> two_pow k"
    using assms by (auto simp: bounded_by_def)
  then have "\<bar>x + y\<bar> \<le> two_pow (k + 1)" unfolding two_pow_Suc by linarith
  then show ?thesis using assms(3,4) by (simp add: xy bounded_by_rnd)
qed

lemma bounded_by_dneg [simp]: "bounded_by k (dneg a) \<longleftrightarrow> bounded_by k a"
  by (cases a) (auto simp: bounded_by_def)

lemma bounded_by_dsub:
  "bounded_by k a \<Longrightarrow> bounded_by k b \<Longrightarrow> 0 \<le> k \<Longrightarrow> k < 1023 \<Longrightarrow> bounded_by (k + 1) (dsub a b)"
  unfolding dsub_def by (rule bounded_by_dadd) simp_all

lemma bounded_by_dmul:
  assumes "bounded_by j a" "bounded_by k b" "0 \<le> j" "0 \<le> k" "j + k \<le> 1023"
  shows "bounded_by (j + k) (dmul a b)"
proof -
  obtain x y where xy: "a = Fin x" "b = Fin y" "\<bar>x\<bar> \<le> two_pow j" "\<bar>y\<bar> \<le> two_pow k"
    using assms by (auto simp: bounded_by_def)
  then have "\<bar>x * y\<bar> \<le> two_pow (j + k)"
    unfolding abs_mult two_pow_add by (intro mult_mono) simp_all
  then show ?thesis using assms(3-) by (simp add: xy bounded_by_rnd)
qed

lemma bounded_by_ddiv:
  assumes "bounded_by k a" "1 \<le> c" "0 \<le> k" "k \<le> 1023"
  shows "bounded_by k (ddiv a (Fin c))"
proof -
  obtain x where x: "a = Fin x" "\<bar>x\<bar> \<le> two_pow k" using assms by (auto simp: bounded_by_def)
  have "\<bar>x\<bar> * 1 \<le> two_pow k * c" using x(2) assms(2) by (intro mult_mono) simp_all
  then have "\<bar>x / c\<bar> \<le> two_pow k" using assms(2) by (simp add: field_simps)
  then show ?thesis using assms by (simp add: x bounded_by_rnd)
qed

end
