(* ===== verification/Market_Types.thy ===== *)
theory Market_Types
  imports Doubles
begin

text \<open>
  The value types of \<open>src/common/types.hpp\<close> and the event record of
  \<open>src/marketdata/events.hpp\<close>.

  The C++ enums have a fixed underlying type, and the binary event log is decoded with
  \<open>static_cast\<close> from an unchecked byte, so a \<open>Side\<close> or \<open>EventType\<close> can hold a byte outside
  its named enumerators; the constructors \<open>SideRaw\<close> and \<open>EventTypeRaw\<close> carry those values.
  A \<open>Symbol\<close> is the string its \<open>view()\<close> returns (the padding after it is never read).
\<close>

section \<open>Prices\<close>

datatype price = Price (ticks: int)

definition kScale :: int where
  "kScale = 10000"

definition from_ticks :: "int \<Rightarrow> price" where
  "from_ticks t = Price t"

definition from_double :: "double \<Rightarrow> price" where
  "from_double dollars =
     from_ticks (d_to_int64 (dadd (dmul dollars (d_of_int kScale))
       (if dle (Fin 0) dollars then Fin (1 / 2) else Fin (- (1 / 2)))))"

definition to_double :: "price \<Rightarrow> double" where
  "to_double p = ddiv (d_of_int (ticks p)) (d_of_int kScale)"

definition price_add :: "price \<Rightarrow> price \<Rightarrow> price" where
  "price_add a b = from_ticks (ticks a + ticks b)"

definition price_sub :: "price \<Rightarrow> price \<Rightarrow> price" where
  "price_sub a b = from_ticks (ticks a - ticks b)"

text \<open>\<open>operator<=>\<close> compares ticks: prices are linearly ordered.\<close>

instantiation price :: linorder
begin

definition less_eq_price :: "price \<Rightarrow> price \<Rightarrow> bool" where
  "less_eq_price a b \<longleftrightarrow> ticks a \<le> ticks b"

definition less_price :: "price \<Rightarrow> price \<Rightarrow> bool" where
  "less_price a b \<longleftrightarrow> ticks a < ticks b"

instance
  by intro_classes (auto simp: less_eq_price_def less_price_def price.expand)

end

section \<open>Enumerations and symbols\<close>

datatype side = Buy | Sell | SideRaw u8

definition opposite :: "side \<Rightarrow> side" where
  "opposite s = (if s = Buy then Sell else Buy)"

definition side_str :: "side \<Rightarrow> string" where
  "side_str s = (if s = Buy then ''BUY'' else ''SELL'')"

datatype order_type = Limit | Market

datatype time_in_force = GTC | IOC | FOK

datatype order_status = New | PartiallyFilled | Filled | Canceled | Rejected

fun status_str :: "order_status \<Rightarrow> string" where
  "status_str New = ''NEW''"
| "status_str PartiallyFilled = ''PARTIALLY_FILLED''"
| "status_str Filled = ''FILLED''"
| "status_str Canceled = ''CANCELED''"
| "status_str Rejected = ''REJECTED''"

type_synonym symbol = string

definition kMaxLen :: nat where
  "kMaxLen = 15"

definition symbol_of :: "string \<Rightarrow> symbol" where
  "symbol_of sv = take kMaxLen sv"

section \<open>Market events\<close>

datatype event_type = Quote | Trade | BookDelete | Snapshot | Heartbeat | EventTypeRaw u8

fun event_type_str :: "event_type \<Rightarrow> string" where
  "event_type_str Quote = ''QUOTE''"
| "event_type_str Trade = ''TRADE''"
| "event_type_str BookDelete = ''BOOK_DELETE''"
| "event_type_str Snapshot = ''SNAPSHOT''"
| "event_type_str Heartbeat = ''HEARTBEAT''"
| "event_type_str (EventTypeRaw _) = ''UNKNOWN''"

record market_event =
  ev_timestamp :: int
  ev_sequence :: u64
  ev_symbol :: symbol
  ev_type :: event_type
  ev_price :: price
  ev_quantity :: int
  ev_side :: side

definition make_quote :: "int \<Rightarrow> u64 \<Rightarrow> symbol \<Rightarrow> side \<Rightarrow> price \<Rightarrow> int \<Rightarrow> market_event" where
  "make_quote ts seq sy s px qty =
     \<lparr>ev_timestamp = ts, ev_sequence = seq, ev_symbol = sy, ev_type = Quote,
      ev_price = px, ev_quantity = qty, ev_side = s\<rparr>"

definition make_trade :: "int \<Rightarrow> u64 \<Rightarrow> symbol \<Rightarrow> side \<Rightarrow> price \<Rightarrow> int \<Rightarrow> market_event" where
  "make_trade ts seq sy aggressor px qty =
     \<lparr>ev_timestamp = ts, ev_sequence = seq, ev_symbol = sy, ev_type = Trade,
      ev_price = px, ev_quantity = qty, ev_side = aggressor\<rparr>"

definition make_delete :: "int \<Rightarrow> u64 \<Rightarrow> symbol \<Rightarrow> side \<Rightarrow> price \<Rightarrow> market_event" where
  "make_delete ts seq sy s px =
     \<lparr>ev_timestamp = ts, ev_sequence = seq, ev_symbol = sy, ev_type = BookDelete,
      ev_price = px, ev_quantity = 0, ev_side = s\<rparr>"

definition make_heartbeat :: "int \<Rightarrow> u64 \<Rightarrow> symbol \<Rightarrow> market_event" where
  "make_heartbeat ts seq sy =
     \<lparr>ev_timestamp = ts, ev_sequence = seq, ev_symbol = sy, ev_type = Heartbeat,
      ev_price = Price 0, ev_quantity = 0, ev_side = Buy\<rparr>"

lemmas make_event_defs = make_quote_def make_trade_def make_delete_def make_heartbeat_def

section \<open>Facts\<close>

lemma length_symbol_of: "length (symbol_of s) \<le> kMaxLen"
  by (simp add: symbol_of_def)

lemma symbol_of_idem: "length s \<le> kMaxLen \<Longrightarrow> symbol_of s = s"
  by (simp add: symbol_of_def)

lemma d_of_kScale [simp]: "d_of_int kScale = Fin 10000"
  using d_of_int_exact [of kScale] by (simp add: kScale_def)

lemma to_double_Fin:
  assumes "\<bar>ticks p\<bar> \<le> 2 ^ 64"
  shows "to_double p = Fin (rnd_rat (rnd_rat (of_int (ticks p)) / 10000))"
proof -
  let ?r = "rnd_rat (of_int (ticks p))"
  have "\<bar>?r\<bar> \<le> two_pow 64"
    using int64_le_two_pow [OF assms] by (rule rnd_rat_abs_le) simp
  then have "\<bar>?r / 10000\<bar> \<le> two_pow 64" by simp
  also have "\<dots> \<le> two_pow 1023" by simp
  finally have "rnd (?r / 10000) = Fin (rnd_rat (?r / 10000))" by (rule rnd_Fin)
  then show ?thesis
    using d_of_int_Fin [OF assms] by (simp add: to_double_def)
qed

lemma to_double_fp:
  assumes "int64_ok (ticks p)"
  obtains x where "to_double p = Fin x" "is_fp x" "\<bar>x\<bar> \<le> two_pow 64"
proof -
  have t: "\<bar>ticks p\<bar> \<le> 2 ^ 64" using assms by (auto simp: int64_ok_def)
  have "\<bar>rnd_rat (of_int (ticks p))\<bar> \<le> two_pow 64"
    using int64_le_two_pow [OF t] by (rule rnd_rat_abs_le) simp
  then have "\<bar>rnd_rat (rnd_rat (of_int (ticks p)) / 10000)\<bar> \<le> two_pow 64"
    by (intro rnd_rat_abs_le) simp_all
  then show thesis using that to_double_Fin [OF t] is_fp_rnd_rat by blast
qed

lemma to_double_exact_arg:
  "\<bar>ticks p\<bar> \<le> 2 ^ 53 \<Longrightarrow> to_double p = Fin (rnd_rat (of_int (ticks p) / 10000))"
  using to_double_Fin [of p] by (simp add: rnd_rat_is_fp is_fp_of_int)

lemma to_double_mono [double_mono]:
  assumes "\<bar>ticks p\<bar> \<le> 2 ^ 64" "\<bar>ticks q\<bar> \<le> 2 ^ 64" "p \<le> q"
  shows "dle (to_double p) (to_double q)"
  using assms by (simp add: to_double_Fin rnd_rat_mono divide_right_mono less_eq_price_def)

section \<open>Prices survive the conversion to doubles\<close>

text \<open>The two roundings of \<open>ticks / 10000 * 10000\<close> together move an integer of at most
  \<open>2^49\<close> by no more than a quarter.\<close>

lemma scale_roundtrip_error:
  fixes t :: rat
  assumes "1 \<le> t" "t \<le> two_pow 49"
  shows "\<bar>rnd_rat (rnd_rat (t / 10000) * 10000) - t\<bar> \<le> 1 / 4"
proof -
  define a where "a = rnd_rat (t / 10000)"
  define d where "d = two_pow (- 53)"
  have d: "0 < d" "d \<le> 1 / 4" by (simp_all add: d_def two_pow_def)
  have e14: "two_pow (- 14) = 1 / 16384" by (simp add: two_pow_def)
  have small: "two_pow (- 1022) \<le> 1 / 16384" unfolding e14 [symmetric] by simp
  have lo: "1 / 16384 \<le> t / 10000" using assms(1) by simp
  have a: "\<bar>a - t / 10000\<bar> \<le> t / 10000 * d"
    using rnd_rat_rel_error [of "t / 10000"] lo small assms(1)
    unfolding a_def d_def by (simp add: order_trans [OF small])
  have a10: "\<bar>a * 10000 - t\<bar> \<le> t * d"
    using a unfolding abs_le_iff by (simp add: field_simps)
  have td: "t * d \<le> t * (1 / 4)" using d assms(1) by (intro mult_left_mono) auto
  have pos: "t * (3 / 4) \<le> a * 10000" "a * 10000 \<le> t * 2"
    using a10 td assms(1) unfolding abs_le_iff by linarith+
  have "two_pow (- 1022) \<le> \<bar>a * 10000\<bar>"
    using pos(1) small assms(1) unfolding abs_if by (simp split: if_splits)
  then have "\<bar>rnd_rat (a * 10000) - a * 10000\<bar> \<le> \<bar>a * 10000\<bar> * d"
    unfolding d_def by (rule rnd_rat_rel_error)
  also have "\<dots> \<le> (t * 2) * d"
    using pos assms(1) d by (intro mult_right_mono) auto
  finally have "\<bar>rnd_rat (a * 10000) - t\<bar> \<le> t * d * 3"
    using a10 unfolding abs_le_iff by (simp add: algebra_simps)
  also have "\<dots> \<le> two_pow 49 * d * 3"
    using assms(2) d by (intro mult_right_mono) auto
  also have "\<dots> \<le> 1 / 4" by (simp add: d_def two_pow_def)
  finally show ?thesis by (simp add: a_def)
qed

lemma scale_roundtrip_floor:
  assumes "1 \<le> t" "t \<le> 2 ^ 49"
  defines "b \<equiv> rnd_rat (rnd_rat (of_int t / 10000) * 10000)"
  shows "\<lfloor>rnd_rat (b + 1 / 2)\<rfloor> = t"
proof -
  have "of_int t \<le> (of_int (2 ^ 49) :: rat)" using assms(2) by (simp only: of_int_le_iff)
  then have "\<bar>b - of_int t\<bar> \<le> 1 / 4"
    unfolding b_def using assms(1) by (intro scale_roundtrip_error) (simp_all add: two_pow_def)
  then have b: "of_int t \<le> b + 1 / 2" "b + 1 / 2 \<le> of_int (4 * t + 3) * two_pow (- 2)"
    unfolding abs_le_iff by (simp_all add: two_pow_def)
  have "is_fp (of_int t)" using assms by (intro is_fp_of_int) auto
  with b(1) have lo: "of_int t \<le> rnd_rat (b + 1 / 2)" by (rule rnd_rat_ge_fp)
  have "is_fp (of_int (4 * t + 3) * two_pow (- 2))"
    unfolding is_fp_def using assms
    by (intro exI [of _ "4 * t + 3"] exI [of _ "- 2"]) simp
  with b(2) have "rnd_rat (b + 1 / 2) \<le> of_int (4 * t + 3) * two_pow (- 2)"
    by (rule rnd_rat_le_fp)
  then have "rnd_rat (b + 1 / 2) < of_int t + 1" by (simp add: two_pow_def)
  with lo show ?thesis by (simp add: floor_eq_iff)
qed

lemma from_double_scaled:
  assumes "1 \<le> t" "t \<le> 2 ^ 49"
  defines "a \<equiv> rnd_rat (of_int t / 10000)"
  shows "from_double (Fin a) = Price t" and "from_double (Fin (- a)) = Price (- t)"
proof -
  define b where "b = rnd_rat (a * 10000)"
  define c where "c = rnd_rat (b + 1 / 2)"
  have "of_int t \<le> (of_int (2 ^ 49) :: rat)" using assms(2) by (simp only: of_int_le_iff)
  then have "\<bar>of_int t / 10000\<bar> \<le> two_pow 49"
    using assms(1) by (simp add: two_pow_def)
  then have a: "\<bar>a\<bar> \<le> two_pow 49" unfolding a_def by (rule rnd_rat_abs_le) simp
  then have a10: "\<bar>a * 10000\<bar> \<le> two_pow 63" by (simp add: abs_mult two_pow_def)
  then have b: "\<bar>b\<bar> \<le> two_pow 63" unfolding b_def by (rule rnd_rat_abs_le) simp
  have fin: "\<bar>x\<bar> \<le> two_pow 64 \<Longrightarrow> rnd x = Fin (rnd_rat x)" for x
    by (rule rnd_Fin, erule order_trans) simp
  have "\<bar>b + 1 / 2\<bar> \<le> two_pow 63 + 1 / 2" using b by linarith
  also have "\<dots> \<le> two_pow 64" by (simp add: two_pow_def)
  finally have bh: "\<bar>b + 1 / 2\<bar> \<le> two_pow 64" .
  have c: "\<lfloor>c\<rfloor> = t"
    unfolding c_def b_def a_def using assms(1,2) by (rule scale_roundtrip_floor)
  have "0 < two_pow (- 14)" "two_pow (- 14) \<le> a"
    unfolding a_def using assms(1)
    by (simp, intro rnd_rat_ge_fp is_fp_two_pow) (simp_all add: two_pow_def field_simps)
  then have apos: "0 < a" by linarith
  have cpos: "0 < c" using c assms(1) by linarith
  have ok: "int64_ok t" "int64_ok (- t)" using assms(1,2) by (simp_all add: int64_ok_def)
  have "rnd (a * 10000) = Fin b" "rnd (b + 1 / 2) = Fin c"
    using a10 bh fin by (simp_all add: b_def c_def order_trans [OF a10])
  then show "from_double (Fin a) = Price t"
    using apos cpos c ok by (simp add: from_double_def from_ticks_def trunc_rat_def)
  have "rnd (- (a * 10000)) = Fin (- b)" "rnd (- b - 1 / 2) = Fin (- c)"
    using a10 bh fin [of "- (a * 10000)"] fin [of "- b - 1 / 2"] rnd_rat_minus [of "b + 1 / 2"]
    by (simp_all add: b_def c_def rnd_rat_minus order_trans [OF a10] abs_minus_commute)
  then show "from_double (Fin (- a)) = Price (- t)"
    using apos cpos c ok by (simp add: from_double_def from_ticks_def trunc_rat_def ceiling_minus)
qed

text \<open>Conversion from double dollars is monotone on prices of moderate size.\<close>

lemma from_double_mono:
  assumes "\<bar>a\<bar> \<le> two_pow 47" "\<bar>b\<bar> \<le> two_pow 47" "a \<le> b"
  shows "from_double (Fin a) \<le> from_double (Fin b)"
proof -
  define h where "h x = (if 0 \<le> x then 1 / 2 else - (1 / 2) :: rat)" for x :: rat
  define g where "g x = rnd_rat (rnd_rat (x * 10000) + h x)" for x
  have fd: "from_double (Fin x) = Price (trunc_rat (g x))" if x: "\<bar>x\<bar> \<le> two_pow 47" for x
  proof -
    have m: "\<bar>x * 10000\<bar> \<le> two_pow 61" using x by (simp add: abs_mult two_pow_def)
    then have "\<bar>rnd_rat (x * 10000)\<bar> \<le> two_pow 61" by (rule rnd_rat_abs_le) simp
    moreover have "\<bar>h x\<bar> \<le> 1" by (simp add: h_def)
    ultimately have "\<bar>rnd_rat (x * 10000) + h x\<bar> \<le> two_pow 61 + 1" by linarith
    also have "two_pow 61 + 1 \<le> two_pow 62" by (simp add: two_pow_def)
    finally have s: "\<bar>rnd_rat (x * 10000) + h x\<bar> \<le> two_pow 62" .
    then have "\<bar>g x\<bar> \<le> of_int (2 ^ 62)"
      unfolding g_def using rnd_rat_abs_le [OF s] by (simp add: two_pow_def)
    then have "g x \<le> of_int (2 ^ 62)" "of_int (- (2 ^ 62)) \<le> g x" by (simp_all add: abs_le_iff)
    from trunc_rat_mono [OF this(1)] trunc_rat_mono [OF this(2)]
    have "int64_ok (trunc_rat (g x))" unfolding trunc_rat_of_int by (simp add: int64_ok_def)
    then show ?thesis
      using rnd_Fin_le [OF m] rnd_Fin_le [OF s]
      by (cases "0 \<le> x") (simp_all add: from_double_def from_ticks_def kScale_def fp_eval g_def h_def)
  qed
  have "g a \<le> g b"
    unfolding g_def
  proof (rule rnd_rat_mono, rule add_mono)
    show "rnd_rat (a * 10000) \<le> rnd_rat (b * 10000)" using assms(3) by (intro rnd_rat_mono) simp
    show "h a \<le> h b" using assms(3) by (simp add: h_def)
  qed
  then show ?thesis using assms fd by (simp add: less_eq_price_def trunc_rat_mono)
qed

lemma from_double_zero: "from_double (Fin 0) = Price 0"
proof -
  have "is_fp (1 / 2)" using is_fp_two_pow [of "- 1"] by (simp add: two_pow_def)
  then have "rnd (1 / 2) = Fin (1 / 2)" by (rule rnd_fp) (simp add: two_pow_def)
  moreover have "\<lfloor>1 / 2 :: rat\<rfloor> = 0" by (simp add: floor_eq_iff)
  ultimately show ?thesis by (simp add: from_double_def from_ticks_def trunc_rat_def int64_ok_def)
qed

lemma from_double_to_double:
  assumes "\<bar>ticks p\<bar> \<le> 2 ^ 49"
  shows "from_double (to_double p) = p"
proof -
  let ?t = "ticks p"
  have dbl: "to_double p = Fin (rnd_rat (of_int ?t / 10000))"
    using assms by (intro to_double_exact_arg) simp
  consider "1 \<le> ?t" | "?t = 0" | "1 \<le> - ?t" by linarith
  then show ?thesis
  proof cases
    case 1
    then show ?thesis using assms from_double_scaled(1) [of ?t] by (simp add: dbl)
  next
    case 2
    with from_double_zero show ?thesis by (simp add: dbl price.expand)
  next
    case 3
    then show ?thesis
      using assms from_double_scaled(2) [of "- ?t"] by (simp add: dbl rnd_rat_minus)
  qed
qed

text \<open>
  A price of at most \<open>2^49\<close> ticks in magnitude (about 56 billion dollars) is recovered
  exactly when it is converted to a double and back, so the strategy and the execution
  engine can pass prices through \<open>double\<close> without moving them by a tick.
\<close>

lemma price_double_roundtrip:
  assumes "\<bar>ticks p\<bar> \<le> 2 ^ 49"
  shows "from_double (to_double p) = p"
  using assms by (rule from_double_to_double)

lemma price_double_roundtrip_example:
  "\<bar>ticks (Price 1012345)\<bar> \<le> 2 ^ 49 \<and> from_double (to_double (Price 1012345)) = Price 1012345"
  using price_double_roundtrip [of "Price 1012345"] by simp

end
