(* ===== verification/Order_Book.thy ===== *)
theory Order_Book
  imports Market_Types
begin

text \<open>
  The limit order book of \<open>src/orderbook/order_book.hpp\<close>: two flat vectors of price levels,
  bids in descending and asks in ascending order, maintained with \<open>std::lower_bound\<close> and
  insert/erase.  \<open>lower_bound\<close> is the library's binary search.

  The locale \<open>level_order\<close> proves the vector operations correct once for an arbitrary strict
  linear order of prices; it is interpreted with \<open>>\<close> for bids and \<open><\<close> for asks.  The locale
  \<open>level_store\<close> is the contract of one side as a finite map from prices to quantities.
  \<open>map_book\<close> is the \<open>std::map\<close> reference implementation the benchmark
  \<open>benchmarks/bench_order_book.cpp\<close> compares against.
\<close>

section \<open>Levels and binary search\<close>

record book_level =
  lvl_price :: price
  lvl_quantity :: int

function lb :: "('a \<Rightarrow> bool) \<Rightarrow> 'a list \<Rightarrow> nat \<Rightarrow> nat \<Rightarrow> nat" where
  "lb bef xs first len =
     (if len = 0 then first
      else let half = len div 2; middle = first + half
           in if bef (xs ! middle) then lb bef xs (middle + 1) (len - half - 1)
              else lb bef xs first half)"
  by pat_completeness auto
termination
  by (relation "measure (\<lambda>(bef, xs, first, len). len)") auto

declare lb.simps [simp del]

definition lower_bound :: "('a \<Rightarrow> bool) \<Rightarrow> 'a list \<Rightarrow> nat" where
  "lower_bound bef xs = lb bef xs 0 (length xs)"

definition find_position :: "book_level list \<Rightarrow> side \<Rightarrow> price \<Rightarrow> nat" where
  "find_position levels s p =
     (if s = Buy then lower_bound (\<lambda>lvl. lvl_price lvl > p) levels
      else lower_bound (\<lambda>lvl. lvl_price lvl < p) levels)"

definition upsert_levels :: "side \<Rightarrow> book_level list \<Rightarrow> price \<Rightarrow> int \<Rightarrow> book_level list" where
  "upsert_levels s levels p qty =
     (let it = find_position levels s p
      in if it < length levels \<and> lvl_price (levels ! it) = p
         then if qty = 0 then take it levels @ drop (it + 1) levels
              else levels[it := (levels ! it)\<lparr>lvl_quantity := qty\<rparr>]
         else if qty \<noteq> 0
              then take it levels @ \<lparr>lvl_price = p, lvl_quantity = qty\<rparr> # drop it levels
              else levels)"

definition erase_levels :: "side \<Rightarrow> book_level list \<Rightarrow> price \<Rightarrow> book_level list" where
  "erase_levels s levels p =
     (let it = find_position levels s p
      in if it < length levels \<and> lvl_price (levels ! it) = p
         then take it levels @ drop (it + 1) levels
         else levels)"

section \<open>The book\<close>

record order_book =
  ob_symbol :: symbol
  bids :: "book_level list"
  asks :: "book_level list"
  last_sequence :: u64
  last_update_time :: int
  last_trade_price :: "price option"
  last_trade_quantity :: "int option"
  last_trade_time :: "int option"

definition new_book :: "symbol \<Rightarrow> order_book" where
  "new_book s = \<lparr>ob_symbol = s, bids = [], asks = [], last_sequence = 0, last_update_time = 0,
     last_trade_price = None, last_trade_quantity = None, last_trade_time = None\<rparr>"

definition upsert :: "side \<Rightarrow> price \<Rightarrow> int \<Rightarrow> order_book \<Rightarrow> order_book" where
  "upsert s p qty b =
     (if s = Buy then b\<lparr>bids := upsert_levels s (bids b) p qty\<rparr>
      else b\<lparr>asks := upsert_levels s (asks b) p qty\<rparr>)"

definition erase :: "side \<Rightarrow> price \<Rightarrow> order_book \<Rightarrow> order_book" where
  "erase s p b =
     (if s = Buy then b\<lparr>bids := erase_levels s (bids b) p\<rparr>
      else b\<lparr>asks := erase_levels s (asks b) p\<rparr>)"

definition clear :: "order_book \<Rightarrow> order_book" where
  "clear b = b\<lparr>bids := [], asks := []\<rparr>"

definition apply_event :: "market_event \<Rightarrow> order_book \<Rightarrow> order_book" where
  "apply_event ev b0 =
     (let b = b0\<lparr>last_sequence := ev_sequence ev, last_update_time := ev_timestamp ev\<rparr>
      in case ev_type ev of
           Quote \<Rightarrow> upsert (ev_side ev) (ev_price ev) (ev_quantity ev) b
         | BookDelete \<Rightarrow> erase (ev_side ev) (ev_price ev) b
         | Trade \<Rightarrow> b\<lparr>last_trade_price := Some (ev_price ev),
                     last_trade_quantity := Some (ev_quantity ev),
                     last_trade_time := Some (ev_timestamp ev)\<rparr>
         | Snapshot \<Rightarrow> clear b
         | Heartbeat \<Rightarrow> b
         | EventTypeRaw _ \<Rightarrow> b)"

definition best_bid :: "order_book \<Rightarrow> price option" where
  "best_bid b = (case bids b of [] \<Rightarrow> None | l # _ \<Rightarrow> Some (lvl_price l))"

definition best_ask :: "order_book \<Rightarrow> price option" where
  "best_ask b = (case asks b of [] \<Rightarrow> None | l # _ \<Rightarrow> Some (lvl_price l))"

definition best_bid_quantity :: "order_book \<Rightarrow> int option" where
  "best_bid_quantity b = (case bids b of [] \<Rightarrow> None | l # _ \<Rightarrow> Some (lvl_quantity l))"

definition best_ask_quantity :: "order_book \<Rightarrow> int option" where
  "best_ask_quantity b = (case asks b of [] \<Rightarrow> None | l # _ \<Rightarrow> Some (lvl_quantity l))"

definition mid_price :: "order_book \<Rightarrow> double option" where
  "mid_price b =
     (case (best_bid b, best_ask b) of
        (Some bb, Some ba) \<Rightarrow> Some (ddiv (dadd (to_double bb) (to_double ba)) (Fin 2))
      | _ \<Rightarrow> None)"

definition spread :: "order_book \<Rightarrow> double option" where
  "spread b =
     (case (best_bid b, best_ask b) of
        (Some bb, Some ba) \<Rightarrow> Some (dsub (to_double ba) (to_double bb))
      | _ \<Rightarrow> None)"

definition crossed :: "order_book \<Rightarrow> bool" where
  "crossed b =
     (case (best_bid b, best_ask b) of
        (Some bb, Some ba) \<Rightarrow> ticks bb \<ge> ticks ba
      | _ \<Rightarrow> False)"

definition bid_depth :: "nat \<Rightarrow> order_book \<Rightarrow> book_level list" where
  "bid_depth levels b = take (min levels (length (bids b))) (bids b)"

definition ask_depth :: "nat \<Rightarrow> order_book \<Rightarrow> book_level list" where
  "ask_depth levels b = take (min levels (length (asks b))) (asks b)"

record book_snapshot =
  snap_symbol :: symbol
  snap_sequence :: u64
  snap_timestamp :: int
  snap_bids :: "book_level list"
  snap_asks :: "book_level list"

definition snapshot :: "order_book \<Rightarrow> book_snapshot" where
  "snapshot b = \<lparr>snap_symbol = ob_symbol b, snap_sequence = last_sequence b,
     snap_timestamp = last_update_time b, snap_bids = bids b, snap_asks = asks b\<rparr>"

definition bid_level_count :: "order_book \<Rightarrow> nat" where
  "bid_level_count b = length (bids b)"

definition ask_level_count :: "order_book \<Rightarrow> nat" where
  "ask_level_count b = length (asks b)"

section \<open>The map reference of the benchmark\<close>

record map_book =
  mb_bids :: "int \<rightharpoonup> int"
  mb_asks :: "int \<rightharpoonup> int"

definition map_apply :: "market_event \<Rightarrow> map_book \<Rightarrow> map_book" where
  "map_apply ev b =
     (case ev_type ev of
        Quote \<Rightarrow>
          (let upd = (\<lambda>m. if ev_quantity ev = 0 then m(ticks (ev_price ev) := None)
                          else m(ticks (ev_price ev) \<mapsto> ev_quantity ev))
           in if ev_side ev = Buy then b\<lparr>mb_bids := upd (mb_bids b)\<rparr>
              else b\<lparr>mb_asks := upd (mb_asks b)\<rparr>)
      | BookDelete \<Rightarrow>
          if ev_side ev = Buy then b\<lparr>mb_bids := (mb_bids b)(ticks (ev_price ev) := None)\<rparr>
          else b\<lparr>mb_asks := (mb_asks b)(ticks (ev_price ev) := None)\<rparr>
      | _ \<Rightarrow> b)"

definition map_best_bid :: "map_book \<Rightarrow> int option" where
  "map_best_bid b = (if mb_bids b = Map.empty then None else Some (Max (dom (mb_bids b))))"

definition map_best_ask :: "map_book \<Rightarrow> int option" where
  "map_best_ask b = (if mb_asks b = Map.empty then None else Some (Min (dom (mb_asks b))))"

text \<open>\<open>bid_depth\<close> walks the map from its highest key down.\<close>

definition map_bid_depth :: "nat \<Rightarrow> map_book \<Rightarrow> (int \<times> int) list" where
  "map_bid_depth levels b =
     take levels (map (\<lambda>t. (t, the (mb_bids b t))) (rev (sorted_list_of_set (dom (mb_bids b)))))"

section \<open>Specification vocabulary\<close>

definition level_map :: "book_level list \<Rightarrow> price \<rightharpoonup> int" where
  "level_map ls = map_of (map (\<lambda>l. (lvl_price l, lvl_quantity l)) ls)"

definition levels_ok :: "(price \<Rightarrow> price \<Rightarrow> bool) \<Rightarrow> book_level list \<Rightarrow> bool" where
  "levels_ok before ls \<longleftrightarrow>
     sorted_wrt before (map lvl_price ls) \<and> (\<forall>l \<in> set ls. lvl_quantity l \<noteq> 0)"

definition book_ok :: "order_book \<Rightarrow> bool" where
  "book_ok b \<longleftrightarrow> levels_ok (>) (bids b) \<and> levels_ok (<) (asks b)"

definition book_map :: "order_book \<Rightarrow> map_book" where
  "book_map b = \<lparr>mb_bids = (\<lambda>t. level_map (bids b) (Price t)),
                 mb_asks = (\<lambda>t. level_map (asks b) (Price t))\<rparr>"

section \<open>Binary search finds the partition point\<close>

lemma lb_partition_point:
  assumes "\<And>i. i < length xs \<Longrightarrow> bef (xs ! i) \<longleftrightarrow> i < k"
    and "first \<le> k" "k \<le> first + len" "first + len \<le> length xs"
  shows "lb bef xs first len = k"
  using assms
proof (induction bef xs first len rule: lb.induct)
  case (1 bef xs first len)
  show ?case
  proof (cases "len = 0")
    case True
    then show ?thesis using "1.prems" by (simp add: lb.simps [of bef xs first 0])
  next
    case False
    define half where "half = len div 2"
    have h: "half < len" using False by (simp add: half_def)
    then have b: "bef (xs ! (first + half)) \<longleftrightarrow> first + half < k"
      using "1.prems"(1,4) by simp
    show ?thesis
    proof (cases "first + half < k")
      case True
      then have "lb bef xs (first + half + 1) (len - half - 1) = k"
        using "1.IH"(1) [OF False half_def refl] "1.prems" b h by simp
      then show ?thesis
        using False b True by (simp add: lb.simps [of bef xs first len] Let_def half_def)
    next
      case upper: False
      then have "lb bef xs first half = k"
        using "1.IH"(2) [OF False half_def refl] "1.prems" b h by simp
      then show ?thesis
        using False b upper by (simp add: lb.simps [of bef xs first len] Let_def half_def)
    qed
  qed
qed

lemma lower_bound_append:
  assumes "\<forall>x \<in> set as. bef x" "\<forall>x \<in> set bs. \<not> bef x"
  shows "lower_bound bef (as @ bs) = length as"
  unfolding lower_bound_def
proof (rule lb_partition_point)
  fix i assume "i < length (as @ bs)"
  then show "bef ((as @ bs) ! i) \<longleftrightarrow> i < length as"
    using assms by (auto simp: nth_append)
qed simp_all

section \<open>One side of the book, for any strict linear order of prices\<close>

locale level_order =
  fixes before :: "price \<Rightarrow> price \<Rightarrow> bool" and s :: side
  assumes before_trans: "before x y \<Longrightarrow> before y z \<Longrightarrow> before x z"
    and before_irrefl: "\<not> before x x"
    and before_total: "x \<noteq> y \<Longrightarrow> before x y \<or> before y x"
    and find_position_before:
      "find_position ls s p = lower_bound (\<lambda>lvl. before (lvl_price lvl) p) ls"
begin

lemma level_cases [consumes 1, case_names absent present]:
  assumes "levels_ok before ls"
  obtains
    (absent) as bs where "ls = as @ bs" "find_position ls s p = length as"
      "\<forall>l \<in> set as. before (lvl_price l) p" "\<forall>l \<in> set bs. before p (lvl_price l)"
  | (present) as l bs where "ls = as @ l # bs" "find_position ls s p = length as"
      "lvl_price l = p" "\<forall>l \<in> set as. before (lvl_price l) p"
      "\<forall>l \<in> set bs. before p (lvl_price l)"
proof -
  let ?c = "\<lambda>l. before (lvl_price l) p"
  define as bs where "as = takeWhile ?c ls" and "bs = dropWhile ?c ls"
  have ls: "ls = as @ bs" by (simp add: as_def bs_def)
  have A: "\<forall>l \<in> set as. ?c l" by (auto simp: as_def dest: set_takeWhileD)
  have sb: "sorted_wrt (\<lambda>a b. before (lvl_price a) (lvl_price b)) bs"
    using assms by (simp add: ls levels_ok_def sorted_wrt_map sorted_wrt_append)
  show ?thesis
  proof (cases bs)
    case Nil
    then have "find_position ls s p = length as"
      using A ls lower_bound_append [of as ?c "[]"] by (simp add: find_position_before)
    then show ?thesis using A ls Nil absent [of as "[]"] by simp
  next
    case (Cons l bs')
    then have l: "\<not> ?c l" using hd_dropWhile [of ?c ls] by (simp add: bs_def)
    then have lp: "lvl_price l = p \<or> before p (lvl_price l)" using before_total by blast
    have T: "\<forall>x \<in> set bs'. before p (lvl_price x)"
      using sb lp Cons by (auto intro: before_trans)
    then have "\<forall>x \<in> set bs. \<not> ?c x"
      using l Cons by (metis before_trans before_irrefl set_ConsD)
    then have pos: "find_position ls s p = length as"
      using A by (simp add: find_position_before ls lower_bound_append)
    show ?thesis
    proof (cases "lvl_price l = p")
      case True
      then show ?thesis using present ls Cons pos A T by blast
    next
      case False
      then show ?thesis using absent [of as bs] ls Cons pos A T lp by auto
    qed
  qed
qed

lemma level_map_append:
  "level_map (as @ bs) q =
     (case level_map as q of Some v \<Rightarrow> Some v | None \<Rightarrow> level_map bs q)"
  by (induction as) (auto simp: level_map_def)

lemma level_map_Cons:
  "level_map (l # ls) = (level_map ls)(lvl_price l \<mapsto> lvl_quantity l)"
  by (simp add: level_map_def)

lemma level_map_None: "\<forall>l \<in> set ls. lvl_price l \<noteq> q \<Longrightarrow> level_map ls q = None"
  by (auto simp: level_map_def map_of_eq_None_iff)

lemma absent_maps:
  "\<forall>l \<in> set as. before (lvl_price l) p \<Longrightarrow> level_map as p = None"
  "\<forall>l \<in> set bs. before p (lvl_price l) \<Longrightarrow> level_map bs p = None"
  using before_irrefl by (auto intro!: level_map_None)

lemma absent_not_found:
  "ls = as @ bs \<Longrightarrow> \<forall>l \<in> set bs. before p (lvl_price l) \<Longrightarrow>
     \<not> (length as < length ls \<and> lvl_price (ls ! length as) = p)"
  using before_irrefl by (cases bs) auto

lemma level_map_upsert:
  assumes "levels_ok before ls"
  shows "level_map (upsert_levels s ls p q) =
           (if q = 0 then (level_map ls)(p := None) else (level_map ls)(p \<mapsto> q))"
  using assms
proof (cases rule: level_cases [where p = p])
  case (absent as bs)
  note not_found = absent_not_found [OF absent(1,4)]
  show ?thesis
    using absent absent_maps not_found
    by (auto simp: upsert_levels_def Let_def level_map_append level_map_Cons fun_eq_iff
        split: option.split)
next
  case (present as l bs)
  then show ?thesis
    using absent_maps
    by (auto simp: upsert_levels_def Let_def level_map_append level_map_Cons fun_eq_iff
        split: option.split)
qed

lemma level_map_erase:
  assumes "levels_ok before ls"
  shows "level_map (erase_levels s ls p) = (level_map ls)(p := None)"
  using assms
proof (cases rule: level_cases [where p = p])
  case (absent as bs)
  note not_found = absent_not_found [OF absent(1,4)]
  show ?thesis
    using absent absent_maps not_found
    by (auto simp: erase_levels_def Let_def level_map_append fun_eq_iff split: option.split)
next
  case (present as l bs)
  then show ?thesis
    using absent_maps
    by (auto simp: erase_levels_def Let_def level_map_append level_map_Cons fun_eq_iff
        split: option.split)
qed

lemma levels_ok_insert:
  assumes "levels_ok before (as @ bs)" "lvl_quantity l \<noteq> 0"
    "\<forall>x \<in> set as. before (lvl_price x) (lvl_price l)"
    "\<forall>x \<in> set bs. before (lvl_price l) (lvl_price x)"
  shows "levels_ok before (as @ l # bs)"
  using assms by (auto simp: levels_ok_def sorted_wrt_append)

lemma levels_ok_remove: "levels_ok before (as @ l # bs) \<Longrightarrow> levels_ok before (as @ bs)"
  by (auto simp: levels_ok_def sorted_wrt_append)

lemma levels_ok_upsert:
  assumes "levels_ok before ls"
  shows "levels_ok before (upsert_levels s ls p q)"
  using assms
proof (cases rule: level_cases [where p = p])
  case (absent as bs)
  note not_found = absent_not_found [OF absent(1,4)]
  show ?thesis
    using absent assms not_found by (auto simp: upsert_levels_def Let_def intro!: levels_ok_insert)
next
  case (present as l bs)
  then show ?thesis
    using assms levels_ok_remove [of as l bs]
    by (auto simp: upsert_levels_def Let_def intro!: levels_ok_insert)
qed

lemma levels_ok_erase:
  assumes "levels_ok before ls"
  shows "levels_ok before (erase_levels s ls p)"
  using assms
proof (cases rule: level_cases [where p = p])
  case (absent as bs)
  note not_found = absent_not_found [OF absent(1,4)]
  show ?thesis using absent assms not_found by (auto simp: erase_levels_def Let_def)
next
  case (present as l bs)
  then show ?thesis
    using assms levels_ok_remove [of as l bs] by (simp add: erase_levels_def)
qed

lemma best_level:
  assumes "levels_ok before (l # ls)" "level_map (l # ls) q = Some v"
  shows "q = lvl_price l \<or> before (lvl_price l) q"
  using assms by (auto simp: level_map_def levels_ok_def split: if_splits dest!: map_of_SomeD)

end

interpretation bid_side: level_order "(>)" Buy
  by unfold_locales (auto simp: find_position_def)

interpretation ask_side: level_order "(<)" Sell
  by unfold_locales (auto simp: find_position_def)

text \<open>A side byte that names neither \<open>Buy\<close> nor \<open>Sell\<close> is treated as the ask side.\<close>

lemma find_position_not_Buy: "s \<noteq> Buy \<Longrightarrow> find_position ls s p = find_position ls Sell p"
  by (simp add: find_position_def)

lemma levels_ops_not_Buy:
  "s \<noteq> Buy \<Longrightarrow> upsert_levels s ls p q = upsert_levels Sell ls p q"
  "s \<noteq> Buy \<Longrightarrow> erase_levels s ls p = erase_levels Sell ls p"
  by (simp_all add: upsert_levels_def erase_levels_def find_position_not_Buy [of s])

section \<open>The contract of a side: a finite map from prices to quantities\<close>

locale level_store =
  fixes empty :: 'l and upd :: "'l \<Rightarrow> price \<Rightarrow> int \<Rightarrow> 'l" and del :: "'l \<Rightarrow> price \<Rightarrow> 'l"
    and lookup :: "'l \<Rightarrow> price \<rightharpoonup> int" and invar :: "'l \<Rightarrow> bool"
  assumes invar_empty: "invar empty" and lookup_empty: "lookup empty = Map.empty"
    and invar_upd: "invar l \<Longrightarrow> invar (upd l p q)"
    and invar_del: "invar l \<Longrightarrow> invar (del l p)"
    and lookup_upd: "invar l \<Longrightarrow>
      lookup (upd l p q) = (if q = 0 then (lookup l)(p := None) else (lookup l)(p \<mapsto> q))"
    and lookup_del: "invar l \<Longrightarrow> lookup (del l p) = (lookup l)(p := None)"
begin

text \<open>Updates and removals of different prices commute, and a zero-size update is a removal.\<close>

lemma upd_zero_is_del: "invar l \<Longrightarrow> lookup (upd l p 0) = lookup (del l p)"
  by (simp add: lookup_upd lookup_del)

lemma upd_commute:
  "invar l \<Longrightarrow> p \<noteq> p' \<Longrightarrow> lookup (upd (upd l p q) p' q') = lookup (upd (upd l p' q') p q)"
  by (simp add: lookup_upd invar_upd fun_upd_twist)

lemma upd_last_wins: "invar l \<Longrightarrow> lookup (upd (upd l p q) p q') = lookup (upd l p q')"
  by (simp add: lookup_upd invar_upd)

lemma del_upd: "invar l \<Longrightarrow> lookup (del (upd l p q) p) = lookup (del l p)"
  by (simp add: lookup_upd lookup_del invar_upd)

end

interpretation bid_store: level_store "[]" "upsert_levels Buy" "erase_levels Buy" level_map "levels_ok (>)"
  by unfold_locales
    (simp_all add: bid_side.levels_ok_upsert bid_side.levels_ok_erase bid_side.level_map_upsert
      bid_side.level_map_erase, simp_all add: levels_ok_def level_map_def)

interpretation ask_store: level_store "[]" "upsert_levels Sell" "erase_levels Sell" level_map "levels_ok (<)"
  by unfold_locales
    (simp_all add: ask_side.levels_ok_upsert ask_side.levels_ok_erase ask_side.level_map_upsert
      ask_side.level_map_erase, simp_all add: levels_ok_def level_map_def)

section \<open>Properties of the book\<close>

lemma book_ok_new [simp]: "book_ok (new_book s)"
  by (simp add: book_ok_def new_book_def levels_ok_def)

lemma book_ok_clear [preserved]: "book_ok (clear b)"
  by (simp add: book_ok_def clear_def levels_ok_def)

lemma book_ok_upsert [preserved]: "book_ok b \<Longrightarrow> book_ok (upsert s p q b)"
  by (auto simp: book_ok_def upsert_def levels_ops_not_Buy [of s]
      intro: bid_side.levels_ok_upsert ask_side.levels_ok_upsert)

lemma book_ok_erase [preserved]: "book_ok b \<Longrightarrow> book_ok (erase s p b)"
  by (auto simp: book_ok_def erase_def levels_ops_not_Buy [of s]
      intro: bid_side.levels_ok_erase ask_side.levels_ok_erase)

lemma book_ok_update [simp]:
  "book_ok (b\<lparr>last_sequence := n\<rparr>) = book_ok b"
  "book_ok (b\<lparr>last_update_time := t\<rparr>) = book_ok b"
  "book_ok (b\<lparr>last_trade_price := tp\<rparr>) = book_ok b"
  "book_ok (b\<lparr>last_trade_quantity := tq\<rparr>) = book_ok b"
  "book_ok (b\<lparr>last_trade_time := tt\<rparr>) = book_ok b"
  by (simp_all add: book_ok_def)

lemma book_ok_apply_event [preserved]: "book_ok b \<Longrightarrow> book_ok (apply_event ev b)"
  unfolding apply_event_def Let_def
  by (cases "ev_type ev") (auto intro!: book_ok_upsert book_ok_erase book_ok_clear)

lemma ob_symbol_apply_event [keeps]: "ob_symbol (apply_event ev b) = ob_symbol b"
  by (cases "ev_type ev") (auto simp: apply_event_def Let_def upsert_def erase_def clear_def)

lemma last_update_apply_event: "last_update_time (apply_event ev b) = ev_timestamp ev"
  by (cases "ev_type ev") (auto simp: apply_event_def Let_def upsert_def erase_def clear_def)

lemma Price_eq_iff: "Price t = p \<longleftrightarrow> t = ticks p"
  by (cases p) auto

lemma finite_dom_level_map: "finite (dom (level_map ls))"
  by (simp add: level_map_def finite_dom_map_of)

lemma dom_level_map: "dom (level_map ls) = lvl_price ` set ls"
  by (auto simp: level_map_def dom_map_of_conv_image_fst image_image)

lemma best_bid_eq:
  assumes "book_ok b"
  shows "best_bid b = (if level_map (bids b) = Map.empty then None
                       else Some (Max (dom (level_map (bids b)))))"
proof (cases "bids b")
  case (Cons l ls)
  have "\<forall>x \<in> set ls. lvl_price x < lvl_price l"
    using assms Cons by (auto simp: book_ok_def levels_ok_def)
  then have "Max (dom (level_map (bids b))) = lvl_price l"
    by (intro Max_eqI) (auto simp: dom_level_map Cons less_imp_le)
  then show ?thesis by (simp add: best_bid_def Cons level_map_def)
qed (simp add: best_bid_def level_map_def)

lemma best_ask_eq:
  assumes "book_ok b"
  shows "best_ask b = (if level_map (asks b) = Map.empty then None
                       else Some (Min (dom (level_map (asks b)))))"
proof (cases "asks b")
  case (Cons l ls)
  have "\<forall>x \<in> set ls. lvl_price l < lvl_price x"
    using assms Cons by (auto simp: book_ok_def levels_ok_def)
  then have "Min (dom (level_map (asks b))) = lvl_price l"
    by (intro Min_eqI) (auto simp: dom_level_map Cons less_imp_le)
  then show ?thesis by (simp add: best_ask_def Cons level_map_def)
qed (simp add: best_ask_def level_map_def)

lemma book_map_apply:
  assumes "book_ok b"
  shows "book_map (apply_event ev b) =
    (if ev_type ev = Snapshot then \<lparr>mb_bids = Map.empty, mb_asks = Map.empty\<rparr>
     else map_apply ev (book_map b))"
proof -
  have ok: "levels_ok (>) (bids b)" "levels_ok (<) (asks b)"
    using assms by (simp_all add: book_ok_def)
  show ?thesis
    using bid_store.lookup_upd [OF ok(1)] bid_store.lookup_del [OF ok(1)]
      ask_store.lookup_upd [OF ok(2)] ask_store.lookup_del [OF ok(2)]
    by (cases "ev_type ev")
       (auto simp: apply_event_def Let_def upsert_def erase_def clear_def map_apply_def book_map_def
          levels_ops_not_Buy [of "ev_side ev"] fun_eq_iff level_map_def [of "[]"] Price_eq_iff)
qed

lemma book_ok_fold: "book_ok b \<Longrightarrow> book_ok (fold apply_event evs b)"
  by (induction evs arbitrary: b) (simp_all add: book_ok_apply_event)

lemma book_map_fold:
  "book_ok b \<Longrightarrow> \<forall>ev \<in> set evs. ev_type ev \<noteq> Snapshot \<Longrightarrow>
     book_map (fold apply_event evs b) = fold map_apply evs (book_map b)"
  by (induction evs arbitrary: b) (simp_all add: book_ok_apply_event book_map_apply)

text \<open>
  C6: starting from an empty book, any sequence of events whatever (in any order, with any
  prices, quantities and side or type bytes) leaves the bids strictly descending, the asks
  strictly ascending, no price twice on a side and no level of size zero.
\<close>

theorem order_book_invariant:
  "book_ok (fold apply_event evs (new_book s))"
  by (simp add: book_ok_fold)

lemma dom_ticks_level_map: "dom (\<lambda>t. level_map ls (Price t)) = ticks ` dom (level_map ls)"
proof -
  have "t \<in> ticks ` dom (level_map ls)" if "level_map ls (Price t) = Some q" for t q
    using that by (intro image_eqI [of _ _ "Price t"]) auto
  then show ?thesis by auto
qed

lemma mono_ticks: "mono ticks"
  by (simp add: mono_def less_eq_price_def)

lemma map_best_book_map:
  assumes "book_ok b"
  shows "map_best_bid (book_map b) = map_option ticks (best_bid b)"
    and "map_best_ask (book_map b) = map_option ticks (best_ask b)"
proof -
  have empty: "(\<lambda>t. level_map ls (Price t)) = Map.empty \<longleftrightarrow> level_map ls = Map.empty" for ls
    using dom_ticks_level_map [of ls] by (metis dom_eq_empty_conv image_is_empty)
  show "map_best_bid (book_map b) = map_option ticks (best_bid b)"
    using mono_Max_commute [OF mono_ticks finite_dom_level_map, of "bids b"]
    by (simp add: best_bid_eq [OF assms] map_best_bid_def book_map_def empty dom_ticks_level_map)
  show "map_best_ask (book_map b) = map_option ticks (best_ask b)"
    using mono_Min_commute [OF mono_ticks finite_dom_level_map, of "asks b"]
    by (simp add: best_ask_eq [OF assms] map_best_ask_def book_map_def empty dom_ticks_level_map)
qed

lemma map_bid_depth_book_map:
  assumes "book_ok b"
  shows "map_bid_depth n (book_map b) = map (\<lambda>l. (ticks (lvl_price l), lvl_quantity l)) (bid_depth n b)"
proof -
  let ?t = "\<lambda>l. ticks (lvl_price l)"
  have srt: "sorted_wrt (\<lambda>x y. y < x) (map ?t (bids b))"
    using assms by (simp add: book_ok_def levels_ok_def sorted_wrt_map less_price_def)
  have "sorted_wrt (<) (rev (map ?t (bids b)))" using srt by (simp only: sorted_wrt_rev)
  then have sd: "sorted (rev (map ?t (bids b)))" "distinct (rev (map ?t (bids b)))"
    by (auto simp: strict_sorted_iff)
  moreover have "dom (mb_bids (book_map b)) = set (rev (map ?t (bids b)))"
    by (simp add: book_map_def dom_ticks_level_map dom_level_map image_image)
  ultimately have "sorted_list_of_set (dom (mb_bids (book_map b))) = rev (map ?t (bids b))"
    using sorted_list_of_set.idem_if_sorted_distinct [of "rev (map ?t (bids b))"] by simp
  moreover have "mb_bids (book_map b) (?t l) = Some (lvl_quantity l)" if "l \<in> set (bids b)" for l
  proof -
    have "distinct (map lvl_price (bids b))"
      using sd(2) by (auto simp: distinct_map inj_on_def)
    then show ?thesis
      using that by (auto simp: book_map_def level_map_def o_def intro!: map_of_is_SomeI)
  qed
  ultimately have "map (\<lambda>t. (t, the (mb_bids (book_map b) t))) (rev (sorted_list_of_set (dom (mb_bids (book_map b))))) =
      map (\<lambda>l. (ticks (lvl_price l), lvl_quantity l)) (bids b)"
    by simp
  then show ?thesis by (simp add: map_bid_depth_def bid_depth_def take_map min_def)
qed

text \<open>
  C7: on every event stream without snapshots the flat-vector book holds exactly the levels
  of the \<open>std::map\<close> reference book of the benchmark and reports the same best bid, best
  ask and depth of bids, so the two representations are interchangeable.
\<close>

theorem order_book_refines_map:
  fixes evs :: "market_event list" and s :: symbol
  assumes "\<forall>ev \<in> set evs. ev_type ev \<noteq> Snapshot"
  defines "m \<equiv> fold map_apply evs \<lparr>mb_bids = Map.empty, mb_asks = Map.empty\<rparr>"
    and "b \<equiv> fold apply_event evs (new_book s)"
  shows "book_map b = m \<and> map_option ticks (best_bid b) = map_best_bid m
           \<and> map_option ticks (best_ask b) = map_best_ask m
           \<and> map (\<lambda>l. (ticks (lvl_price l), lvl_quantity l)) (bid_depth n b) = map_bid_depth n m"
proof -
  have "book_map (new_book s) = \<lparr>mb_bids = Map.empty, mb_asks = Map.empty\<rparr>"
    by (simp add: book_map_def new_book_def level_map_def)
  then have "book_ok b \<and> book_map b = m"
    using assms(1) by (simp add: b_def m_def book_ok_fold book_map_fold)
  then show ?thesis using map_best_book_map [of b] map_bid_depth_book_map [of b n] by simp
qed

definition demo_quotes :: "market_event list" where
  "demo_quotes = [make_quote 1 1 ''AAPL'' Buy (Price 999500) 100,
     make_quote 1 2 ''AAPL'' Sell (Price 1000500) 100,
     make_quote 2 3 ''AAPL'' Buy (Price 999600) 40,
     make_delete 3 4 ''AAPL'' Buy (Price 999500)]"

theorem order_book_refines_map_witness:
  "map_option ticks (best_bid (fold apply_event demo_quotes (new_book ''AAPL''))) =
     map_best_bid (fold map_apply demo_quotes \<lparr>mb_bids = Map.empty, mb_asks = Map.empty\<rparr>)"
  using order_book_refines_map [of demo_quotes "''AAPL''"]
  by (simp add: demo_quotes_def make_event_defs)

text \<open>
  The best bid the book reports is the highest and the best ask the lowest price that
  holds a level, after any event sequence; an empty side reports none.
\<close>

lemma best_prices_are_extremal:
  fixes evs :: "market_event list" and s :: symbol
  defines "b \<equiv> fold apply_event evs (new_book s)"
  shows "best_bid b = (if level_map (bids b) = Map.empty then None
                       else Some (Max (dom (level_map (bids b)))))
       \<and> best_ask b = (if level_map (asks b) = Map.empty then None
                       else Some (Min (dom (level_map (asks b)))))"
proof -
  have "book_ok b" by (simp add: b_def book_ok_fold)
  then show ?thesis using best_bid_eq best_ask_eq by blast
qed

section \<open>The mid price\<close>

lemma rnd_mid_between:
  assumes "is_fp x" "is_fp y" "x \<le> y" "\<bar>x\<bar> \<le> two_pow 64" "\<bar>y\<bar> \<le> two_pow 64"
  shows "\<exists>m. ddiv (dadd (Fin x) (Fin y)) (Fin 2) = Fin m \<and> is_fp m \<and> x \<le> m \<and> m \<le> y"
proof -
  have sum: "\<bar>x + y\<bar> \<le> two_pow 65" using assms(4,5) by (simp add: two_pow_def abs_le_iff)
  have fin: "\<bar>z\<bar> \<le> two_pow 65 \<Longrightarrow> rnd z = Fin (rnd_rat z)" for z
    by (rule rnd_Fin, erule order_trans) simp
  define r where "r = rnd_rat (x + y)"
  have "2 * x \<le> r" "r \<le> 2 * y"
    unfolding r_def using assms is_fp_double
    by (auto intro!: rnd_rat_ge_fp rnd_rat_le_fp)
  then have r: "x \<le> r / 2" "r / 2 \<le> y" by simp_all
  have "x \<le> rnd_rat (r / 2)" "rnd_rat (r / 2) \<le> y"
    using r assms by (auto intro: rnd_rat_ge_fp rnd_rat_le_fp)
  moreover have "\<bar>r / 2\<bar> \<le> two_pow 65"
    using r assms(4,5) by (simp add: two_pow_def abs_le_iff)
  ultimately show ?thesis
    using fin [OF sum] fin [of "r / 2"] by (auto simp: r_def is_fp_rnd_rat)
qed

text \<open>
  On an uncrossed two-sided book the mid price is a finite number that lies between the
  best bid and the best ask, in spite of the two roundings of \<open>(bid + ask) / 2\<close>.
\<close>

lemma mid_price_between:
  assumes "best_bid b = Some bb" "best_ask b = Some ba" "\<not> crossed b"
    and "int64_ok (ticks bb)" "int64_ok (ticks ba)"
  shows "\<exists>m. mid_price b = Some (Fin m) \<and> dle (to_double bb) (Fin m) \<and> dle (Fin m) (to_double ba)"
proof -
  obtain x where x: "to_double bb = Fin x" "is_fp x" "\<bar>x\<bar> \<le> two_pow 64"
    using assms(4) by (rule to_double_fp)
  obtain y where y: "to_double ba = Fin y" "is_fp y" "\<bar>y\<bar> \<le> two_pow 64"
    using assms(5) by (rule to_double_fp)
  have "bb \<le> ba" using assms(1-3) by (simp add: crossed_def less_eq_price_def)
  then have "dle (to_double bb) (to_double ba)"
    using assms(4,5) by (intro to_double_mono) (auto simp: int64_ok_def)
  then have "x \<le> y" by (simp add: x y)
  then obtain m where "ddiv (dadd (Fin x) (Fin y)) (Fin 2) = Fin m" "x \<le> m" "m \<le> y"
    using rnd_mid_between x y by blast
  then show ?thesis using assms(1,2) by (auto simp: mid_price_def x y)
qed

definition demo_book :: order_book where
  "demo_book = fold apply_event demo_quotes (new_book ''AAPL'')"

lemma mid_price_between_example:
  "best_bid demo_book = Some (Price 999600) \<and> best_ask demo_book = Some (Price 1000500) \<and>
   \<not> crossed demo_book \<and>
   (\<exists>m. mid_price demo_book = Some (Fin m) \<and> dle (to_double (Price 999600)) (Fin m)
        \<and> dle (Fin m) (to_double (Price 1000500)))"
proof -
  have h: "best_bid demo_book = Some (Price 999600)" "best_ask demo_book = Some (Price 1000500)"
    "\<not> crossed demo_book"
    by code_simp+
  show ?thesis using mid_price_between [OF h] h by (simp add: int64_ok_def)
qed

end
