(* ===== verification/Execution.thy ===== *)
theory Execution
  imports Order_Book "HOL-Library.AList"
begin

text \<open>
  The paper execution engine of \<open>src/execution/order.hpp\<close> and
  \<open>src/execution/paper_execution_engine.{hpp,cpp}\<close>.

  Two things the C++ standard leaves open are parameters of the model.  \<open>draw lo hi g\<close> is one
  draw from \<open>std::uniform_real_distribution(lo, hi)\<close> on the generator state \<open>g\<close>; nothing is
  assumed about the numbers it returns.  \<open>iter\<close> is the order in which a range-for visits the
  keys of the \<open>std::unordered_map\<close>; where a result depends on it, the hypothesis is that it
  visits every key exactly once (\<open>valid_iter\<close>).  The map itself is an association list with
  distinct keys.
\<close>

section \<open>Orders and reports\<close>

record order =
  o_id :: u64
  o_symbol :: symbol
  o_side :: side
  o_type :: order_type
  o_tif :: time_in_force
  o_price :: price
  o_quantity :: int
  o_filled :: int
  o_status :: order_status
  o_created_time :: int
  o_last_update_time :: int

definition remaining_quantity :: "order \<Rightarrow> int" where
  "remaining_quantity o' = o_quantity o' - o_filled o'"

record exec_report =
  rep_order_id :: u64
  rep_symbol :: symbol
  rep_side :: side
  rep_status :: order_status
  rep_fill_price :: price
  rep_fill_quantity :: int
  rep_remaining :: int
  rep_timestamp :: int
  rep_latency :: int
  rep_reason :: string

record fill_assumptions =
  partial_fill_probability :: double
  min_partial_fill_ratio :: double
  max_partial_fill_ratio :: double
  simulated_ack_latency :: int
  rng_seed :: u64

definition default_fill_assumptions :: fill_assumptions where
  "default_fill_assumptions = \<lparr>partial_fill_probability = rnd (3 / 10),
     min_partial_fill_ratio = rnd (2 / 10), max_partial_fill_ratio = rnd (9 / 10),
     simulated_ack_latency = 50000, rng_seed = 42\<rparr>"

section \<open>The engine\<close>

record 'g exec_engine =
  assumptions :: fill_assumptions
  rng :: 'g
  open_orders :: "(u64 \<times> order) list"
  total_submitted :: nat
  total_canceled :: nat
  total_filled :: nat
  total_partial_fills :: nat

definition new_engine :: "fill_assumptions \<Rightarrow> (u64 \<Rightarrow> 'g) \<Rightarrow> 'g exec_engine" where
  "new_engine fa seeded = \<lparr>assumptions = fa, rng = seeded (rng_seed fa), open_orders = [],
     total_submitted = 0, total_canceled = 0, total_filled = 0, total_partial_fills = 0\<rparr>"

definition submit_limit ::
  "u64 \<Rightarrow> symbol \<Rightarrow> side \<Rightarrow> price \<Rightarrow> int \<Rightarrow> int \<Rightarrow> 'g exec_engine \<Rightarrow> exec_report \<times> 'g exec_engine"
where
  "submit_limit i sy s p qty now e =
     (let order = \<lparr>o_id = i, o_symbol = sy, o_side = s, o_type = Limit, o_tif = GTC,
            o_price = p, o_quantity = qty, o_filled = 0, o_status = New,
            o_created_time = now, o_last_update_time = now\<rparr>;
          report = \<lparr>rep_order_id = i, rep_symbol = sy, rep_side = s, rep_status = New,
            rep_fill_price = p, rep_fill_quantity = 0, rep_remaining = qty,
            rep_timestamp = now, rep_latency = simulated_ack_latency (assumptions e),
            rep_reason = []\<rparr>
      in (report, e\<lparr>total_submitted := total_submitted e + 1,
                    open_orders := AList.update i order (open_orders e)\<rparr>))"

text \<open>The sweep loop of \<open>submit_market\<close>: remaining, filled and notional are its variables.\<close>

fun sweep :: "int \<Rightarrow> int \<Rightarrow> double \<Rightarrow> book_level list \<Rightarrow> int \<times> double" where
  "sweep remaining filled notional [] = (filled, notional)"
| "sweep remaining filled notional (level # levels) =
     (if remaining \<le> 0 then (filled, notional)
      else let taken = min remaining (lvl_quantity level)
           in sweep (remaining - taken) (filled + taken)
                (dadd notional (dmul (d_of_int taken) (to_double (lvl_price level)))) levels)"

definition submit_market ::
  "u64 \<Rightarrow> symbol \<Rightarrow> side \<Rightarrow> int \<Rightarrow> order_book \<Rightarrow> int \<Rightarrow> 'g exec_engine
     \<Rightarrow> exec_report \<times> 'g exec_engine"
where
  "submit_market i sy s qty book now e =
     (let levels_needed = 64;
          opposite_depth = (if s = Buy then ask_depth levels_needed book
                            else bid_depth levels_needed book);
          (filled, notional) = sweep qty 0 (Fin 0) opposite_depth;
          status = (if filled = qty then Filled
                    else if filled > 0 then PartiallyFilled else Rejected);
          report = \<lparr>rep_order_id = i, rep_symbol = sy, rep_side = s, rep_status = status,
            rep_fill_price = (if filled > 0 then from_double (ddiv notional (d_of_int filled))
                              else Price 0),
            rep_fill_quantity = filled, rep_remaining = 0, rep_timestamp = now,
            rep_latency = simulated_ack_latency (assumptions e),
            rep_reason = (if filled = 0 then ''no opposite-side liquidity available'' else [])\<rparr>
      in (report, e\<lparr>total_submitted := total_submitted e + 1,
            total_filled := (if filled > 0 then total_filled e + 1 else total_filled e),
            total_partial_fills := (if filled > 0 \<and> filled < qty then total_partial_fills e + 1
                                    else total_partial_fills e)\<rparr>))"

definition cancel :: "u64 \<Rightarrow> int \<Rightarrow> 'g exec_engine \<Rightarrow> exec_report option \<times> 'g exec_engine" where
  "cancel i now e =
     (case map_of (open_orders e) i of
        None \<Rightarrow> (None, e)
      | Some o' \<Rightarrow>
          (Some \<lparr>rep_order_id = i, rep_symbol = o_symbol o', rep_side = o_side o',
             rep_status = Canceled, rep_fill_price = Price 0, rep_fill_quantity = 0,
             rep_remaining = remaining_quantity o', rep_timestamp = now,
             rep_latency = simulated_ack_latency (assumptions e), rep_reason = []\<rparr>,
           e\<lparr>open_orders := AList.delete i (open_orders e),
             total_canceled := total_canceled e + 1\<rparr>))"

definition make_fill_report ::
  "order \<Rightarrow> price \<Rightarrow> int \<Rightarrow> int \<Rightarrow> 'g exec_engine \<Rightarrow> exec_report \<times> order \<times> 'g exec_engine"
where
  "make_fill_report order0 fill_price fill_qty now e =
     (let o1 = order0\<lparr>o_filled := o_filled order0 + fill_qty, o_last_update_time := now\<rparr>;
          o2 = o1\<lparr>o_status := (if remaining_quantity o1 = 0 then Filled else PartiallyFilled)\<rparr>;
          report = \<lparr>rep_order_id = o_id o2, rep_symbol = o_symbol o2, rep_side = o_side o2,
            rep_status = o_status o2, rep_fill_price = fill_price, rep_fill_quantity = fill_qty,
            rep_remaining = remaining_quantity o2, rep_timestamp = now,
            rep_latency = simulated_ack_latency (assumptions e), rep_reason = []\<rparr>
      in (report, o2, e\<lparr>total_filled := total_filled e + 1,
            total_partial_fills := (if o_status o2 = PartiallyFilled
                                    then total_partial_fills e + 1 else total_partial_fills e)\<rparr>))"

definition crosses :: "order \<Rightarrow> market_event \<Rightarrow> bool" where
  "crosses o' ev = (if o_side o' = Buy then ev_price ev \<le> o_price o' else ev_price ev \<ge> o_price o')"

type_synonym 'g draw_fn = "double \<Rightarrow> double \<Rightarrow> 'g \<Rightarrow> double \<times> 'g"

text \<open>The two draws and the caps that decide how much of a crossed order is filled.\<close>

definition fill_size ::
  "'g draw_fn \<Rightarrow> fill_assumptions \<Rightarrow> int \<Rightarrow> int \<Rightarrow> 'g \<Rightarrow> int \<times> 'g"
where
  "fill_size draw fa remaining traded g =
     (let (u, g1) = draw (Fin 0) (Fin 1) g;
          partial = dlt u (partial_fill_probability fa);
          (fill_qty, g2) =
            (if partial \<and> remaining > 1
             then let (r, g') = draw (min_partial_fill_ratio fa) (max_partial_fill_ratio fa) g1
                  in (max 1 (d_to_int64 (dmul (d_of_int remaining) r)), g')
             else (remaining, g1))
      in (min (min fill_qty traded) remaining, g2))"

text \<open>The body of the loop over the open orders.\<close>

definition fill_one ::
  "'g draw_fn \<Rightarrow> market_event \<Rightarrow> u64 \<Rightarrow> exec_report list \<times> u64 list \<times> 'g exec_engine
     \<Rightarrow> exec_report list \<times> u64 list \<times> 'g exec_engine"
where
  "fill_one draw ev i st =
     (case st of (reports, to_remove, e) \<Rightarrow>
      case map_of (open_orders e) i of
        None \<Rightarrow> (reports, to_remove, e)
      | Some o' \<Rightarrow>
          if o_symbol o' \<noteq> ev_symbol ev \<or> o_type o' \<noteq> Limit \<or> \<not> crosses o' ev
          then (reports, to_remove, e)
          else let (fill_qty, g) =
                     fill_size draw (assumptions e) (remaining_quantity o') (ev_quantity ev) (rng e);
                   e1 = e\<lparr>rng := g\<rparr>
               in if fill_qty \<le> 0 then (reports, to_remove, e1)
                  else let (rep, o2, e2) =
                             make_fill_report o' (o_price o') fill_qty (ev_timestamp ev) e1
                       in (reports @ [rep],
                           (if remaining_quantity o2 = 0 then to_remove @ [i] else to_remove),
                           e2\<lparr>open_orders := AList.update i o2 (open_orders e2)\<rparr>))"

definition on_market_event ::
  "'g draw_fn \<Rightarrow> (u64 list \<Rightarrow> u64 list) \<Rightarrow> market_event \<Rightarrow> 'g exec_engine
     \<Rightarrow> exec_report list \<times> 'g exec_engine"
where
  "on_market_event draw iter ev e =
     (if ev_type ev \<noteq> Trade then ([], e)
      else let (reports, to_remove, e') =
                 fold (fill_one draw ev) (iter (map fst (open_orders e))) ([], [], e)
           in (reports, e'\<lparr>open_orders := fold AList.delete to_remove (open_orders e')\<rparr>))"

definition open_order_count :: "'g exec_engine \<Rightarrow> nat" where
  "open_order_count e = length (open_orders e)"

definition get_order :: "u64 \<Rightarrow> 'g exec_engine \<Rightarrow> order option" where
  "get_order i e = map_of (open_orders e) i"

definition open_orders_list :: "(u64 list \<Rightarrow> u64 list) \<Rightarrow> 'g exec_engine \<Rightarrow> order list" where
  "open_orders_list iter e = map (\<lambda>i. the (map_of (open_orders e) i)) (iter (map fst (open_orders e)))"

section \<open>Specification vocabulary\<close>

definition valid_iter :: "(u64 list \<Rightarrow> u64 list) \<Rightarrow> bool" where
  "valid_iter iter \<longleftrightarrow> (\<forall>ks. distinct ks \<longrightarrow> distinct (iter ks) \<and> set (iter ks) = set ks)"

text \<open>An open order is a limit order that is neither empty nor completely filled.\<close>

definition order_ok :: "u64 \<Rightarrow> order \<Rightarrow> bool" where
  "order_ok i o' \<longleftrightarrow> o_id o' = i \<and> o_type o' = Limit \<and> 0 \<le> o_filled o' \<and> 0 < remaining_quantity o'
     \<and> o_status o' = (if o_filled o' = 0 then New else PartiallyFilled)"

definition engine_ok :: "'g exec_engine \<Rightarrow> bool" where
  "engine_ok e \<longleftrightarrow> distinct (map fst (open_orders e))
     \<and> (\<forall>i o'. map_of (open_orders e) i = Some o' \<longrightarrow> order_ok i o')"

text \<open>A report is a good fill of an order by a trade: same order, at its limit price, for a
  positive size within what was traded and what was left, with the status that the rest
  implies.\<close>

definition good_fill :: "market_event \<Rightarrow> order \<Rightarrow> exec_report \<Rightarrow> bool" where
  "good_fill ev o' r \<longleftrightarrow>
     rep_order_id r = o_id o' \<and> rep_side r = o_side o' \<and> o_symbol o' = ev_symbol ev
     \<and> crosses o' ev \<and> rep_fill_price r = o_price o'
     \<and> 0 < rep_fill_quantity r \<and> rep_fill_quantity r \<le> ev_quantity ev
     \<and> rep_fill_quantity r \<le> remaining_quantity o'
     \<and> rep_remaining r = remaining_quantity o' - rep_fill_quantity r
     \<and> rep_status r = (if rep_remaining r = 0 then Filled else PartiallyFilled)"

definition filled_order :: "market_event \<Rightarrow> order \<Rightarrow> exec_report \<Rightarrow> order" where
  "filled_order ev o' r = o'\<lparr>o_filled := o_filled o' + rep_fill_quantity r,
     o_last_update_time := ev_timestamp ev, o_status := rep_status r\<rparr>"

section \<open>The engine invariant\<close>

lemma engine_ok_new [simp]: "engine_ok (new_engine fa sd)"
  by (simp add: engine_ok_def new_engine_def)

lemma map_of_AList [simp]:
  "map_of (AList.update k v al) = (map_of al)(k \<mapsto> v)"
  "map_of (AList.delete k al) = (map_of al)(k := None)"
  by (simp_all add: update_conv' delete_conv')

lemma engine_ok_submit_limit [preserved]:
  assumes "engine_ok e" "0 < qty"
  shows "engine_ok (snd (submit_limit i sy s p qty now e))"
  using assms
  by (auto simp: engine_ok_def submit_limit_def Let_def distinct_update order_ok_def
      remaining_quantity_def)

lemma engine_ok_cancel [preserved]:
  assumes "engine_ok e"
  shows "engine_ok (snd (cancel i now e))"
  using assms
  by (simp add: engine_ok_def cancel_def distinct_delete del: map_of_eq_Some_iff split: option.split)

lemma fill_size_le:
  assumes "fill_size draw fa remaining traded g = (q, g')"
  shows "q \<le> remaining" and "q \<le> traded"
  using assms by (auto simp: fill_size_def Let_def split: prod.splits if_splits)

lemma fill_size_pos:
  assumes "fill_size draw fa remaining traded g = (q, g')" "0 < remaining" "0 < traded"
  shows "0 < q"
  using assms by (auto simp: fill_size_def Let_def split: prod.splits if_splits)

section \<open>The loop over the open orders\<close>

definition fill_inv ::
  "market_event \<Rightarrow> 'g exec_engine \<Rightarrow> exec_report list \<times> u64 list \<times> 'g exec_engine \<Rightarrow> bool"
where
  "fill_inv ev e0 st \<longleftrightarrow> (case st of (rs, rm, e) \<Rightarrow>
     map fst (open_orders e) = map fst (open_orders e0)
     \<and> rm = map rep_order_id (filter (\<lambda>r. rep_remaining r = 0) rs)
     \<and> distinct (map rep_order_id rs)
     \<and> (\<forall>i. i \<notin> rep_order_id ` set rs \<longrightarrow> map_of (open_orders e) i = map_of (open_orders e0) i)
     \<and> (\<forall>r \<in> set rs. \<exists>o'. map_of (open_orders e0) (rep_order_id r) = Some o' \<and> good_fill ev o' r
          \<and> map_of (open_orders e) (rep_order_id r) = Some (filled_order ev o' r))
     \<and> total_filled e = total_filled e0 + length rs
     \<and> total_partial_fills e =
         total_partial_fills e0 + length (filter (\<lambda>r. rep_status r = PartiallyFilled) rs)
     \<and> total_submitted e = total_submitted e0 \<and> total_canceled e = total_canceled e0
     \<and> assumptions e = assumptions e0)"

lemma fill_one_cases:
  obtains
    (skip) g where "fill_one draw ev i (rs, rm, e) = (rs, rm, e\<lparr>rng := g\<rparr>)"
  | (fill) o' r g where "map_of (open_orders e) i = Some o'" "0 < rep_fill_quantity r"
      "o_symbol o' = ev_symbol ev" "crosses o' ev"
      "rep_fill_quantity r \<le> ev_quantity ev" "rep_fill_quantity r \<le> remaining_quantity o'"
      "rep_order_id r = o_id o'" "rep_side r = o_side o'" "rep_fill_price r = o_price o'"
      "rep_remaining r = remaining_quantity o' - rep_fill_quantity r"
      "rep_status r = (if rep_remaining r = 0 then Filled else PartiallyFilled)"
      "fill_one draw ev i (rs, rm, e) =
         (rs @ [r], rm @ (if rep_remaining r = 0 then [i] else []),
          e\<lparr>rng := g, total_filled := total_filled e + 1,
            total_partial_fills := total_partial_fills e +
              (if rep_status r = PartiallyFilled then 1 else 0),
            open_orders := AList.update i (filled_order ev o' r) (open_orders e)\<rparr>)"
proof (cases "map_of (open_orders e) i")
  case None
  then have "fill_one draw ev i (rs, rm, e) = (rs, rm, e\<lparr>rng := rng e\<rparr>)"
    by (simp add: fill_one_def)
  then show thesis by (rule skip)
next
  case (Some o')
  show thesis
  proof (cases "o_symbol o' \<noteq> ev_symbol ev \<or> o_type o' \<noteq> Limit \<or> \<not> crosses o' ev")
    case True
    with Some have "fill_one draw ev i (rs, rm, e) = (rs, rm, e\<lparr>rng := rng e\<rparr>)"
      by (simp add: fill_one_def)
    then show thesis by (rule skip)
  next
    case False
    obtain q g where q: "fill_size draw (assumptions e) (remaining_quantity o') (ev_quantity ev) (rng e)
        = (q, g)" by fastforce
    show thesis
    proof (cases "q \<le> 0")
      case True
      with Some False q have "fill_one draw ev i (rs, rm, e) = (rs, rm, e\<lparr>rng := g\<rparr>)"
        by (simp add: fill_one_def)
      then show thesis by (rule skip)
    next
      case pos: False
      define r where "r = fst (make_fill_report o' (o_price o') q (ev_timestamp ev) (e\<lparr>rng := g\<rparr>))"
      have r: "rep_order_id r = o_id o'" "rep_side r = o_side o'" "rep_fill_price r = o_price o'"
        "rep_fill_quantity r = q" "rep_remaining r = remaining_quantity o' - q"
        "rep_status r = (if rep_remaining r = 0 then Filled else PartiallyFilled)"
        by (simp_all add: r_def make_fill_report_def Let_def remaining_quantity_def)
      have "fill_one draw ev i (rs, rm, e) =
         (rs @ [r], rm @ (if rep_remaining r = 0 then [i] else []),
          e\<lparr>rng := g, total_filled := total_filled e + 1,
            total_partial_fills := total_partial_fills e +
              (if rep_status r = PartiallyFilled then 1 else 0),
            open_orders := AList.update i (filled_order ev o' r) (open_orders e)\<rparr>)"
        using Some False q pos
        by (simp add: fill_one_def r_def make_fill_report_def Let_def remaining_quantity_def
            filled_order_def)
      with Some False pos r fill_size_le [OF q] show thesis by (intro fill [of o' r g]) auto
    qed
  qed
qed

lemma fill_one_inv:
  assumes "engine_ok e0" "fill_inv ev e0 (rs, rm, e)" "i \<notin> rep_order_id ` set rs"
  shows "fill_inv ev e0 (fill_one draw ev i (rs, rm, e))"
    and "rep_order_id ` set (fst (fill_one draw ev i (rs, rm, e))) \<subseteq> insert i (rep_order_id ` set rs)"
proof -
  have ids: "map_of (open_orders e0) i = Some o' \<Longrightarrow> o_id o' = i" for o'
    using assms(1) by (auto simp: engine_ok_def order_ok_def)
  have i: "map_of (open_orders e) i = map_of (open_orders e0) i"
    using assms(2,3) by (simp add: fill_inv_def)
  show "fill_inv ev e0 (fill_one draw ev i (rs, rm, e))"
  proof (cases rule: fill_one_cases [of draw ev i rs rm e])
    case (skip g)
    then show ?thesis using assms(2) by (simp add: fill_inv_def)
  next
    case (fill o' r g)
    have oi: "o_id o' = i" and o0: "map_of (open_orders e0) i = Some o'"
      using ids i fill(1) by auto
    have "i \<in> fst ` set (open_orders e)"
      using fill(1) by (metis domI dom_map_of_conv_image_fst)
    then have keys: "map fst (AList.update i v (open_orders e)) = map fst (open_orders e)" for v
      by (simp add: update_keys)
    have "good_fill ev o' r" using fill oi by (simp add: good_fill_def)
    then show ?thesis
      unfolding fill(12) using assms(2,3) fill(7) oi o0 keys
      by (auto simp: fill_inv_def image_iff)
  qed
  show "rep_order_id ` set (fst (fill_one draw ev i (rs, rm, e))) \<subseteq> insert i (rep_order_id ` set rs)"
    using ids i by (cases rule: fill_one_cases [of draw ev i rs rm e]) auto
qed

lemma fold_fill_one_inv:
  assumes "engine_ok e0" "fill_inv ev e0 st" "distinct is"
    "set is \<inter> rep_order_id ` set (fst st) = {}"
  shows "fill_inv ev e0 (fold (fill_one draw ev) is st)"
  using assms(2-)
proof (induction "is" arbitrary: st)
  case (Cons i "is")
  obtain rs rm e where st: "st = (rs, rm, e)" by (cases st) auto
  note step = fill_one_inv [OF assms(1), of ev rs rm e i draw]
  show ?case
    using Cons.prems step unfolding st by (simp, intro Cons.IH) auto
qed simp

lemma on_market_event_fold:
  assumes "engine_ok e" "valid_iter iter" "ev_type ev = Trade"
    "on_market_event draw iter ev e = (rs, e')"
  obtains rm e1 where "fill_inv ev e (rs, rm, e1)"
    "e' = e1\<lparr>open_orders := fold AList.delete rm (open_orders e1)\<rparr>"
proof -
  let ?f = "fold (fill_one draw ev) (iter (map fst (open_orders e))) ([], [], e)"
  have "fill_inv ev e ?f"
    using assms(1,2) by (intro fold_fill_one_inv) (auto simp: fill_inv_def valid_iter_def engine_ok_def)
  then show thesis
    using that assms(3,4) by (cases ?f) (auto simp: on_market_event_def)
qed

lemma map_of_fold_delete:
  "map_of (fold AList.delete rm al) i = (if i \<in> set rm then None else map_of al i)"
  by (induction rm arbitrary: al) auto

lemma distinct_fold_delete:
  "distinct (map fst al) \<Longrightarrow> distinct (map fst (fold AList.delete rm al))"
  by (induction rm arbitrary: al) (simp_all add: distinct_delete)

lemma order_ok_filled:
  "order_ok i o' \<Longrightarrow> good_fill ev o' r \<Longrightarrow> rep_remaining r \<noteq> 0 \<Longrightarrow> order_ok i (filled_order ev o' r)"
  by (auto simp: order_ok_def good_fill_def filled_order_def remaining_quantity_def)

text \<open>What a trade does to the engine, in one statement: the facts the pipeline relies on.\<close>

lemma fill_inv_backed:
  "fill_inv ev e0 (rs, rm, e) \<Longrightarrow>
     \<forall>r \<in> set rs. \<exists>o'. map_of (open_orders e0) (rep_order_id r) = Some o' \<and> good_fill ev o' r
       \<and> map_of (open_orders e) (rep_order_id r) = Some (filled_order ev o' r)"
  unfolding fill_inv_def case_prod_conv by (elim conjE)

lemma on_market_event_effect:
  assumes "engine_ok e" "valid_iter iter" "on_market_event draw iter ev e = (rs, e')"
  shows "distinct (map rep_order_id rs)"
    and "\<And>i. i \<notin> rep_order_id ` set rs \<Longrightarrow> map_of (open_orders e') i = map_of (open_orders e) i"
    and "\<And>r. r \<in> set rs \<Longrightarrow> \<exists>o'. map_of (open_orders e) (rep_order_id r) = Some o'
           \<and> good_fill ev o' r \<and> map_of (open_orders e') (rep_order_id r) =
             (if rep_remaining r = 0 then None else Some (filled_order ev o' r))"
    and "engine_ok e'"
    and "total_filled e' = total_filled e + length rs"
    and "total_partial_fills e' =
           total_partial_fills e + length (filter (\<lambda>r. rep_status r = PartiallyFilled) rs)"
    and "total_submitted e' = total_submitted e" "total_canceled e' = total_canceled e"
      "assumptions e' = assumptions e"
proof -
  have "\<exists>rm e1. fill_inv ev e (rs, rm, e1)
      \<and> e' = e1\<lparr>open_orders := fold AList.delete rm (open_orders e1)\<rparr>"
  proof (cases "ev_type ev = Trade")
    case True
    then show ?thesis using on_market_event_fold assms by metis
  next
    case False
    then have "rs = []" "e' = e" using assms(3) by (simp_all add: on_market_event_def)
    then show ?thesis
      by (intro exI [of _ "[]"] exI [of _ e]) (simp add: fill_inv_def)
  qed
  then obtain rm e1 where inv: "fill_inv ev e (rs, rm, e1)"
    and e': "e' = e1\<lparr>open_orders := fold AList.delete rm (open_orders e1)\<rparr>" by blast
  have rm: "i \<in> set rm \<longleftrightarrow> (\<exists>r \<in> set rs. rep_remaining r = 0 \<and> rep_order_id r = i)" for i
    using inv by (auto simp: fill_inv_def)
  have inj: "r \<in> set rs \<Longrightarrow> r' \<in> set rs \<Longrightarrow> rep_order_id r = rep_order_id r' \<Longrightarrow> r = r'" for r r'
    using inv by (auto simp: fill_inv_def distinct_map dest: inj_onD)
  show "distinct (map rep_order_id rs)" using inv by (simp add: fill_inv_def)
  show frame: "map_of (open_orders e') i = map_of (open_orders e) i"
    if "i \<notin> rep_order_id ` set rs" for i
    using that inv rm [of i] by (auto simp: fill_inv_def e' map_of_fold_delete)
  show hit: "\<exists>o'. map_of (open_orders e) (rep_order_id r) = Some o'
      \<and> good_fill ev o' r \<and> map_of (open_orders e') (rep_order_id r) =
        (if rep_remaining r = 0 then None else Some (filled_order ev o' r))"
    if r: "r \<in> set rs" for r
  proof -
    obtain o' where o': "map_of (open_orders e) (rep_order_id r) = Some o'" "good_fill ev o' r"
      "map_of (open_orders e1) (rep_order_id r) = Some (filled_order ev o' r)"
      using bspec [OF fill_inv_backed [OF inv] r] by blast
    have "rep_order_id r \<in> set rm \<longleftrightarrow> rep_remaining r = 0"
      unfolding rm using r inj [OF _ r] by blast
    then show ?thesis using o' by (intro exI [of _ o']) (simp add: e' map_of_fold_delete)
  qed
  have "order_ok i o'" if "map_of (open_orders e') i = Some o'" for i o'
  proof (cases "i \<in> rep_order_id ` set rs")
    case True
    then obtain r where r: "r \<in> set rs" "rep_order_id r = i" by blast
    with hit that assms(1) show ?thesis
      unfolding engine_ok_def by (metis order_ok_filled option.distinct(1) option.inject)
  next
    case False
    then show ?thesis using frame that assms(1) unfolding engine_ok_def by metis
  qed
  moreover have "distinct (map fst (open_orders e'))"
    using inv assms(1) by (simp add: fill_inv_def engine_ok_def e' distinct_fold_delete)
  ultimately show "engine_ok e'" by (simp add: engine_ok_def del: map_of_eq_Some_iff)
  show "total_filled e' = total_filled e + length rs"
    "total_partial_fills e' =
       total_partial_fills e + length (filter (\<lambda>r. rep_status r = PartiallyFilled) rs)"
    "total_submitted e' = total_submitted e" "total_canceled e' = total_canceled e"
    "assumptions e' = assumptions e"
    using inv by (simp_all add: fill_inv_def e')
qed

lemma engine_ok_on_market_event [preserved]:
  "engine_ok e \<Longrightarrow> valid_iter iter \<Longrightarrow> engine_ok (snd (on_market_event draw iter ev e))"
  using on_market_event_effect(4) by (metis prod.collapse)

text \<open>
  C9: every fill the engine reports for a market event is backed by an order that was open
  before it: the event trades through the order's limit, the fill is at that limit price,
  positive, and no larger than the printed trade or the order's open quantity; no order is
  reported twice; the order stays open with exactly the unfilled rest, or is closed when
  nothing is left.  This holds for every random sequence and every iteration order of the
  hash map.
\<close>

theorem fills_are_backed:
  assumes "engine_ok e" "valid_iter iter" "on_market_event draw iter ev e = (rs, e')"
  shows "distinct (map rep_order_id rs) \<and> (\<forall>r \<in> set rs. \<exists>o'. get_order (rep_order_id r) e = Some o'
    \<and> good_fill ev o' r \<and> get_order (rep_order_id r) e' =
      (if rep_remaining r = 0 then None else Some (filled_order ev o' r)))"
  unfolding get_order_def
  using on_market_event_effect(1) [OF assms] on_market_event_effect(3) [OF assms] by blast

definition demo_engine :: "unit exec_engine" where
  "demo_engine = snd (submit_limit 1 ''AAPL'' Buy (Price 1000000) 20 1
     (new_engine (default_fill_assumptions\<lparr>partial_fill_probability := Fin 0\<rparr>) (\<lambda>_. ())))"

definition demo_trade :: market_event where
  "demo_trade = make_trade 2 7 ''AAPL'' Sell (Price 999900) 5"

lemma demo_engine_ok: "engine_ok demo_engine"
  unfolding demo_engine_def by (intro engine_ok_submit_limit) simp_all

lemma valid_iter_id [simp]: "valid_iter (\<lambda>ks. ks)"
  by (simp add: valid_iter_def)

theorem fills_are_backed_witness:
  "\<exists>r e'. on_market_event (\<lambda>lo hi g. (lo, g)) (\<lambda>ks. ks) demo_trade demo_engine = ([r], e')
     \<and> rep_fill_quantity r = 5
     \<and> (\<exists>o'. get_order (rep_order_id r) demo_engine = Some o' \<and> good_fill demo_trade o' r)"
proof -
  obtain rs e' where ev: "on_market_event (\<lambda>lo hi g. (lo, g)) (\<lambda>ks. ks) demo_trade demo_engine = (rs, e')"
    by fastforce
  then have "map rep_fill_quantity rs = [5]"
    by (auto simp: demo_engine_def demo_trade_def on_market_event_def fill_one_def make_event_defs
        submit_limit_def new_engine_def crosses_def fill_size_def make_fill_report_def Let_def
        remaining_quantity_def less_eq_price_def)
  then obtain r where "rs = [r]" "rep_fill_quantity r = 5" by (cases rs) auto
  then show ?thesis
    using fills_are_backed [OF demo_engine_ok valid_iter_id ev] ev by auto
qed

section \<open>Market orders\<close>

lemma sweep_filled:
  assumes "\<forall>l \<in> set ls. 0 \<le> lvl_quantity l" "0 \<le> remaining"
  shows "fst (sweep remaining filled notional ls) =
    filled + min remaining (sum_list (map lvl_quantity ls))"
  using assms
proof (induction ls arbitrary: remaining filled notional)
  case (Cons l ls)
  have "0 \<le> sum_list (map lvl_quantity ls)"
    using Cons.prems(1) by (intro sum_list_nonneg) auto
  then show ?case using Cons by (auto simp: Let_def min_def)
qed simp

text \<open>
  C30: a market order of non-negative size against a book with non-negative level sizes is
  filled for exactly the smaller of its size and the depth of the best 64 opposite levels,
  never rests, and is reported Filled, PartiallyFilled or Rejected accordingly.
\<close>

theorem market_order_fill:
  fixes s :: side and b :: order_book and qty :: int and e :: "'g exec_engine"
  assumes "0 \<le> qty" "\<forall>l \<in> set (bids b) \<union> set (asks b). 0 \<le> lvl_quantity l"
  defines "depth \<equiv> sum_list (map lvl_quantity (take 64 (if s = Buy then asks b else bids b)))"
  shows "\<exists>r e'. submit_market i sy s qty b now e = (r, e') \<and> rep_fill_quantity r = min qty depth
    \<and> rep_remaining r = 0 \<and> open_orders e' = open_orders e
    \<and> rep_status r = (if qty \<le> depth then Filled else if 0 < depth then PartiallyFilled
                      else Rejected)"
proof -
  let ?ls = "if s = Buy then ask_depth 64 b else bid_depth 64 b"
  have ls: "?ls = take 64 (if s = Buy then asks b else bids b)"
    by (simp add: ask_depth_def bid_depth_def min_def)
  obtain f n where sw: "sweep qty 0 (Fin 0) ?ls = (f, n)" by fastforce
  have "\<forall>l \<in> set ?ls. 0 \<le> lvl_quantity l"
    using assms(2) unfolding ls by (auto dest: in_set_takeD)
  from sweep_filled [OF this assms(1), of 0 "Fin 0"] have f: "f = min qty depth"
    using sw by (simp only: ls depth_def) simp
  show ?thesis
    using assms(1) by (auto simp: submit_market_def sw f min_def Let_def)
qed

theorem market_order_fill_witness:
  "\<exists>r e'. submit_market 1 ''AAPL'' Buy 250 demo_book 9 demo_engine = (r, e')
     \<and> rep_fill_quantity r = 100"
proof -
  have q: "map lvl_quantity (asks demo_book) = [100]" "map lvl_quantity (bids demo_book) = [40]"
    by code_simp+
  have nn: "\<forall>l \<in> set (bids demo_book) \<union> set (asks demo_book). 0 \<le> lvl_quantity l"
  proof
    fix l assume "l \<in> set (bids demo_book) \<union> set (asks demo_book)"
    then have "lvl_quantity l \<in> set (map lvl_quantity (bids demo_book) @ map lvl_quantity (asks demo_book))"
      by auto
    then show "0 \<le> lvl_quantity l" by (auto simp: q)
  qed
  have "sum_list (map lvl_quantity (take 64 (asks demo_book))) = 100"
    using q(1) by (simp add: take_map [symmetric])
  then show ?thesis
    using market_order_fill [OF _ nn, of 250 1 "''AAPL''" Buy 9 demo_engine] by auto
qed

end
