(* ===== verification/Portfolio.thy ===== *)
theory Portfolio
  imports Market_Types
begin

text \<open>
  Position and P\&L accounting of \<open>src/portfolio/portfolio.hpp\<close>.  The class computes the new
  position in doubles and casts it back, so the position is exact as long as it stays
  within \<open>2^53\<close>; \<open>on_fill_position\<close> proves that.
\<close>

record position_state =
  position :: int
  avg_entry_price :: double
  realized_pnl :: double
  unrealized_pnl :: double
  total_pnl :: double
  total_volume_traded :: int
  turnover :: double

definition flat_state :: position_state where
  "flat_state = \<lparr>position = 0, avg_entry_price = Fin 0, realized_pnl = Fin 0,
     unrealized_pnl = Fin 0, total_pnl = Fin 0, total_volume_traded = 0, turnover = Fin 0\<rparr>"

record portfolio =
  pf_state :: position_state
  history :: "position_state list"

definition new_portfolio :: portfolio where
  "new_portfolio = \<lparr>pf_state = flat_state, history = []\<rparr>"

definition record_history :: "portfolio \<Rightarrow> portfolio" where
  "record_history p = p\<lparr>history := history p @ [pf_state p]\<rparr>"

definition extend_position :: "double \<Rightarrow> double \<Rightarrow> position_state \<Rightarrow> position_state" where
  "extend_position signed_fill price st =
     (let old_notional = dmul (d_of_int (position st)) (avg_entry_price st);
          new_position = dadd (d_of_int (position st)) signed_fill;
          new_notional = dadd old_notional (dmul signed_fill price)
      in st\<lparr>avg_entry_price := (if \<not> deq new_position (Fin 0) then ddiv new_notional new_position
                                else Fin 0),
            position := d_to_int64 new_position\<rparr>)"

definition reduce_position :: "double \<Rightarrow> double \<Rightarrow> position_state \<Rightarrow> position_state" where
  "reduce_position signed_fill price st =
     (let closing_qty = dmin (dabs signed_fill) (dabs (d_of_int (position st)));
          position_sign = (if position st > 0 then 1 else - 1 :: int);
          st1 = st\<lparr>realized_pnl := dadd (realized_pnl st)
                    (dmul (dmul closing_qty (dsub price (avg_entry_price st)))
                       (d_of_int position_sign))\<rparr>;
          new_position = dadd (d_of_int (position st)) signed_fill;
          st2 = st1\<lparr>position := d_to_int64 new_position\<rparr>
      in if (position st2 > 0) \<noteq> (position_sign > 0) \<and> position st2 \<noteq> 0
         then st2\<lparr>avg_entry_price := price\<rparr>
         else if position st2 = 0 then st2\<lparr>avg_entry_price := Fin 0\<rparr>
         else st2)"

definition on_fill :: "side \<Rightarrow> price \<Rightarrow> int \<Rightarrow> portfolio \<Rightarrow> portfolio" where
  "on_fill s fill_price fill_qty p =
     (let price = to_double fill_price;
          qty = d_of_int fill_qty;
          signed_fill = (if s = Buy then qty else dneg qty);
          st = (pf_state p)\<lparr>
            total_volume_traded := total_volume_traded (pf_state p) + fill_qty,
            turnover := dadd (turnover (pf_state p)) (dmul qty price)\<rparr>
      in record_history (p\<lparr>pf_state :=
           (if position st = 0 \<or> (position st > 0) = dlt (Fin 0) signed_fill
            then extend_position signed_fill price st
            else reduce_position signed_fill price st)\<rparr>))"

definition mark_to_market :: "double \<Rightarrow> portfolio \<Rightarrow> portfolio" where
  "mark_to_market mark_price p =
     (let st = pf_state p;
          u = dmul (d_of_int (position st)) (dsub mark_price (avg_entry_price st))
      in p\<lparr>pf_state := st\<lparr>unrealized_pnl := u, total_pnl := dadd (realized_pnl st) u\<rparr>\<rparr>)"

section \<open>The position is an exact integer\<close>

definition signed_qty :: "side \<Rightarrow> int \<Rightarrow> int" where
  "signed_qty s q = (if s = Buy then q else - q)"

lemma d_of_int_minus: "d_of_int (- i) = dneg (d_of_int i)"
  by (auto simp: d_of_int_def rnd_eq rnd_rat_minus Let_def)

lemma signed_fill_exact:
  "\<bar>q\<bar> \<le> 2 ^ 53 \<Longrightarrow>
     (if s = Buy then d_of_int q else dneg (d_of_int q)) = Fin (of_int (signed_qty s q))"
  by (simp add: signed_qty_def d_of_int_exact)

lemma cast_sum_exact:
  assumes "\<bar>a + b\<bar> \<le> 2 ^ 53"
  shows "d_to_int64 (rnd (of_int a + of_int b)) = a + b"
proof -
  have "rnd (of_int (a + b)) = Fin (of_int (a + b))"
    using d_of_int_exact [OF assms] by (simp add: d_of_int_def)
  moreover have "int64_ok (a + b)" using assms by (auto simp: int64_ok_def)
  ultimately show ?thesis by (metis d_to_int64_exact of_int_add)
qed

lemma extend_reduce_position:
  assumes "\<bar>position st\<bar> \<le> 2 ^ 53" "\<bar>position st + f\<bar> \<le> 2 ^ 53"
  shows "position (extend_position (Fin (of_int f)) px st) = position st + f"
    and "position (reduce_position (Fin (of_int f)) px st) = position st + f"
  using cast_sum_exact [OF assms(2)] assms(1)
  by (simp_all add: extend_position_def reduce_position_def Let_def d_of_int_exact)

lemma on_fill_position:
  assumes "\<bar>position (pf_state p)\<bar> \<le> 2 ^ 53" "\<bar>q\<bar> \<le> 2 ^ 53"
    "\<bar>position (pf_state p) + signed_qty s q\<bar> \<le> 2 ^ 53"
  shows "position (pf_state (on_fill s px q p)) = position (pf_state p) + signed_qty s q"
  unfolding on_fill_def Let_def record_history_def signed_fill_exact [OF assms(2)]
  using assms(1,3) by (simp add: extend_reduce_position)

lemma mark_to_market_position [keeps]:
  "position (pf_state (mark_to_market m p)) = position (pf_state p)"
  by (simp add: mark_to_market_def Let_def)

type_synonym fill = "side \<times> price \<times> int"

definition apply_fill :: "fill \<Rightarrow> portfolio \<Rightarrow> portfolio" where
  "apply_fill f p = (case f of (s, px, q) \<Rightarrow> on_fill s px q p)"

fun net_qty :: "fill list \<Rightarrow> int" where
  "net_qty [] = 0"
| "net_qty ((s, px, q) # fs) = signed_qty s q + net_qty fs"

fun total_qty :: "fill list \<Rightarrow> int" where
  "total_qty [] = 0"
| "total_qty ((s, px, q) # fs) = q + total_qty fs"

lemma total_qty_nonneg: "\<forall>f \<in> set fs. 0 \<le> snd (snd f) \<Longrightarrow> 0 \<le> total_qty fs"
  by (induction fs rule: total_qty.induct) auto

lemma on_fill_frame:
  "total_volume_traded (pf_state (on_fill s px q p)) = total_volume_traded (pf_state p) + q"
  "length (history (on_fill s px q p)) = Suc (length (history p))"
  by (simp_all add: on_fill_def Let_def record_history_def extend_position_def reduce_position_def)

lemma fold_fills:
  assumes "\<forall>f \<in> set fs. 0 \<le> snd (snd f)"
    and "\<bar>position (pf_state p)\<bar> + total_qty fs \<le> 2 ^ 53"
  shows "position (pf_state (fold apply_fill fs p)) = position (pf_state p) + net_qty fs
    \<and> total_volume_traded (pf_state (fold apply_fill fs p)) =
        total_volume_traded (pf_state p) + total_qty fs
    \<and> length (history (fold apply_fill fs p)) = length (history p) + length fs"
  using assms
proof (induction fs arbitrary: p rule: total_qty.induct)
  case (2 s px q fs)
  let ?p = "on_fill s px q p"
  have q: "0 \<le> q" "0 \<le> total_qty fs" using "2.prems"(1) by (auto intro: total_qty_nonneg)
  have sq: "\<bar>signed_qty s q\<bar> = q" using q by (simp add: signed_qty_def)
  have pos: "position (pf_state ?p) = position (pf_state p) + signed_qty s q"
    using "2.prems"(2) q sq by (intro on_fill_position) auto
  then have "\<bar>position (pf_state ?p)\<bar> + total_qty fs \<le> 2 ^ 53"
    using "2.prems"(2) sq by simp
  then show ?case
    using "2.IH" [of ?p] "2.prems"(1) pos by (simp add: apply_fill_def on_fill_frame)
qed simp

text \<open>
  After any sequence of fills with non-negative sizes that add up to at most \<open>2^53\<close>, the
  position is exactly the buys minus the sells, the traded volume is the sum of the fill
  sizes, and the history has one entry per fill, although the class computes the position
  in floating point.
\<close>

lemma portfolio_position_exact:
  assumes "\<forall>f \<in> set fs. 0 \<le> snd (snd f)" "total_qty fs \<le> 2 ^ 53"
  defines "p \<equiv> fold apply_fill fs new_portfolio"
  shows "position (pf_state p) = net_qty fs \<and> total_volume_traded (pf_state p) = total_qty fs
    \<and> length (history p) = length fs"
  using fold_fills [OF assms(1), of new_portfolio] assms(2)
  by (simp add: p_def new_portfolio_def flat_state_def)

lemma portfolio_position_exact_example:
  "position (pf_state (fold apply_fill
      [(Buy, Price 1000000, 10), (Sell, Price 1050000, 15)] new_portfolio)) = - 5"
  using portfolio_position_exact [of "[(Buy, Price 1000000, 10), (Sell, Price 1050000, 15)]"]
  by (simp add: signed_qty_def)

section \<open>The sign of realised profit\<close>

lemma rnd_scaled_sign:
  fixes x c g :: rat
  assumes "0 \<le> c" "c \<le> two_pow 53" "\<bar>x\<bar> \<le> two_pow 65" "g = 1 \<or> g = - 1" "0 \<le> g * x"
  shows "\<exists>e \<ge> 0. dmul (dmul (Fin c) (rnd x)) (Fin g) = Fin e \<and> e \<le> two_pow 118"
proof -
  have fin: "\<bar>z\<bar> \<le> two_pow 118 \<Longrightarrow> rnd z = Fin (rnd_rat z) \<and> \<bar>rnd_rat z\<bar> \<le> two_pow 118" for z
    by (rule conjI, rule rnd_Fin, erule order_trans, simp, erule rnd_rat_abs_le, simp)
  have d: "\<bar>rnd_rat x\<bar> \<le> two_pow 65" using assms(3) by (rule rnd_rat_abs_le) simp
  have "\<bar>c * rnd_rat x\<bar> \<le> two_pow 53 * two_pow 65"
    using assms(1,2) d by (simp only: abs_mult, intro mult_mono) auto
  then have cd: "\<bar>c * rnd_rat x\<bar> \<le> two_pow 118" by (simp flip: two_pow_add)
  define e where "e = rnd_rat (c * rnd_rat x)"
  have e: "rnd (c * rnd_rat x) = Fin e" "\<bar>e\<bar> \<le> two_pow 118" using fin [OF cd] by (simp_all add: e_def)
  have x: "rnd x = Fin (rnd_rat x)"
    using assms(3) by (intro rnd_Fin) (erule order_trans, simp)
  have "0 \<le> g * rnd_rat x"
    using assms(4,5) rnd_rat_nonneg rnd_rat_nonpos by auto
  then have "0 \<le> g * (c * rnd_rat x)"
    using assms(1) mult_nonneg_nonneg [of c "g * rnd_rat x"] by (simp add: ac_simps)
  then have "0 \<le> g * e"
    using assms(4) rnd_rat_nonneg rnd_rat_nonpos unfolding e_def by auto
  moreover have "rnd (e * g) = Fin (e * g)"
    using assms(4) is_fp_rnd_rat [of "c * rnd_rat x"] e(2)
      order_le_less_trans [OF e(2), of "two_pow 1024"]
    by (auto simp: e_def intro!: rnd_fp is_fp_minus)
  ultimately show ?thesis
    using e assms(4) by (intro exI [of _ "e * g"]) (auto simp: x mult.commute)
qed

lemma realized_on_fill_reduce:
  assumes "position (pf_state p) \<noteq> 0" "0 < q" "q \<le> 2 ^ 53"
    "(0 < position (pf_state p)) = (s \<noteq> Buy)"
  defines "st \<equiv> pf_state p"
  shows "realized_pnl (pf_state (on_fill s px q p)) = dadd (realized_pnl st)
    (dmul (dmul (dmin (Fin (of_int q)) (dabs (d_of_int (position st))))
       (dsub (to_double px) (avg_entry_price st)))
     (d_of_int (if 0 < position st then 1 else - 1)))"
proof -
  have f: "(if s = Buy then d_of_int q else dneg (d_of_int q)) = Fin (of_int (signed_qty s q))"
    using assms(2,3) by (intro signed_fill_exact) simp
  show ?thesis
    unfolding on_fill_def Let_def f record_history_def
    using assms(1,2,4) by (auto simp: st_def reduce_position_def Let_def signed_qty_def)
qed

text \<open>
  Closing (part of) a position at a price on the profitable side of the average entry
  price never lowers the realised P\&L, for long and for short positions alike, whatever the
  intermediate roundings do.
\<close>

lemma closing_profit_not_negative:
  assumes "position (pf_state p) \<noteq> 0" "\<bar>position (pf_state p)\<bar> \<le> 2 ^ 53" "0 < q" "q \<le> 2 ^ 53"
    and opposite: "(0 < position (pf_state p)) = (s \<noteq> Buy)"
    and avg: "avg_entry_price (pf_state p) = Fin a" "\<bar>a\<bar> \<le> two_pow 64"
    and px: "int64_ok (ticks px)" "to_double px = Fin x"
    and gain: "if 0 < position (pf_state p) then a \<le> x else x \<le> a"
    and r: "realized_pnl (pf_state p) = Fin r" "is_fp r" "\<bar>r\<bar> < two_pow 1024"
  shows "dle (realized_pnl (pf_state p)) (realized_pnl (pf_state (on_fill s px q p)))"
proof -
  let ?st = "pf_state p" and ?g = "if 0 < position (pf_state p) then 1 else - 1 :: rat"
  let ?c = "min (of_int q) (of_int \<bar>position ?st\<bar>) :: rat"
  have x: "\<bar>x\<bar> \<le> two_pow 64"
    using px by (metis double.inject to_double_fp)
  have c: "dmin (Fin (of_int q)) (dabs (d_of_int (position ?st))) = Fin ?c"
    using assms(2,3) by (auto simp: d_of_int_exact dmin_def min_def)
  have "of_int q \<le> (of_int (2 ^ 53) :: rat)" using assms(4) by (simp only: of_int_le_iff)
  then have cb: "0 \<le> ?c" "?c \<le> two_pow 53"
    using assms(3) by (auto simp: two_pow_def min_def)
  have "\<bar>x - a\<bar> \<le> two_pow 64 + two_pow 64" using x avg(2) by linarith
  then have xa: "\<bar>x - a\<bar> \<le> two_pow 65" by (simp add: two_pow_def)
  have gx: "0 \<le> ?g * (x - a)" using gain by (simp split: if_splits)
  have gs: "?g = 1 \<or> ?g = - 1" by simp
  obtain e where e: "0 \<le> e" "dmul (dmul (Fin ?c) (rnd (x - a))) (Fin ?g) = Fin e"
    using rnd_scaled_sign [OF cb xa gs gx] by blast
  have g: "d_of_int (if position ?st > 0 then 1 else - 1) = Fin ?g"
    by (simp add: d_of_int_exact)
  have "realized_pnl (pf_state (on_fill s px q p)) = rnd (r + e)"
    unfolding realized_on_fill_reduce [OF assms(1,3,4) opposite] c g avg(1) px(2) r(1) dsub_Fin e(2)
    by simp
  moreover have "dle (rnd r) (rnd (r + e))" using e(1) by (intro rnd_mono) simp
  moreover have "rnd r = Fin r" using r by (intro rnd_fp)
  ultimately show ?thesis by (simp add: r(1))
qed

definition demo_long :: portfolio where
  "demo_long = on_fill Buy (Price 1000000) 16 new_portfolio"

lemma closing_profit_not_negative_example:
  "dle (realized_pnl (pf_state demo_long))
       (realized_pnl (pf_state (on_fill Sell (Price 1050000) 4 demo_long)))"
proof -
  have st: "position (pf_state demo_long) = 16" "avg_entry_price (pf_state demo_long) = Fin 100"
    "realized_pnl (pf_state demo_long) = Fin 0" "to_double (Price 1050000) = Fin 105"
    by (simp_all add: demo_long_def on_fill_def Let_def record_history_def new_portfolio_def
        flat_state_def extend_position_def to_double_def fp_eval)
  show ?thesis
    by (rule closing_profit_not_negative [where a = 100 and x = 105 and r = 0])
       (simp_all add: st int64_ok_def two_pow_def)
qed

end
