(* ===== verification/Order_Venue.thy ===== *)
theory Order_Venue
  imports Execution Portfolio
begin

text \<open>
  The contract the pipeline relies on when it trades through the execution engine, as the
  locale \<open>order_venue\<close>: what submitting, cancelling and a market event do to the open quantity
  of a side and to the number of open orders.  Inside the locale it is proved once that a
  position that respects a limit together with everything still open keeps respecting it;
  the paper execution engine is an interpretation.
\<close>

section \<open>Open quantity and filled quantity\<close>

definition rem_on :: "side \<Rightarrow> order option \<Rightarrow> int" where
  "rem_on s x = (case x of None \<Rightarrow> 0 | Some o' \<Rightarrow> if o_side o' = s then remaining_quantity o' else 0)"

definition open_qty :: "'g exec_engine \<Rightarrow> side \<Rightarrow> int" where
  "open_qty e s = sum_list (map (\<lambda>(i, o'). rem_on s (Some o')) (open_orders e))"

definition filled_on :: "side \<Rightarrow> exec_report list \<Rightarrow> int" where
  "filled_on s rs = sum_list (map (\<lambda>r. if rep_side r = s then rep_fill_quantity r else 0) rs)"

definition net_fills :: "exec_report list \<Rightarrow> int" where
  "net_fills rs = sum_list (map (\<lambda>r. signed_qty (rep_side r) (rep_fill_quantity r)) rs)"

definition two_sided :: "exec_report list \<Rightarrow> bool" where
  "two_sided rs \<longleftrightarrow> (\<forall>r \<in> set rs. (rep_side r = Buy \<or> rep_side r = Sell) \<and> 0 < rep_fill_quantity r)"

lemma net_fills_sides:
  "two_sided rs \<Longrightarrow> net_fills rs = filled_on Buy rs - filled_on Sell rs"
  by (induction rs) (auto simp: net_fills_def filled_on_def signed_qty_def two_sided_def)

lemma filled_on_append: "filled_on s (xs @ ys) = filled_on s xs + filled_on s ys"
  by (simp add: filled_on_def)

lemma filled_on_nonneg: "two_sided rs \<Longrightarrow> 0 \<le> filled_on s rs"
  unfolding filled_on_def two_sided_def by (intro sum_list_nonneg) fastforce

section \<open>The contract\<close>

locale order_venue =
  fixes ok :: "'e \<Rightarrow> bool"
    and is_open :: "u64 \<Rightarrow> 'e \<Rightarrow> bool"
    and quantity :: "'e \<Rightarrow> side \<Rightarrow> int"
    and submit :: "u64 \<Rightarrow> symbol \<Rightarrow> side \<Rightarrow> price \<Rightarrow> int \<Rightarrow> int \<Rightarrow> 'e \<Rightarrow> exec_report \<times> 'e"
    and withdraw :: "u64 \<Rightarrow> int \<Rightarrow> 'e \<Rightarrow> exec_report option \<times> 'e"
    and trade :: "market_event \<Rightarrow> 'e \<Rightarrow> exec_report list \<times> 'e"
  assumes quantity_nonneg: "ok e \<Longrightarrow> 0 \<le> quantity e s"
    and ok_submit: "ok e \<Longrightarrow> 0 < q \<Longrightarrow> s = Buy \<or> s = Sell \<Longrightarrow> ok (snd (submit i sy s p q now e))"
    and quantity_submit: "ok e \<Longrightarrow> 0 < q \<Longrightarrow> \<not> is_open i e \<Longrightarrow>
      quantity (snd (submit i sy s p q now e)) s' = quantity e s' + (if s' = s then q else 0)"
    and ok_withdraw: "ok e \<Longrightarrow> ok (snd (withdraw i now e))"
    and quantity_withdraw: "ok e \<Longrightarrow> quantity (snd (withdraw i now e)) s \<le> quantity e s"
    and ok_trade: "ok e \<Longrightarrow> trade ev e = (rs, e') \<Longrightarrow> ok e'"
    and trade_two_sided: "ok e \<Longrightarrow> trade ev e = (rs, e') \<Longrightarrow> two_sided rs"
    and quantity_trade: "ok e \<Longrightarrow> trade ev e = (rs, e') \<Longrightarrow> quantity e' s + filled_on s rs = quantity e s"
begin

text \<open>The position stays within \<open>M\<close> even if everything open on one side is filled.\<close>

definition covered :: "int \<Rightarrow> int \<Rightarrow> 'e \<Rightarrow> bool" where
  "covered M pos e \<longleftrightarrow> pos + quantity e Buy \<le> M \<and> - M \<le> pos - quantity e Sell"

lemma covered_position: "ok e \<Longrightarrow> covered M pos e \<Longrightarrow> \<bar>pos\<bar> \<le> M"
  using quantity_nonneg [of e Buy] quantity_nonneg [of e Sell] by (auto simp: covered_def)

lemma covered_submit:
  assumes "ok e" "covered M pos e" "0 < q" "\<not> is_open i e" "quantity e s = 0"
    "\<bar>pos + signed_qty s q\<bar> \<le> M" "s = Buy \<or> s = Sell"
  shows "covered M pos (snd (submit i sy s p q now e))"
  using assms by (auto simp: covered_def quantity_submit signed_qty_def)

lemma covered_withdraw:
  "ok e \<Longrightarrow> covered M pos e \<Longrightarrow> covered M pos (snd (withdraw i now e))"
  using quantity_withdraw [of e i now Buy] quantity_withdraw [of e i now Sell]
  by (simp add: covered_def)

lemma covered_trade:
  assumes "ok e" "covered M pos e" "trade ev e = (rs, e')"
  shows "covered M (pos + net_fills rs) e'"
  using assms(2) trade_two_sided [OF assms(1,3)] quantity_trade [OF assms(1,3), of Buy]
    quantity_trade [OF assms(1,3), of Sell] filled_on_nonneg [of rs Buy]
    filled_on_nonneg [of rs Sell]
  by (simp add: covered_def net_fills_sides)

text \<open>The limit holds also half-way through the reports of one event.\<close>

lemma covered_trade_prefix:
  assumes "ok e" "covered M pos e" "trade ev e = (rs @ rs', e')"
  shows "\<bar>pos + net_fills rs\<bar> \<le> M"
proof -
  have ts: "two_sided rs" "two_sided rs'"
    using trade_two_sided [OF assms(1,3)] by (auto simp: two_sided_def)
  have "filled_on s rs \<le> quantity e s" for s
    using quantity_trade [OF assms(1,3), of s] quantity_nonneg [OF ok_trade [OF assms(1,3)], of s]
      filled_on_nonneg [OF ts(2), of s] by (simp add: filled_on_append)
  from this [of Buy] this [of Sell] show ?thesis
    using assms(2) filled_on_nonneg [OF ts(1), of Buy] filled_on_nonneg [OF ts(1), of Sell]
    by (auto simp: covered_def net_fills_sides [OF ts(1)])
qed

end

section \<open>The paper execution engine is such a venue\<close>

lemma sum_reports_by_id:
  fixes g :: "exec_report \<Rightarrow> int"
  shows "(\<Sum>i \<in> UNIV. sum_list (map g (filter (\<lambda>r. rep_order_id r = i) rs))) = sum_list (map g rs)"
proof (induction rs)
  case (Cons r rs)
  have "(\<Sum>i \<in> UNIV. sum_list (map g (filter (\<lambda>r. rep_order_id r = i) (r # rs)))) =
      (\<Sum>i \<in> UNIV. (if rep_order_id r = i then g r else 0)
         + sum_list (map g (filter (\<lambda>r. rep_order_id r = i) rs)))"
    by (intro sum.cong) auto
  then show ?case using Cons by (simp add: sum.distrib)
qed simp

lemma open_qty_sum:
  assumes "distinct (map fst (open_orders e))"
  shows "open_qty e s = (\<Sum>i \<in> UNIV. rem_on s (map_of (open_orders e) i))"
proof -
  have "sum_list (map (\<lambda>(i, o'). rem_on s (Some o')) al) = (\<Sum>i \<in> UNIV. rem_on s (map_of al i))"
    if "distinct (map fst al)" for al :: "(u64 \<times> order) list"
    using that
  proof (induction al)
    case (Cons x al)
    obtain k v where x: "x = (k, v)" by fastforce
    have "map_of al k = None" using Cons.prems x by (simp add: map_of_eq_None_iff)
    then have "(\<Sum>i \<in> UNIV. rem_on s (map_of (x # al) i)) =
        (\<Sum>i \<in> UNIV. (if k = i then rem_on s (Some v) else 0) + rem_on s (map_of al i))"
      by (intro sum.cong) (auto simp: x rem_on_def)
    then show ?case using Cons x by (simp add: sum.distrib)
  qed (simp add: rem_on_def)
  then show ?thesis using assms by (simp add: open_qty_def)
qed

lemma engine_okD: "engine_ok e \<Longrightarrow> distinct (map fst (open_orders e))"
  by (simp add: engine_ok_def)

lemma engine_ok_remaining: "engine_ok e \<Longrightarrow> get_order i e = Some o' \<Longrightarrow> 0 < remaining_quantity o'"
  by (simp add: engine_ok_def order_ok_def get_order_def del: map_of_eq_Some_iff)

text \<open>The sides of open orders: the pipeline submits only buys and sells.\<close>

definition sides_ok :: "'g exec_engine \<Rightarrow> bool" where
  "sides_ok e \<longleftrightarrow> (\<forall>i o'. get_order i e = Some o' \<longrightarrow> o_side o' = Buy \<or> o_side o' = Sell)"

definition venue_ok :: "'g exec_engine \<Rightarrow> bool" where
  "venue_ok e \<longleftrightarrow> engine_ok e \<and> sides_ok e"

lemma get_order_submit:
  "get_order j (snd (submit_limit i sy s p q now e)) =
     (if j = i then Some \<lparr>o_id = i, o_symbol = sy, o_side = s, o_type = Limit, o_tif = GTC,
        o_price = p, o_quantity = q, o_filled = 0, o_status = New, o_created_time = now,
        o_last_update_time = now\<rparr> else get_order j e)"
  by (simp add: get_order_def submit_limit_def Let_def)

lemma get_order_cancel:
  "get_order j (snd (cancel i now e)) = (if j = i then None else get_order j e)"
  by (simp add: get_order_def cancel_def split: option.split)

lemma get_order_event:
  assumes "engine_ok e" "valid_iter iter" "on_market_event draw iter ev e = (rs, e')"
  obtains (hit) r o' where "r \<in> set rs" "rep_order_id r = i" "get_order i e = Some o'" "good_fill ev o' r"
      "get_order i e' = (if rep_remaining r = 0 then None else Some (filled_order ev o' r))"
  | (miss) "i \<notin> rep_order_id ` set rs" "get_order i e' = get_order i e"
proof (cases "i \<in> rep_order_id ` set rs")
  case True
  then obtain r where r: "r \<in> set rs" "rep_order_id r = i" by auto
  from on_market_event_effect(3) [OF assms this(1)] obtain o' where
    "map_of (open_orders e) i = Some o'" "good_fill ev o' r"
    "map_of (open_orders e') i = (if rep_remaining r = 0 then None else Some (filled_order ev o' r))"
    unfolding r(2) by blast
  with r show thesis by (intro hit) (simp_all add: get_order_def)
next
  case False
  with on_market_event_effect(2) [OF assms] show thesis by (intro miss) (simp_all add: get_order_def)
qed

lemma rem_on_event:
  assumes "engine_ok e" "valid_iter iter" "on_market_event draw iter ev e = (rs, e')"
  shows "rem_on s (get_order i e') + filled_on s (filter (\<lambda>r. rep_order_id r = i) rs) =
    rem_on s (get_order i e)"
  using assms
proof (cases rule: get_order_event [where i = i])
  case (hit r o')
  have "distinct (map rep_order_id rs)" by (rule on_market_event_effect(1) [OF assms])
  with hit(1,2) have "filter (\<lambda>r. rep_order_id r = i) rs = [r]"
    by (induction rs) (auto simp: filter_empty_conv rev_image_eqI)
  with hit show ?thesis
    by (auto simp: rem_on_def filled_on_def good_fill_def filled_order_def remaining_quantity_def)
next
  case miss
  then have "filter (\<lambda>r. rep_order_id r = i) rs = []" by (auto simp: filter_empty_conv)
  with miss show ?thesis by (simp add: filled_on_def)
qed

lemma sides_ok_event:
  assumes "engine_ok e" "sides_ok e" "valid_iter iter" "on_market_event draw iter ev e = (rs, e')"
  shows "sides_ok e'" "two_sided rs"
proof -
  show "sides_ok e'" unfolding sides_ok_def
  proof (intro allI impI)
    fix i o' assume "get_order i e' = Some o'"
    with assms(1,3,4) show "o_side o' = Buy \<or> o_side o' = Sell"
    proof (cases rule: get_order_event [where i = i])
      case (hit r o'')
      then show ?thesis using assms(2) \<open>get_order i e' = Some o'\<close>
        unfolding sides_ok_def filled_order_def by (fastforce split: if_splits)
    next
      case miss
      then show ?thesis using assms(2) \<open>get_order i e' = Some o'\<close> by (simp add: sides_ok_def)
    qed
  qed
  show "two_sided rs"
    using on_market_event_effect(3) [OF assms(1,3,4)] assms(2)
    by (fastforce simp: two_sided_def sides_ok_def get_order_def good_fill_def)
qed

lemma open_qty_nonneg:
  assumes "engine_ok e"
  shows "0 \<le> open_qty e s"
proof -
  have "0 \<le> rem_on s (map_of (open_orders e) i)" for i
    using engine_ok_remaining [OF assms, of i]
    by (auto simp: rem_on_def get_order_def less_imp_le simp del: map_of_eq_Some_iff split: option.split)
  then show ?thesis unfolding open_qty_sum [OF engine_okD [OF assms]] by (simp add: sum_nonneg)
qed

lemma open_qty_eq_sum:
  "engine_ok e \<Longrightarrow> open_qty e s = (\<Sum>i \<in> UNIV. rem_on s (get_order i e))"
  by (simp add: get_order_def open_qty_sum engine_okD)

lemma venue_ok_submit:
  assumes "venue_ok e" "0 < q" "s = Buy \<or> s = Sell"
  shows "venue_ok (snd (submit_limit i sy s p q now e))"
  using assms engine_ok_submit_limit [of e q]
  by (auto simp: venue_ok_def sides_ok_def get_order_submit split: if_splits)

lemma open_qty_submit:
  assumes "engine_ok e" "0 < q" "get_order i e = None"
  shows "open_qty (snd (submit_limit i sy s p q now e)) s' = open_qty e s' + (if s' = s then q else 0)"
proof -
  let ?e' = "snd (submit_limit i sy s p q now e)"
  have "engine_ok ?e'" using assms by (intro engine_ok_submit_limit)
  then have "open_qty ?e' s' = (\<Sum>j \<in> UNIV. rem_on s' (get_order j ?e'))" by (rule open_qty_eq_sum)
  also have "\<dots> = (\<Sum>j \<in> UNIV. (if i = j then if s' = s then q else 0 else 0) + rem_on s' (get_order j e))"
    using assms(3)
    by (intro sum.cong) (auto simp: get_order_submit rem_on_def remaining_quantity_def)
  finally show ?thesis using assms(1) by (simp add: sum.distrib open_qty_eq_sum)
qed

lemma open_qty_cancel:
  assumes "engine_ok e"
  shows "open_qty (snd (cancel i now e)) s + rem_on s (get_order i e) = open_qty e s"
proof -
  let ?e' = "snd (cancel i now e)"
  have "engine_ok ?e'" using assms by (rule engine_ok_cancel)
  then have "open_qty ?e' s + rem_on s (get_order i e) =
      (\<Sum>j \<in> UNIV. rem_on s (get_order j ?e') + (if i = j then rem_on s (get_order j e) else 0))"
    by (simp add: open_qty_eq_sum sum.distrib)
  also have "\<dots> = (\<Sum>j \<in> UNIV. rem_on s (get_order j e))"
    by (intro sum.cong) (auto simp: get_order_cancel rem_on_def)
  finally show ?thesis using assms by (simp add: open_qty_eq_sum)
qed

lemma open_qty_event:
  assumes "engine_ok e" "valid_iter iter" "on_market_event draw iter ev e = (rs, e')"
  shows "open_qty e' s + filled_on s rs = open_qty e s"
proof -
  have "engine_ok e'" by (rule on_market_event_effect(4) [OF assms])
  moreover have "filled_on s rs = (\<Sum>i \<in> UNIV. filled_on s (filter (\<lambda>r. rep_order_id r = i) rs))"
    unfolding filled_on_def by (rule sum_reports_by_id [symmetric])
  ultimately show ?thesis
    using assms(1) by (simp add: open_qty_eq_sum rem_on_event [OF assms] flip: sum.distrib)
qed

text \<open>The engine with a draw function and an iteration order of the hash map.\<close>

locale hash_engine =
  fixes draw :: "'g draw_fn" and iter :: "u64 list \<Rightarrow> u64 list"
  assumes visits_all: "valid_iter iter"

sublocale hash_engine \<subseteq> venue: order_venue
  venue_ok "\<lambda>i e. get_order i e \<noteq> None" open_qty submit_limit cancel "on_market_event draw iter"
proof unfold_locales
  fix e e' :: "'g exec_engine" and s s' i sy p q now ev rs
  show "venue_ok e \<Longrightarrow> 0 \<le> open_qty e s" by (simp add: venue_ok_def open_qty_nonneg)
  show "venue_ok e \<Longrightarrow> 0 < q \<Longrightarrow> s = Buy \<or> s = Sell \<Longrightarrow> venue_ok (snd (submit_limit i sy s p q now e))"
    by (rule venue_ok_submit)
  show "venue_ok e \<Longrightarrow> 0 < q \<Longrightarrow> \<not> get_order i e \<noteq> None \<Longrightarrow>
      open_qty (snd (submit_limit i sy s p q now e)) s' = open_qty e s' + (if s' = s then q else 0)"
    by (simp add: venue_ok_def open_qty_submit)
  show "venue_ok e \<Longrightarrow> venue_ok (snd (cancel i now e))"
    using engine_ok_cancel [of e] by (auto simp: venue_ok_def sides_ok_def get_order_cancel split: if_splits)
  show "venue_ok e \<Longrightarrow> open_qty (snd (cancel i now e)) s \<le> open_qty e s"
    using open_qty_cancel [of e i now s] engine_ok_remaining [of e i]
    by (auto simp: venue_ok_def rem_on_def less_imp_le split: option.splits if_splits)
  show "venue_ok e \<Longrightarrow> on_market_event draw iter ev e = (rs, e') \<Longrightarrow> venue_ok e'"
    using on_market_event_effect(4) [of e iter] sides_ok_event(1) [of e iter] visits_all
    by (simp add: venue_ok_def)
  show "venue_ok e \<Longrightarrow> on_market_event draw iter ev e = (rs, e') \<Longrightarrow> two_sided rs"
    using sides_ok_event(2) [of e iter] visits_all by (simp add: venue_ok_def)
  show "venue_ok e \<Longrightarrow> on_market_event draw iter ev e = (rs, e') \<Longrightarrow>
      open_qty e' s + filled_on s rs = open_qty e s"
    using open_qty_event visits_all by (auto simp: venue_ok_def)
qed

context hash_engine
begin

lemmas event_ok = venue.ok_trade
lemmas event_two_sided = venue.trade_two_sided
lemmas event_covered = venue.covered_trade
lemmas event_covered_prefix = venue.covered_trade_prefix

end

text \<open>A map that visits its keys in insertion order is such an engine, for every generator.\<close>

interpretation insertion_order: hash_engine draw "\<lambda>ks. ks" for draw :: "'g draw_fn"
  by unfold_locales simp

section \<open>Every submitted order is accounted for\<close>

definition balanced :: "'g exec_engine \<Rightarrow> bool" where
  "balanced e \<longleftrightarrow> total_submitted e + total_partial_fills e =
     total_canceled e + total_filled e + open_order_count e"

lemma open_count_card:
  "engine_ok e \<Longrightarrow> open_order_count e = card {i. get_order i e \<noteq> None}"
proof -
  assume "engine_ok e"
  then have "length (open_orders e) = card (fst ` set (open_orders e))"
    by (metis distinct_card engine_okD length_map list.set_map)
  moreover have "{i. get_order i e \<noteq> None} = fst ` set (open_orders e)"
    by (auto simp: get_order_def map_of_eq_None_iff dom_map_of_conv_image_fst)
  ultimately show ?thesis by (simp add: open_order_count_def)
qed

lemma balanced_new: "balanced (new_engine fa sd)"
  by (simp add: balanced_def new_engine_def open_order_count_def)

lemma balanced_submit:
  assumes "engine_ok e" "balanced e" "0 < q" "get_order i e = None"
  shows "balanced (snd (submit_limit i sy s p q now e))"
proof -
  let ?e' = "snd (submit_limit i sy s p q now e)"
  have "{j. get_order j ?e' \<noteq> None} = insert i {j. get_order j e \<noteq> None}"
    by (auto simp: get_order_submit)
  then have "open_order_count ?e' = Suc (open_order_count e)"
    using assms engine_ok_submit_limit [of e q] by (simp add: open_count_card)
  then show ?thesis using assms(2) by (simp add: balanced_def submit_limit_def Let_def)
qed

lemma balanced_cancel:
  assumes "engine_ok e" "balanced e"
  shows "balanced (snd (cancel i now e))"
proof (cases "get_order i e")
  case None
  then show ?thesis using assms by (simp add: cancel_def get_order_def)
next
  case (Some o')
  let ?e' = "snd (cancel i now e)"
  have "{j. get_order j ?e' \<noteq> None} = {j. get_order j e \<noteq> None} - {i}"
    by (auto simp: get_order_cancel)
  then have "Suc (open_order_count ?e') = open_order_count e"
    using assms Some engine_ok_cancel [of e i now]
      card_Suc_Diff1 [of "{j. get_order j e \<noteq> None}" i]
    by (simp only: open_count_card) simp
  moreover have "total_canceled ?e' = total_canceled e + 1" "total_submitted ?e' = total_submitted e"
    "total_filled ?e' = total_filled e" "total_partial_fills ?e' = total_partial_fills e"
    using Some by (simp_all add: cancel_def get_order_def)
  ultimately show ?thesis using assms(2) by (simp add: balanced_def)
qed

lemma balanced_event:
  assumes "engine_ok e" "balanced e" "valid_iter iter" "on_market_event draw iter ev e = (rs, e')"
  shows "balanced e'"
proof -
  note eff = on_market_event_effect [OF assms(1,3,4)]
  let ?F = "filter (\<lambda>r. rep_remaining r = 0) rs"
  have st: "r \<in> set rs \<Longrightarrow> rep_status r = PartiallyFilled \<longleftrightarrow> rep_remaining r \<noteq> 0" for r
    using eff(3) [of r] by (auto simp: good_fill_def)
  have "{i. get_order i e' \<noteq> None} = {i. get_order i e \<noteq> None} - rep_order_id ` set ?F"
  proof (intro set_eqI)
    fix i
    show "i \<in> {i. get_order i e' \<noteq> None} \<longleftrightarrow> i \<in> {i. get_order i e \<noteq> None} - rep_order_id ` set ?F"
      using assms(1,3,4)
    proof (cases rule: get_order_event [where i = i])
      case (hit r o')
      have "i \<in> rep_order_id ` set ?F \<longleftrightarrow> rep_remaining r = 0"
        using hit(1,2) eff(1) by (auto simp: distinct_map dest: inj_onD)
      with hit show ?thesis by simp
    qed auto
  qed
  moreover have "rep_order_id ` set ?F \<subseteq> {i. get_order i e \<noteq> None}"
    using eff(3) by (auto simp: get_order_def)
  moreover have "card (rep_order_id ` set ?F) = length ?F"
    using distinct_card [OF distinct_map_filter [OF eff(1)]] by (metis length_map list.set_map)
  ultimately have "open_order_count e' + length ?F = open_order_count e"
    using assms(1) eff(4) card_mono [of "{i. get_order i e \<noteq> None}" "rep_order_id ` set ?F"]
    by (simp add: open_count_card card_Diff_subset)
  moreover have "length rs = length ?F + length (filter (\<lambda>r. rep_status r = PartiallyFilled) rs)"
    using sum_length_filter_compl [of "\<lambda>r. rep_remaining r = 0" rs] st
    by (simp cong: filter_cong)
  ultimately show ?thesis using assms(2) eff(5-8) by (simp add: balanced_def)
qed

end
