(* ===== verification/Risk_Engine.thy ===== *)
theory Risk_Engine
  imports Market_Types
begin

text \<open>
  The pre-trade checks of \<open>src/risk/risk_engine.hpp\<close>: a pure function of the limits and of
  the proposed order.  The comparisons on doubles are the IEEE ones, so a comparison with
  NaN is false.
\<close>

record risk_limits =
  max_position :: int
  max_order_size :: int
  max_notional :: double
  max_daily_loss :: double
  max_open_orders :: nat

definition default_risk_limits :: risk_limits where
  "default_risk_limits = \<lparr>max_position = 1000, max_order_size = 100, max_notional = Fin 100000,
     max_daily_loss = Fin 2000, max_open_orders = 20\<rparr>"

datatype risk_decision =
    Approved
  | RejectedMaxOrderSize
  | RejectedMaxPosition
  | RejectedMaxNotional
  | RejectedMaxDailyLoss
  | RejectedMaxOpenOrders
  | RejectedStaleMarketData

fun risk_decision_str :: "risk_decision \<Rightarrow> string" where
  "risk_decision_str Approved = ''APPROVED''"
| "risk_decision_str RejectedMaxOrderSize = ''REJECTED_MAX_ORDER_SIZE''"
| "risk_decision_str RejectedMaxPosition = ''REJECTED_MAX_POSITION''"
| "risk_decision_str RejectedMaxNotional = ''REJECTED_MAX_NOTIONAL''"
| "risk_decision_str RejectedMaxDailyLoss = ''REJECTED_MAX_DAILY_LOSS''"
| "risk_decision_str RejectedMaxOpenOrders = ''REJECTED_MAX_OPEN_ORDERS''"
| "risk_decision_str RejectedStaleMarketData = ''REJECTED_STALE_MARKET_DATA''"

record risk_check_input =
  order_quantity :: int
  order_side :: side
  reference_price :: double
  current_position :: int
  current_daily_pnl :: double
  current_open_orders :: nat
  input_stale :: bool

definition signed_delta :: "side \<Rightarrow> int \<Rightarrow> int" where
  "signed_delta s q = (if s = Buy then q else - q)"

definition risk_check :: "risk_limits \<Rightarrow> risk_check_input \<Rightarrow> risk_decision" where
  "risk_check limits i =
     (if input_stale i then RejectedStaleMarketData
      else if order_quantity i \<le> 0 \<or> order_quantity i > max_order_size limits
        then RejectedMaxOrderSize
      else if current_open_orders i \<ge> max_open_orders limits then RejectedMaxOpenOrders
      else if dle (current_daily_pnl i) (dneg (max_daily_loss limits)) then RejectedMaxDailyLoss
      else let notional = dmul (d_of_int (order_quantity i)) (reference_price i)
      in if dlt (max_notional limits) notional then RejectedMaxNotional
      else let resulting_position =
                 current_position i + signed_delta (order_side i) (order_quantity i)
      in if resulting_position > max_position limits \<or> resulting_position < - max_position limits
        then RejectedMaxPosition
      else Approved)"

lemma risk_check_Approved:
  "risk_check limits i = Approved \<longleftrightarrow>
     \<not> input_stale i \<and> 0 < order_quantity i \<and> order_quantity i \<le> max_order_size limits
     \<and> current_open_orders i < max_open_orders limits
     \<and> \<not> dle (current_daily_pnl i) (dneg (max_daily_loss limits))
     \<and> \<not> dlt (max_notional limits) (dmul (d_of_int (order_quantity i)) (reference_price i))
     \<and> \<bar>current_position i + signed_delta (order_side i) (order_quantity i)\<bar> \<le> max_position limits"
  by (auto simp: risk_check_def Let_def abs_le_iff)

text \<open>
  When the risk engine approves an order with finite inputs, the data are not stale, the order has
  a positive size within the size limit, fewer than the permitted orders are open, the loss limit is
  not reached, its (rounded) notional is within the notional limit, and the position that
  results from filling it completely is within the position limit on either side.
\<close>

lemma risk_approved_sound:
  assumes "risk_check limits i = Approved"
    and "\<bar>order_quantity i\<bar> \<le> 2 ^ 53" "reference_price i = Fin px" "\<bar>px\<bar> \<le> two_pow 64"
    and "current_daily_pnl i = Fin pnl" "max_daily_loss limits = Fin loss"
      "max_notional limits = Fin cap"
  shows "\<not> input_stale i \<and> 0 < order_quantity i \<and> order_quantity i \<le> max_order_size limits
    \<and> current_open_orders i < max_open_orders limits \<and> - loss < pnl
    \<and> rnd_rat (of_int (order_quantity i) * px) \<le> cap
    \<and> \<bar>current_position i + signed_delta (order_side i) (order_quantity i)\<bar> \<le> max_position limits"
proof -
  let ?q = "of_int (order_quantity i) :: rat"
  have "\<bar>?q\<bar> \<le> of_int (2 ^ 53)" using assms(2) by (simp only: of_int_le_iff flip: of_int_abs)
  then have "\<bar>?q * px\<bar> \<le> two_pow 53 * two_pow 64"
    using assms(4) by (simp only: abs_mult, intro mult_mono) (simp_all add: two_pow_def)
  also have "\<dots> \<le> two_pow 1023" by (simp flip: two_pow_add)
  finally have "rnd (?q * px) = Fin (rnd_rat (?q * px))" by (rule rnd_Fin)
  then have "dmul (d_of_int (order_quantity i)) (reference_price i) = Fin (rnd_rat (?q * px))"
    by (simp add: d_of_int_exact [OF assms(2)] assms(3))
  then show ?thesis
    using assms(1) unfolding risk_check_Approved by (simp add: assms(5,6,7))
qed

definition demo_input :: risk_check_input where
  "demo_input = \<lparr>order_quantity = 10, order_side = Buy, reference_price = Fin 100,
     current_position = 990, current_daily_pnl = Fin (- 1999), current_open_orders = 1,
     input_stale = False\<rparr>"

lemma risk_approved_sound_example:
  "risk_check default_risk_limits demo_input = Approved \<and>
   \<bar>current_position demo_input + signed_delta (order_side demo_input) (order_quantity demo_input)\<bar>
     \<le> max_position default_risk_limits"
proof -
  have h: "risk_check default_risk_limits demo_input = Approved" by code_simp
  show ?thesis
    using risk_approved_sound [OF h, of 100 "- 1999" 2000 100000] h
    by (simp add: demo_input_def default_risk_limits_def two_pow_def)
qed

text \<open>
  A daily P\&L that is not a number never triggers the loss limit: the check
  \<open>pnl <= -max_daily_loss\<close> is false on NaN, so such an order is decided as if the loss limit
  did not exist.
\<close>

lemma risk_nan_pnl_ignores_loss_limit:
  assumes "current_daily_pnl i = NaN"
  shows "risk_check limits i \<noteq> RejectedMaxDailyLoss
    \<and> risk_check limits i = risk_check (limits\<lparr>max_daily_loss := PInf\<rparr>) i"
  using assms by (simp add: risk_check_def Let_def dle_def deq_def)

lemma risk_nan_pnl_ignores_loss_limit_example:
  "risk_check default_risk_limits (demo_input\<lparr>current_daily_pnl := NaN\<rparr>) \<noteq> RejectedMaxDailyLoss"
  using risk_nan_pnl_ignores_loss_limit [of "demo_input\<lparr>current_daily_pnl := NaN\<rparr>"] by simp

end
