(* ===== verification/Microstructure.thy ===== *)
theory Microstructure
  imports Order_Book
begin

text \<open>
  The microstructure metrics of \<open>src/metrics/microstructure.hpp\<close>: rolling windows of mid-price
  returns and of trades, and the metrics read off the book.

  \<open>std::log\<close> and \<open>std::sqrt\<close> are parameters (\<open>log_fn\<close>, \<open>sqrt_fn\<close>): the C++ standard does not fix
  the rounding of \<open>std::log\<close>.  Where a property needs something of them it is a hypothesis of
  that property.
\<close>

section \<open>The calculator\<close>

record trade_sample =
  ts_quantity :: int
  ts_timestamp :: int

record microstructure =
  volatility_window :: nat
  trade_window :: nat
  last_mid :: "double option"
  returns :: "double list"
  trades :: "trade_sample list"

definition new_micro :: "nat \<Rightarrow> nat \<Rightarrow> microstructure" where
  "new_micro vw tw = \<lparr>volatility_window = vw, trade_window = tw, last_mid = None, returns = [],
     trades = []\<rparr>"

definition default_micro :: microstructure where
  "default_micro = new_micro 50 200"

definition on_book_update ::
  "(double \<Rightarrow> double) \<Rightarrow> order_book \<Rightarrow> microstructure \<Rightarrow> microstructure"
where
  "on_book_update log_fn book m =
     (case mid_price book of
        None \<Rightarrow> m
      | Some mid \<Rightarrow>
          let m1 = (case last_mid m of
                      None \<Rightarrow> m
                    | Some lm \<Rightarrow>
                        let rs = returns m @ [log_fn (ddiv mid lm)]
                        in m\<lparr>returns := (if length rs > volatility_window m then tl rs else rs)\<rparr>)
          in m1\<lparr>last_mid := Some mid\<rparr>)"

definition reset_price_history :: "microstructure \<Rightarrow> microstructure" where
  "reset_price_history m = m\<lparr>last_mid := None, returns := []\<rparr>"

text \<open>The loop that pops the oldest trades while the window is too long.\<close>

function pop_front_while :: "nat \<Rightarrow> 'a list \<Rightarrow> 'a list" where
  "pop_front_while w xs = (if length xs > w then pop_front_while w (tl xs) else xs)"
  by pat_completeness auto
termination
  by (relation "measure (\<lambda>(w, xs). length xs)") auto

declare pop_front_while.simps [simp del]

definition on_trade :: "int \<Rightarrow> int \<Rightarrow> microstructure \<Rightarrow> microstructure" where
  "on_trade qty ts m = m\<lparr>trades :=
     pop_front_while (trade_window m) (trades m @ [\<lparr>ts_quantity = qty, ts_timestamp = ts\<rparr>])\<rparr>"

section \<open>Metrics of the current book\<close>

definition spread_bps :: "order_book \<Rightarrow> double option" where
  "spread_bps book =
     (case (spread book, mid_price book) of
        (Some sp, Some mid) \<Rightarrow>
          if deq mid (Fin 0) then None else Some (dmul (ddiv sp mid) (Fin 10000))
      | _ \<Rightarrow> None)"

definition microprice :: "order_book \<Rightarrow> double option" where
  "microprice book =
     (case (best_bid book, best_ask book, best_bid_quantity book, best_ask_quantity book) of
        (Some bb, Some ba, Some bq, Some aq) \<Rightarrow>
          let denom = d_of_int (bq + aq)
          in if deq denom (Fin 0) then None
             else Some (ddiv (dadd (dmul (to_double bb) (d_of_int aq))
                                   (dmul (to_double ba) (d_of_int bq))) denom)
      | _ \<Rightarrow> None)"

text \<open>The ratio both imbalance metrics compute.\<close>

definition imbalance :: "int \<Rightarrow> int \<Rightarrow> double option" where
  "imbalance bid_vol ask_vol =
     (let denom = d_of_int (bid_vol + ask_vol)
      in if deq denom (Fin 0) then None else Some (ddiv (d_of_int (bid_vol - ask_vol)) denom))"

definition top_of_book_imbalance :: "order_book \<Rightarrow> double option" where
  "top_of_book_imbalance book =
     (case (best_bid_quantity book, best_ask_quantity book) of
        (Some bq, Some aq) \<Rightarrow> imbalance bq aq
      | _ \<Rightarrow> None)"

definition depth_imbalance :: "order_book \<Rightarrow> nat \<Rightarrow> double option" where
  "depth_imbalance book levels =
     (let bs = bid_depth levels book; as = ask_depth levels book
      in if bs = [] \<or> as = [] then None
         else imbalance (sum_list (map lvl_quantity bs)) (sum_list (map lvl_quantity as)))"

section \<open>Metrics of the windows\<close>

definition sum_doubles :: "double list \<Rightarrow> double" where
  "sum_doubles xs = foldl dadd (Fin 0) xs"

definition sum_squares :: "double \<Rightarrow> double list \<Rightarrow> double" where
  "sum_squares mean xs = foldl (\<lambda>var r. dadd var (dmul (dsub r mean) (dsub r mean))) (Fin 0) xs"

definition short_term_volatility :: "(double \<Rightarrow> double) \<Rightarrow> microstructure \<Rightarrow> double option" where
  "short_term_volatility sqrt_fn m =
     (if length (returns m) < 2 then None
      else let n = length (returns m);
               mean = ddiv (sum_doubles (returns m)) (d_of_int (int n));
               var = ddiv (sum_squares mean (returns m)) (d_of_int (int (n - 1)))
           in Some (sqrt_fn var))"

definition rolling_trade_volume :: "microstructure \<Rightarrow> int" where
  "rolling_trade_volume m = sum_list (map ts_quantity (trades m))"

definition trade_intensity :: "microstructure \<Rightarrow> double option" where
  "trade_intensity m =
     (if length (trades m) < 2 then None
      else let dt_ns = ts_timestamp (last (trades m)) - ts_timestamp (hd (trades m))
           in if dt_ns \<le> 0 then None
              else let dt_sec = ddiv (d_of_int dt_ns) (Fin 1000000000)
                   in Some (ddiv (d_of_int (int (length (trades m)))) dt_sec))"

section \<open>The rolling windows\<close>

definition lastn :: "nat \<Rightarrow> 'a list \<Rightarrow> 'a list" where
  "lastn w xs = drop (length xs - w) xs"

lemma length_lastn [simp]: "length (lastn w xs) = min w (length xs)"
  by (simp add: lastn_def)

lemma lastn_snoc:
  "lastn w (xs @ [x]) =
     (if length (lastn w xs @ [x]) > w then tl (lastn w xs @ [x]) else lastn w xs @ [x])"
proof (cases "w \<le> length xs")
  case True
  then have "lastn w (xs @ [x]) = drop 1 (drop (length xs - w) (xs @ [x]))"
    by (simp add: lastn_def Suc_diff_le)
  also have "drop (length xs - w) (xs @ [x]) = lastn w xs @ [x]" by (simp add: lastn_def)
  also have "drop 1 \<dots> = tl \<dots>" by (simp only: One_nat_def drop_Suc drop_0)
  finally show ?thesis using True by simp
qed (simp add: lastn_def)

lemma pop_front_while_lastn: "pop_front_while w xs = lastn w xs"
proof (induction w xs rule: pop_front_while.induct)
  case (1 w xs)
  then show ?case
    by (subst pop_front_while.simps) (auto simp: lastn_def drop_Suc tl_drop Suc_diff_le
        dest!: Suc_diff_Suc [symmetric])
qed

text \<open>The log returns between consecutive mid prices.\<close>

fun log_returns :: "(double \<Rightarrow> double) \<Rightarrow> double list \<Rightarrow> double list" where
  "log_returns log_fn (a # b # ms) = log_fn (ddiv b a) # log_returns log_fn (b # ms)"
| "log_returns log_fn _ = []"

lemma log_returns_snoc:
  "ms \<noteq> [] \<Longrightarrow> log_returns log_fn (ms @ [x]) = log_returns log_fn ms @ [log_fn (ddiv x (last ms))]"
  by (induction log_fn ms rule: log_returns.induct) simp_all

definition mids :: "order_book list \<Rightarrow> double list" where
  "mids bs = List.map_filter mid_price bs"

lemma mids_snoc:
  "mids (bs @ [b]) = mids bs @ (case mid_price b of None \<Rightarrow> [] | Some m \<Rightarrow> [m])"
  by (simp add: mids_def map_filter_def split: option.split)

lemma windows_keep [simp, keeps]:
  "volatility_window (on_book_update log_fn b m) = volatility_window m"
  "trade_window (on_book_update log_fn b m) = trade_window m"
  "trades (on_book_update log_fn b m) = trades m"
  "volatility_window (on_trade q ts m) = volatility_window m"
  "trade_window (on_trade q ts m) = trade_window m"
  "returns (on_trade q ts m) = returns m" "last_mid (on_trade q ts m) = last_mid m"
  by (simp_all add: on_book_update_def on_trade_def Let_def split: option.split)

lemma on_book_update_fold:
  "volatility_window (fold (on_book_update log_fn) bs (new_micro vw tw)) = vw
    \<and> last_mid (fold (on_book_update log_fn) bs (new_micro vw tw)) = (if mids bs = [] then None else Some (last (mids bs)))
    \<and> returns (fold (on_book_update log_fn) bs (new_micro vw tw)) = lastn vw (log_returns log_fn (mids bs))"
proof (induction bs rule: rev_induct)
  case Nil
  show ?case by (simp add: new_micro_def mids_def lastn_def map_filter_def)
next
  case (snoc b bs)
  show ?case
  proof (cases "mid_price b")
    case None
    then show ?thesis using snoc by (simp add: on_book_update_def mids_snoc)
  next
    case (Some mid)
    then show ?thesis using snoc
      by (cases "mids bs = []")
         (simp_all add: on_book_update_def mids_snoc Let_def log_returns_snoc lastn_snoc)
  qed
qed

lemma on_trade_fold:
  "trade_window (fold (\<lambda>(q, t). on_trade q t) ts (new_micro vw tw)) = tw
   \<and> trades (fold (\<lambda>(q, t). on_trade q t) ts (new_micro vw tw)) =
       lastn tw (map (\<lambda>(q, t). \<lparr>ts_quantity = q, ts_timestamp = t\<rparr>) ts)"
proof (induction ts rule: rev_induct)
  case (snoc t ts)
  have "lastn w (lastn w xs @ [x]) = lastn w (xs @ [x])" for w and xs :: "'a list" and x
    by (cases "w \<le> length xs") (auto simp: lastn_def min_def Suc_diff_le not_le)
  then show ?case using snoc
    by (cases t) (simp add: on_trade_def pop_front_while_lastn)
qed (simp add: new_micro_def lastn_def)

text \<open>
  C33: whatever books and trades the calculator is shown, its return window holds exactly the
  last \<open>volatility_window\<close> log returns between consecutive two-sided mid prices, its trade
  window exactly the last \<open>trade_window\<close> trades, and the rolling volume is their sum; books
  without a mid price are skipped.
\<close>

theorem rolling_windows:
  "returns (fold (on_book_update log_fn) bs (new_micro vw tw)) = lastn vw (log_returns log_fn (mids bs))
   \<and> trades (fold (\<lambda>(q, t). on_trade q t) ts (new_micro vw tw)) =
       lastn tw (map (\<lambda>(q, t). \<lparr>ts_quantity = q, ts_timestamp = t\<rparr>) ts)
   \<and> rolling_trade_volume (fold (\<lambda>(q, t). on_trade q t) ts (new_micro vw tw)) =
       sum_list (lastn tw (map fst ts))"
proof -
  have "map ts_quantity (lastn tw (map (\<lambda>(q, t). \<lparr>ts_quantity = q, ts_timestamp = t\<rparr>) ts)) =
      lastn tw (map fst ts)"
    by (simp add: lastn_def drop_map comp_def case_prod_unfold)
  then show ?thesis
    using on_book_update_fold on_trade_fold by (simp add: rolling_trade_volume_def)
qed

section \<open>Imbalance\<close>

lemma ddiv_unit:
  assumes "\<bar>a\<bar> \<le> b" "0 < b"
  obtains x where "ddiv (Fin a) (Fin b) = Fin x" "- 1 \<le> x" "x \<le> 1"
proof -
  have ab: "\<bar>a / b\<bar> \<le> two_pow 0" using assms by (simp add: field_simps abs_if split: if_splits)
  then have "ddiv (Fin a) (Fin b) = Fin (rnd_rat (a / b))"
    using assms by (simp add: rnd_Fin_le [of _ 0])
  moreover have "\<bar>rnd_rat (a / b)\<bar> \<le> 1" using rnd_rat_abs_le [OF ab] by simp
  ultimately show thesis using that by (simp add: abs_le_iff)
qed

lemma imbalance_range:
  assumes "0 \<le> bv" "0 \<le> av" "bv + av \<le> 2 ^ 63" "imbalance bv av = Some x"
  obtains r where "x = Fin r" "- 1 \<le> r" "r \<le> 1"
proof -
  let ?d = "rnd_rat (of_int (bv + av))" and ?n = "rnd_rat (of_int (bv - av))"
  have d: "d_of_int (bv + av) = Fin ?d" "d_of_int (bv - av) = Fin ?n"
    using assms by (intro d_of_int_Fin; simp)+
  have nz: "?d \<noteq> 0" using assms(4) by (auto simp: imbalance_def Let_def d split: if_splits)
  have "0 \<le> ?d" using assms by (intro rnd_rat_nonneg) simp
  moreover have "?n \<le> ?d" using assms by (intro rnd_rat_mono) simp
  moreover have "- ?d \<le> ?n"
    using assms unfolding rnd_rat_minus [symmetric] by (intro rnd_rat_mono) simp
  ultimately have "\<bar>?n\<bar> \<le> ?d" "0 < ?d" using nz by (auto simp: abs_le_iff)
  then obtain r where "ddiv (Fin ?n) (Fin ?d) = Fin r" "- 1 \<le> r" "r \<le> 1" by (rule ddiv_unit)
  moreover have "x = ddiv (Fin ?n) (Fin ?d)"
    using assms(4) nz by (simp add: imbalance_def Let_def d)
  ultimately show thesis using that by blast
qed

lemma sum_depth_le:
  fixes xs :: "int list"
  assumes "\<forall>x \<in> set xs. 0 \<le> x"
  shows "0 \<le> sum_list (take n xs)" "sum_list (take n xs) \<le> sum_list xs"
proof -
  show "0 \<le> sum_list (take n xs)" using assms by (intro sum_list_nonneg) (auto dest: in_set_takeD)
  have "0 \<le> sum_list (drop n xs)" using assms by (intro sum_list_nonneg) (auto dest: in_set_dropD)
  moreover have "sum_list xs = sum_list (take n xs) + sum_list (drop n xs)"
    by (metis append_take_drop_id sum_list_append)
  ultimately show "sum_list (take n xs) \<le> sum_list xs" by simp
qed

text \<open>
  On a book whose level sizes are not negative and add up to at most \<open>2^63\<close>, both the
  top-of-book and the depth imbalance, when defined, are finite and lie in the documented
  range from -1 to 1 in spite of the roundings.
\<close>

lemma imbalance_in_range:
  assumes "\<forall>l \<in> set (bids b) \<union> set (asks b). 0 \<le> lvl_quantity l"
    "sum_list (map lvl_quantity (bids b @ asks b)) \<le> 2 ^ 63"
    "top_of_book_imbalance b = Some x \<or> depth_imbalance b n = Some x"
  shows "\<exists>r. x = Fin r \<and> - 1 \<le> r \<and> r \<le> 1"
proof -
  let ?v = "\<lambda>k ls. sum_list (take k (map lvl_quantity ls))"
  have pos: "\<forall>q \<in> set (map lvl_quantity (bids b)). 0 \<le> q" "\<forall>q \<in> set (map lvl_quantity (asks b)). 0 \<le> q"
    using assms(1) by auto
  have "\<exists>k. imbalance (?v k (bids b)) (?v k (asks b)) = Some x"
    using assms(3)
  proof
    assume "top_of_book_imbalance b = Some x"
    then show ?thesis
      by (intro exI [of _ 1]) (auto simp: top_of_book_imbalance_def best_bid_quantity_def
          best_ask_quantity_def split: option.splits list.splits)
  next
    assume "depth_imbalance b n = Some x"
    then show ?thesis
      by (intro exI [of _ n]) (auto simp: depth_imbalance_def bid_depth_def ask_depth_def Let_def
          take_map min_def split: if_splits)
  qed
  then obtain k where "imbalance (?v k (bids b)) (?v k (asks b)) = Some x" ..
  moreover have "?v k (bids b) + ?v k (asks b) \<le> 2 ^ 63"
    using assms(2) sum_depth_le(2) [OF pos(1), of k] sum_depth_le(2) [OF pos(2), of k] by simp
  ultimately show ?thesis
    using imbalance_range sum_depth_le(1) [OF pos(1), of k] sum_depth_le(1) [OF pos(2), of k]
    by metis
qed

lemma demo_book_levels:
  "bids demo_book = [\<lparr>lvl_price = Price 999600, lvl_quantity = 40\<rparr>]"
  "asks demo_book = [\<lparr>lvl_price = Price 1000500, lvl_quantity = 100\<rparr>]"
  by code_simp+

lemma imbalance_in_range_example:
  "\<exists>r. top_of_book_imbalance demo_book = Some (Fin r) \<and> - 1 \<le> r \<and> r \<le> 1"
proof -
  have "top_of_book_imbalance demo_book = Some (ddiv (Fin (- 60)) (Fin 140))"
    by (simp add: top_of_book_imbalance_def best_bid_quantity_def best_ask_quantity_def
        demo_book_levels imbalance_def fp_eval)
  then show ?thesis
    using imbalance_in_range [of demo_book "ddiv (Fin (- 60)) (Fin 140)" 0]
    by (auto simp: demo_book_levels)
qed

section \<open>Volatility\<close>

definition square_bounded :: "int \<Rightarrow> double \<Rightarrow> bool" where
  "square_bounded k d \<longleftrightarrow> bounded_by k d \<and> dle (Fin 0) d"

lemma square_bounded_dmul:
  assumes "bounded_by k a" "0 \<le> k" "2 * k \<le> 1023"
  shows "square_bounded (2 * k) (dmul a a)"
proof -
  obtain x where x: "a = Fin x" "\<bar>x\<bar> \<le> two_pow k" using assms by (auto simp: bounded_by_def)
  have "\<bar>x * x\<bar> \<le> two_pow k * two_pow k"
    unfolding abs_mult using x(2) by (intro mult_mono) simp_all
  then have le: "\<bar>x * x\<bar> \<le> two_pow (2 * k)" by (simp only: mult_2 two_pow_add)
  then show ?thesis
    using assms(2,3) bounded_by_rnd [OF le] rnd_mono [of 0 "x * x"]
    by (simp add: x square_bounded_def)
qed

lemma square_bounded_dadd:
  assumes "square_bounded k a" "square_bounded k b" "0 \<le> k" "k < 1023"
  shows "square_bounded (k + 1) (dadd a b)"
proof -
  have "bounded_by (k + 1) (dadd a b)"
    using assms bounded_by_dadd by (simp add: square_bounded_def)
  moreover obtain x y where "a = Fin x" "b = Fin y" "0 \<le> x" "0 \<le> y"
    using assms by (auto simp: square_bounded_def bounded_by_def)
  moreover from this have "dle (Fin 0) (rnd (x + y))"
    using rnd_mono [of 0 "x + y"] by simp
  ultimately show ?thesis by (simp add: square_bounded_def)
qed

lemma sum_doubles_bounded:
  assumes "\<forall>r \<in> set rs. bounded_by j r" "bounded_by k acc" "0 \<le> j" "j \<le> k" "k + int (length rs) \<le> 1023"
  shows "bounded_by (k + int (length rs)) (foldl dadd acc rs)"
  using assms
proof (induction rs arbitrary: acc k)
  case (Cons r rs)
  have "bounded_by (k + 1) (dadd acc r)"
    using Cons.prems by (intro bounded_by_dadd) (auto intro: bounded_by_mono)
  from Cons.IH [OF _ this] Cons.prems show ?case by (simp add: add.assoc)
qed simp

lemma sum_squares_bounded:
  assumes "\<forall>r \<in> set rs. square_bounded j (dmul (dsub r mean) (dsub r mean))" "square_bounded k acc"
    "0 \<le> j" "j \<le> k" "k + int (length rs) \<le> 1023"
  shows "square_bounded (k + int (length rs))
    (foldl (\<lambda>var r. dadd var (dmul (dsub r mean) (dsub r mean))) acc rs)"
  using assms
proof (induction rs arbitrary: acc k)
  case (Cons r rs)
  have "square_bounded (k + 1) (dadd acc (dmul (dsub r mean) (dsub r mean)))"
    using Cons.prems
    by (intro square_bounded_dadd) (auto simp: square_bounded_def intro: bounded_by_mono)
  from Cons.IH [OF _ this] Cons.prems show ?case by (simp add: add.assoc)
qed simp

lemma ddiv_count:
  assumes "bounded_by k d" "1 \<le> n" "n \<le> 2 ^ 53" "0 \<le> k" "k \<le> 1023"
  shows "bounded_by k (ddiv d (d_of_int n))" "dle (Fin 0) d \<Longrightarrow> dle (Fin 0) (ddiv d (d_of_int n))"
proof -
  have n: "d_of_int n = Fin (of_int n)" using assms by (intro d_of_int_exact) simp
  then show "bounded_by k (ddiv d (d_of_int n))" using assms by (simp add: bounded_by_ddiv)
  obtain x where x: "d = Fin x" using assms by (auto simp: bounded_by_def)
  show "dle (Fin 0) (ddiv d (d_of_int n))" if "dle (Fin 0) d"
    using that assms rnd_mono [of 0 "x / of_int n"] by (simp add: x n)
qed

text \<open>
  When every log return in the window is finite and at most \<open>2^20\<close> in magnitude (the
  logarithm of a positive double is below \<open>2^10\<close>) and the window has between 2 and 200
  entries, the variance handed to the square root is finite and not negative, so no
  overflow and no invalid square root can occur; with fewer than two returns no volatility
  is reported.
\<close>

lemma volatility_well_defined:
  assumes "\<forall>r \<in> set (returns m). bounded_by 20 r" "length (returns m) \<le> 200"
  shows "short_term_volatility sqrt_fn m = None \<and> length (returns m) < 2
    \<or> (\<exists>v. short_term_volatility sqrt_fn m = Some (sqrt_fn (Fin v)) \<and> 0 \<le> v)"
proof (cases "length (returns m) < 2")
  case True
  then show ?thesis by (simp add: short_term_volatility_def)
next
  case False
  let ?n = "length (returns m)"
  define mean where "mean = ddiv (sum_doubles (returns m)) (d_of_int (int ?n))"
  have "bounded_by (20 + int ?n) (sum_doubles (returns m))"
    unfolding sum_doubles_def using assms by (intro sum_doubles_bounded [of _ 20]) (auto simp: bounded_by_def)
  then have mean: "bounded_by 220 mean"
    unfolding mean_def using assms(2) False by (intro ddiv_count(1)) (auto intro: bounded_by_mono)
  have "square_bounded (442 + int ?n) (sum_squares mean (returns m))"
    unfolding sum_squares_def
  proof (rule sum_squares_bounded [of _ 442])
    show "\<forall>r \<in> set (returns m). square_bounded 442 (dmul (dsub r mean) (dsub r mean))"
    proof
      fix r assume "r \<in> set (returns m)"
      then have "bounded_by 220 r" using assms(1) by (auto intro: bounded_by_mono)
      then show "square_bounded 442 (dmul (dsub r mean) (dsub r mean))"
        using mean square_bounded_dmul [of 221] bounded_by_dsub [of 220] by simp
    qed
  qed (use assms in \<open>auto simp: square_bounded_def bounded_by_def\<close>)
  then have "bounded_by 642 (ddiv (sum_squares mean (returns m)) (d_of_int (int (?n - 1))))"
    "dle (Fin 0) (ddiv (sum_squares mean (returns m)) (d_of_int (int (?n - 1))))"
    unfolding square_bounded_def using assms(2) False
    by (auto intro!: ddiv_count [of 642] intro: bounded_by_mono)
  then show ?thesis
    using False by (auto simp: short_term_volatility_def Let_def mean_def [symmetric] bounded_by_def)
qed

lemma volatility_well_defined_example:
  "\<exists>v. short_term_volatility (\<lambda>x. x) (default_micro\<lparr>returns := [Fin 1, Fin 3]\<rparr>) = Some (Fin v) \<and> 0 \<le> v"
proof -
  have "bounded_by 20 (Fin 1)" "bounded_by 20 (Fin 3)" by (simp_all add: bounded_by_def two_pow_def)
  then show ?thesis
    using volatility_well_defined [of "default_micro\<lparr>returns := [Fin 1, Fin 3]\<rparr>" "\<lambda>x. x"] by auto
qed

end
