(* ===== verification/Strategy.thy ===== *)
theory Strategy
  imports Microstructure
begin

text \<open>
  The market-making strategy of \<open>src/strategy/market_maker.hpp\<close>: a reference price around the
  mid, a half-spread widened by volatility, an inventory skew, and sizes tapered towards zero
  on the side that would extend the position.  All arithmetic is the binary64 arithmetic of
  the source, in its order.
\<close>

section \<open>The strategy\<close>

record strategy_config =
  base_half_spread_bps :: double
  quote_size :: int
  inventory_skew_bps_per_unit :: double
  max_inventory_for_skew :: int
  volatility_spread_multiplier :: double
  max_staleness_sec :: double
  requote_threshold_bps :: double

definition default_strategy_config :: strategy_config where
  "default_strategy_config = \<lparr>base_half_spread_bps = Fin 5, quote_size = 10,
     inventory_skew_bps_per_unit = Fin (1 / 2), max_inventory_for_skew = 200,
     volatility_spread_multiplier = Fin (3 / 2), max_staleness_sec = Fin 5,
     requote_threshold_bps = Fin 1\<rparr>"

record quote_decision =
  quote_bid :: bool
  quote_ask :: bool
  bid_price :: price
  ask_price :: price
  bid_size :: int
  ask_size :: int

definition no_quote :: quote_decision where
  "no_quote = \<lparr>quote_bid = False, quote_ask = False, bid_price = Price 0, ask_price = Price 0,
     bid_size = 0, ask_size = 0\<rparr>"

definition staleness_sec :: "order_book \<Rightarrow> int \<Rightarrow> double" where
  "staleness_sec book now = ddiv (d_of_int (now - last_update_time book)) (Fin 1000000000)"

definition half_spread_dollars :: "strategy_config \<Rightarrow> double \<Rightarrow> double \<Rightarrow> double" where
  "half_spread_dollars cfg mid vol =
     (let normalized_vol = dmul vol (Fin 10000);
          half_spread_bps = dmul (base_half_spread_bps cfg)
            (dadd (Fin 1) (dmul (volatility_spread_multiplier cfg) normalized_vol))
      in ddiv (dmul mid half_spread_bps) (Fin 10000))"

definition clamped_inventory :: "strategy_config \<Rightarrow> int \<Rightarrow> double" where
  "clamped_inventory cfg inventory =
     dclamp (d_of_int inventory) (dneg (d_of_int (max_inventory_for_skew cfg)))
       (d_of_int (max_inventory_for_skew cfg))"

definition inv_skew_dollars :: "strategy_config \<Rightarrow> double \<Rightarrow> int \<Rightarrow> double" where
  "inv_skew_dollars cfg mid inventory =
     dmul (dmul (ddiv (inventory_skew_bps_per_unit cfg) (Fin 10000)) (clamped_inventory cfg inventory)) mid"

text \<open>The two target prices, in dollars.\<close>

definition quote_bid_dollars :: "strategy_config \<Rightarrow> double \<Rightarrow> double \<Rightarrow> int \<Rightarrow> double" where
  "quote_bid_dollars cfg mid vol inventory =
     dsub (dsub mid (half_spread_dollars cfg mid vol)) (inv_skew_dollars cfg mid inventory)"

definition quote_ask_dollars :: "strategy_config \<Rightarrow> double \<Rightarrow> double \<Rightarrow> int \<Rightarrow> double" where
  "quote_ask_dollars cfg mid vol inventory =
     dsub (dadd mid (half_spread_dollars cfg mid vol)) (inv_skew_dollars cfg mid inventory)"

text \<open>The two quote sizes.\<close>

definition inv_ratio :: "strategy_config \<Rightarrow> int \<Rightarrow> double" where
  "inv_ratio cfg inventory =
     (if max_inventory_for_skew cfg > 0
      then ddiv (clamped_inventory cfg inventory) (d_of_int (max_inventory_for_skew cfg)) else Fin 0)"

definition tapered_bid_size :: "strategy_config \<Rightarrow> int \<Rightarrow> int" where
  "tapered_bid_size cfg inventory =
     (let r = inv_ratio cfg inventory;
          bid_taper = (if dlt (Fin 0) r then dmax (Fin 0) (dsub (Fin 1) r) else Fin 1)
      in d_to_int64 (dmul (d_of_int (quote_size cfg)) bid_taper))"

definition tapered_ask_size :: "strategy_config \<Rightarrow> int \<Rightarrow> int" where
  "tapered_ask_size cfg inventory =
     (let r = inv_ratio cfg inventory;
          ask_taper = (if dlt r (Fin 0) then dmax (Fin 0) (dadd (Fin 1) r) else Fin 1)
      in d_to_int64 (dmul (d_of_int (quote_size cfg)) ask_taper))"

definition decide ::
  "(double \<Rightarrow> double) \<Rightarrow> strategy_config \<Rightarrow> order_book \<Rightarrow> microstructure \<Rightarrow> int \<Rightarrow> int \<Rightarrow> quote_decision"
where
  "decide sqrt_fn cfg book micro inventory now =
     (case mid_price book of
        None \<Rightarrow> no_quote
      | Some mid \<Rightarrow>
          if dlt (max_staleness_sec cfg) (staleness_sec book now) then no_quote
          else let vol = (case short_term_volatility sqrt_fn micro of None \<Rightarrow> Fin 0 | Some v \<Rightarrow> v);
                   bid = quote_bid_dollars cfg mid vol inventory;
                   ask = quote_ask_dollars cfg mid vol inventory
               in if dle bid (Fin 0) \<or> dle ask bid then no_quote
                  else \<lparr>quote_bid = tapered_bid_size cfg inventory > 0,
                        quote_ask = tapered_ask_size cfg inventory > 0,
                        bid_price = from_double bid, ask_price = from_double ask,
                        bid_size = tapered_bid_size cfg inventory, ask_size = tapered_ask_size cfg inventory\<rparr>)"

section \<open>Sizes\<close>

text \<open>The clamp is exact on inventories that doubles represent exactly.\<close>

lemma clamped_inventory_exact:
  assumes "\<bar>inventory\<bar> \<le> 2 ^ 53" "0 \<le> max_inventory_for_skew cfg" "max_inventory_for_skew cfg \<le> 2 ^ 53"
  defines "M \<equiv> max_inventory_for_skew cfg"
  shows "clamped_inventory cfg inventory = Fin (of_int (max (- M) (min M inventory)))"
  using assms by (auto simp: clamped_inventory_def d_of_int_exact dclamp_def M_def max_def min_def)

lemma inv_ratio_range:
  assumes "\<bar>inventory\<bar> \<le> 2 ^ 53" "0 < max_inventory_for_skew cfg" "max_inventory_for_skew cfg \<le> 2 ^ 53"
  obtains x where "inv_ratio cfg inventory = Fin x" "- 1 \<le> x" "x \<le> 1" "is_fp x"
    "max_inventory_for_skew cfg \<le> inventory \<Longrightarrow> x = 1" "inventory \<le> - max_inventory_for_skew cfg \<Longrightarrow> x = - 1"
    "0 \<le> inventory \<Longrightarrow> 0 \<le> x" "inventory \<le> 0 \<Longrightarrow> x \<le> 0"
proof -
  define M where "M = max_inventory_for_skew cfg"
  define c where "c = max (- M) (min M inventory)"
  have M: "0 < M" "\<bar>M\<bar> \<le> 2 ^ 53" using assms by (simp_all add: M_def)
  have c: "\<bar>c\<bar> \<le> M" using M by (auto simp: c_def)
  have "\<bar>of_int c :: rat\<bar> \<le> of_int M" using c by (simp flip: of_int_abs)
  then have q: "\<bar>of_int c / of_int M :: rat\<bar> \<le> two_pow 0" using M by (simp add: field_simps)
  let ?x = "rnd_rat (of_int c / of_int M)"
  have "inv_ratio cfg inventory = Fin ?x"
    using assms M q clamped_inventory_exact [of inventory cfg]
    by (simp add: inv_ratio_def M_def [symmetric] c_def [symmetric] d_of_int_exact rnd_Fin_le [of _ 0])
  moreover have "\<bar>?x\<bar> \<le> 1" using rnd_rat_abs_le [OF q] by simp
  moreover have "M \<le> inventory \<Longrightarrow> ?x = 1" "inventory \<le> - M \<Longrightarrow> ?x = - 1"
    using M rnd_rat_is_fp [OF is_fp_of_int [of 1]] rnd_rat_is_fp [OF is_fp_of_int [of "- 1"]]
    by (auto simp: c_def max_def min_def)
  moreover have "0 \<le> inventory \<Longrightarrow> 0 \<le> ?x" "inventory \<le> 0 \<Longrightarrow> ?x \<le> 0"
    using M by (auto intro!: rnd_rat_nonneg rnd_rat_nonpos divide_nonneg_pos divide_nonpos_pos
        simp: c_def)
  ultimately show thesis using that is_fp_rnd_rat unfolding M_def by (simp add: abs_le_iff)
qed

lemma scaled_size_range:
  assumes "0 \<le> q" "q \<le> 2 ^ 53" "0 \<le> t" "t \<le> 1"
  shows "0 \<le> d_to_int64 (dmul (d_of_int q) (Fin t))" "d_to_int64 (dmul (d_of_int q) (Fin t)) \<le> q"
    "t = 0 \<Longrightarrow> d_to_int64 (dmul (d_of_int q) (Fin t)) = 0"
    "t = 1 \<Longrightarrow> d_to_int64 (dmul (d_of_int q) (Fin t)) = q"
proof -
  have q: "d_of_int q = Fin (of_int q)" using assms by (intro d_of_int_exact) simp
  have fp: "is_fp (of_int q)" using assms by (intro is_fp_of_int) simp
  have le: "of_int q * t \<le> of_int q" using assms by (simp add: mult_left_le)
  have ge: "0 \<le> of_int q * t" using assms by simp
  have "(of_int q :: rat) \<le> two_pow 53" using assms(2) of_int_le_iff [of q "2 ^ 53"] by (simp add: two_pow_def)
  then have "dmul (d_of_int q) (Fin t) = Fin (rnd_rat (of_int q * t))"
    using le ge by (simp add: q rnd_Fin_le [of _ 53])
  moreover have "rnd_rat (of_int q * t) \<le> of_int q" using le fp by (rule rnd_rat_le_fp)
  then have "trunc_rat (rnd_rat (of_int q * t)) \<le> q"
    using trunc_rat_mono [of _ "of_int q"] by (simp only: trunc_rat_of_int)
  moreover have "0 \<le> trunc_rat (rnd_rat (of_int q * t))"
    using ge by (intro trunc_rat_nonneg rnd_rat_nonneg)
  moreover have "int64_ok q" using assms by (simp add: int64_ok_def)
  ultimately show "0 \<le> d_to_int64 (dmul (d_of_int q) (Fin t))"
    "d_to_int64 (dmul (d_of_int q) (Fin t)) \<le> q"
    by (simp_all add: int64_ok_def)
  show "t = 0 \<Longrightarrow> d_to_int64 (dmul (d_of_int q) (Fin t)) = 0" by (simp add: q int64_ok_def trunc_rat_def)
  show "t = 1 \<Longrightarrow> d_to_int64 (dmul (d_of_int q) (Fin t)) = q"
    using assms rnd_of_int [of q] by (simp add: q int64_ok_def)
qed

lemma tapered_flat:
  assumes "0 < max_inventory_for_skew cfg" "max_inventory_for_skew cfg \<le> 2 ^ 53"
    "0 \<le> quote_size cfg" "quote_size cfg \<le> 2 ^ 53"
  shows "tapered_bid_size cfg 0 = quote_size cfg" "tapered_ask_size cfg 0 = quote_size cfg"
proof -
  have "inv_ratio cfg 0 = Fin 0"
    using assms clamped_inventory_exact [of 0 cfg] by (simp add: inv_ratio_def d_of_int_exact)
  then show "tapered_bid_size cfg 0 = quote_size cfg" "tapered_ask_size cfg 0 = quote_size cfg"
    using scaled_size_range(4) [OF assms(3,4), of 1]
    by (simp_all add: tapered_bid_size_def tapered_ask_size_def)
qed

text \<open>
  For quote sizes, inventory limits and inventories up to \<open>2^53\<close>, both quote sizes are
  between zero and the configured size; at or beyond the inventory limit the side that would
  extend the position is not quoted at all, and the side that would reduce it (or either
  side when flat) keeps the full size.
\<close>

lemma size_taper:
  assumes "\<bar>inventory\<bar> \<le> 2 ^ 53" "0 < max_inventory_for_skew cfg" "max_inventory_for_skew cfg \<le> 2 ^ 53"
    "0 \<le> quote_size cfg" "quote_size cfg \<le> 2 ^ 53"
  shows "0 \<le> tapered_bid_size cfg inventory \<and> tapered_bid_size cfg inventory \<le> quote_size cfg
    \<and> 0 \<le> tapered_ask_size cfg inventory \<and> tapered_ask_size cfg inventory \<le> quote_size cfg
    \<and> (max_inventory_for_skew cfg \<le> inventory \<longrightarrow> tapered_bid_size cfg inventory = 0)
    \<and> (inventory \<le> - max_inventory_for_skew cfg \<longrightarrow> tapered_ask_size cfg inventory = 0)
    \<and> (inventory \<le> 0 \<longrightarrow> tapered_bid_size cfg inventory = quote_size cfg)
    \<and> (0 \<le> inventory \<longrightarrow> tapered_ask_size cfg inventory = quote_size cfg)"
proof -
  obtain x where x: "inv_ratio cfg inventory = Fin x" "- 1 \<le> x" "x \<le> 1"
    "max_inventory_for_skew cfg \<le> inventory \<Longrightarrow> x = 1" "inventory \<le> - max_inventory_for_skew cfg \<Longrightarrow> x = - 1"
    "0 \<le> inventory \<Longrightarrow> 0 \<le> x" "inventory \<le> 0 \<Longrightarrow> x \<le> 0"
    by (rule inv_ratio_range [OF assms(1-3)]) blast
  have taper: "\<exists>t. dmax (Fin 0) (rnd (1 - y)) = Fin t \<and> 0 \<le> t \<and> t \<le> 1 \<and> (y = 1 \<longrightarrow> t = 0)"
    if y: "0 < y" "y \<le> 1" for y
  proof -
    have b: "\<bar>1 - y\<bar> \<le> two_pow 0" using y by simp
    have "0 \<le> rnd_rat (1 - y)" using y by (intro rnd_rat_nonneg) simp
    then show ?thesis
      using rnd_Fin_le [OF b] rnd_rat_abs_le [OF b] by (auto simp: dmax_def)
  qed
  note sz = scaled_size_range [OF assms(4,5)]
  have "0 \<le> tapered_bid_size cfg inventory \<and> tapered_bid_size cfg inventory \<le> quote_size cfg
      \<and> (x = 1 \<longrightarrow> tapered_bid_size cfg inventory = 0) \<and> (x \<le> 0 \<longrightarrow> tapered_bid_size cfg inventory = quote_size cfg)"
    using sz(1,2,4) [of 1] taper [of x] sz x(1,3)
    by (cases "0 < x") (auto simp: tapered_bid_size_def)
  moreover have "0 \<le> tapered_ask_size cfg inventory \<and> tapered_ask_size cfg inventory \<le> quote_size cfg
      \<and> (x = - 1 \<longrightarrow> tapered_ask_size cfg inventory = 0) \<and> (0 \<le> x \<longrightarrow> tapered_ask_size cfg inventory = quote_size cfg)"
    using sz(1,2,4) [of 1] taper [of "- x"] sz x(1,2)
    by (cases "x < 0") (auto simp: tapered_ask_size_def)
  ultimately show ?thesis using x by blast
qed

lemma size_taper_example:
  "tapered_bid_size default_strategy_config 200 = 0
   \<and> tapered_ask_size default_strategy_config 200 = 10"
  using size_taper [of 200 default_strategy_config] by (simp add: default_strategy_config_def)

section \<open>Prices\<close>

lemma bounded_by_rndD: "bounded_by k (rnd x) \<Longrightarrow> rnd x = Fin (rnd_rat x)"
  by (auto simp: bounded_by_def dest: rnd_FinD)

definition current_vol :: "(double \<Rightarrow> double) \<Rightarrow> microstructure \<Rightarrow> double" where
  "current_vol sqrt_fn micro = (case short_term_volatility sqrt_fn micro of None \<Rightarrow> Fin 0 | Some v \<Rightarrow> v)"

lemma decide_cases:
  assumes "quote_bid (decide sqrt_fn cfg book micro inventory now)
    \<or> quote_ask (decide sqrt_fn cfg book micro inventory now)"
  obtains mid bid ask where "mid_price book = Some mid"
    "\<not> dlt (max_staleness_sec cfg) (staleness_sec book now)"
    "bid = quote_bid_dollars cfg mid (current_vol sqrt_fn micro) inventory"
    "ask = quote_ask_dollars cfg mid (current_vol sqrt_fn micro) inventory"
    "\<not> dle bid (Fin 0)" "\<not> dle ask bid"
    "decide sqrt_fn cfg book micro inventory now =
       \<lparr>quote_bid = tapered_bid_size cfg inventory > 0, quote_ask = tapered_ask_size cfg inventory > 0,
        bid_price = from_double bid, ask_price = from_double ask,
        bid_size = tapered_bid_size cfg inventory, ask_size = tapered_ask_size cfg inventory\<rparr>"
  using assms that
  by (auto simp: decide_def no_quote_def current_vol_def Let_def split: option.splits if_splits)

text \<open>
  C25: the strategy quotes only on a two-sided book that is not stale; a quoted side has a
  positive size; and when the two targets are finite dollar amounts of at most \<open>2^47\<close>, the bid
  target is positive and below the ask target and the prices in ticks are ordered the same
  way, not negative, and possibly equal.
\<close>

theorem quotes_are_ordered:
  assumes "quote_bid (decide sqrt_fn cfg book micro inventory now)
    \<or> quote_ask (decide sqrt_fn cfg book micro inventory now)"
  shows "\<exists>mid bid ask. mid_price book = Some mid
    \<and> \<not> dlt (max_staleness_sec cfg) (staleness_sec book now)
    \<and> bid = quote_bid_dollars cfg mid (current_vol sqrt_fn micro) inventory
    \<and> ask = quote_ask_dollars cfg mid (current_vol sqrt_fn micro) inventory
    \<and> (quote_bid (decide sqrt_fn cfg book micro inventory now) \<longrightarrow>
         0 < bid_size (decide sqrt_fn cfg book micro inventory now))
    \<and> (quote_ask (decide sqrt_fn cfg book micro inventory now) \<longrightarrow>
         0 < ask_size (decide sqrt_fn cfg book micro inventory now))
    \<and> (bounded_by 47 bid \<and> bounded_by 47 ask \<longrightarrow> dlt (Fin 0) bid \<and> dlt bid ask
         \<and> Price 0 \<le> bid_price (decide sqrt_fn cfg book micro inventory now)
         \<and> bid_price (decide sqrt_fn cfg book micro inventory now)
             \<le> ask_price (decide sqrt_fn cfg book micro inventory now))"
  using assms
proof (rule decide_cases)
  fix mid bid ask
  assume mid: "mid_price book = Some mid" "\<not> dlt (max_staleness_sec cfg) (staleness_sec book now)"
    and eqs: "bid = quote_bid_dollars cfg mid (current_vol sqrt_fn micro) inventory"
      "ask = quote_ask_dollars cfg mid (current_vol sqrt_fn micro) inventory"
    and guard: "\<not> dle bid (Fin 0)" "\<not> dle ask bid"
    and dec: "decide sqrt_fn cfg book micro inventory now =
       \<lparr>quote_bid = tapered_bid_size cfg inventory > 0, quote_ask = tapered_ask_size cfg inventory > 0,
        bid_price = from_double bid, ask_price = from_double ask,
        bid_size = tapered_bid_size cfg inventory, ask_size = tapered_ask_size cfg inventory\<rparr>"
  have "dlt (Fin 0) bid \<and> dlt bid ask \<and> Price 0 \<le> from_double bid \<and> from_double bid \<le> from_double ask"
    if small: "bounded_by 47 bid" "bounded_by 47 ask"
  proof -
    obtain b a where ba: "bid = Fin b" "ask = Fin a" "\<bar>b\<bar> \<le> two_pow 47" "\<bar>a\<bar> \<le> two_pow 47"
      using small by (auto simp: bounded_by_def)
    with guard have "0 < b" "b < a" by simp_all
    then show ?thesis
      using from_double_mono [of 0 b] from_double_mono [of b a] ba by (simp add: from_double_zero)
  qed
  with mid eqs show ?thesis unfolding dec by auto
qed

text \<open>A book with whole-dollar prices, on which the arithmetic is exact.\<close>

definition dollar_book :: "int \<Rightarrow> int \<Rightarrow> order_book" where
  "dollar_book b a = (new_book ''AAPL'')\<lparr>bids := [\<lparr>lvl_price = Price (b * 10000), lvl_quantity = 10\<rparr>],
     asks := [\<lparr>lvl_price = Price (a * 10000), lvl_quantity = 10\<rparr>]\<rparr>"

definition wide_config :: strategy_config where
  "wide_config = default_strategy_config\<lparr>base_half_spread_bps := Fin 5000,
     inventory_skew_bps_per_unit := Fin 10000\<rparr>"

lemmas strategy_eval = quote_bid_dollars_def quote_ask_dollars_def half_spread_dollars_def
  inv_skew_dollars_def clamped_inventory_def dclamp_def staleness_sec_def current_vol_def
  short_term_volatility_def default_micro_def new_micro_def default_strategy_config_def
  dsub_def Let_def

lemma vol_default: "current_vol sqrt_fn default_micro = Fin 0"
  by (simp add: strategy_eval)

lemma dollar_book_mid: "mid_price (dollar_book 99 101) = Some (Fin 100)"
  by (simp add: mid_price_def best_bid_def best_ask_def dollar_book_def to_double_def kScale_def fp_eval)

lemma wide_targets:
  "quote_bid_dollars wide_config (Fin 100) (Fin 0) 0 = Fin 50"
  "quote_ask_dollars wide_config (Fin 100) (Fin 0) 0 = Fin 150"
  by (simp_all add: wide_config_def strategy_eval fp_eval)

theorem quotes_are_ordered_witness:
  "quote_bid (decide (\<lambda>x. x) wide_config (dollar_book 99 101) default_micro 0 0)
   \<and> bid_price (decide (\<lambda>x. x) wide_config (dollar_book 99 101) default_micro 0 0)
     \<le> ask_price (decide (\<lambda>x. x) wide_config (dollar_book 99 101) default_micro 0 0)"
proof -
  note vol = vol_default
  have "tapered_bid_size wide_config 0 = 10"
    using tapered_flat [of wide_config] by (simp add: wide_config_def default_strategy_config_def)
  moreover have "staleness_sec (dollar_book 99 101) 0 = Fin 0" "max_staleness_sec wide_config = Fin 5"
    by (simp_all add: staleness_sec_def dollar_book_def new_book_def wide_config_def
        default_strategy_config_def)
  ultimately have q: "quote_bid (decide (\<lambda>x. x) wide_config (dollar_book 99 101) default_micro 0 0)"
    using vol by (simp add: decide_def dollar_book_mid current_vol_def [symmetric] wide_targets Let_def)
  have "bounded_by 47 (Fin 50)" "bounded_by 47 (Fin 150)" by (simp_all add: bounded_by_def two_pow_def)
  then show ?thesis
    using q quotes_are_ordered [of "\<lambda>x. x" wide_config "dollar_book 99 101" default_micro 0 0]
    by (simp add: dollar_book_mid vol wide_targets)
qed

text \<open>
  A larger inventory never raises either target price: with a non-negative skew, a
  non-negative mid and everything in a sane range, both the bid and the ask target are
  antitone in the inventory, despite the four roundings in between.
\<close>

lemma skew_lowers_quotes:
  assumes "0 \<le> m" "m \<le> two_pow 64" "inventory_skew_bps_per_unit cfg = Fin k" "0 \<le> k" "k \<le> two_pow 20"
    "0 \<le> max_inventory_for_skew cfg" "max_inventory_for_skew cfg \<le> 2 ^ 53"
    "\<bar>inventory\<bar> \<le> 2 ^ 53" "\<bar>inventory'\<bar> \<le> 2 ^ 53" "inventory \<le> inventory'"
    "bounded_by 200 (half_spread_dollars cfg (Fin m) vol)"
  shows "dle (quote_bid_dollars cfg (Fin m) vol inventory') (quote_bid_dollars cfg (Fin m) vol inventory)
    \<and> dle (quote_ask_dollars cfg (Fin m) vol inventory') (quote_ask_dollars cfg (Fin m) vol inventory)"
proof -
  define M where "M = max_inventory_for_skew cfg"
  define c where "c i = max (- M) (min M i)" for i
  define k1 where "k1 = rnd_rat (k / 10000)"
  define s where "s i = rnd_rat (rnd_rat (k1 * of_int (c i)) * m)" for i
  have k1: "ddiv (Fin k) (Fin 10000) = Fin k1" "0 \<le> k1" "\<bar>k1\<bar> \<le> two_pow 20"
  proof -
    have le: "\<bar>k / 10000\<bar> \<le> two_pow 20" using assms(4,5) by simp
    then show "ddiv (Fin k) (Fin 10000) = Fin k1" by (simp add: k1_def rnd_Fin_le [of _ 20])
    show "0 \<le> k1" using assms(4) by (simp add: k1_def rnd_rat_nonneg)
    show "\<bar>k1\<bar> \<le> two_pow 20" unfolding k1_def using le by (rule rnd_rat_abs_le) simp
  qed
  have skew: "inv_skew_dollars cfg (Fin m) i = Fin (s i)" if "\<bar>i\<bar> \<le> 2 ^ 53" for i
  proof -
    have "clamped_inventory cfg i = Fin (of_int (c i))"
      using clamped_inventory_exact [OF that] assms(6,7) by (simp add: c_def M_def)
    moreover have "\<bar>c i\<bar> \<le> 2 ^ 53" using assms(6,7) by (auto simp: c_def M_def)
    then have "\<bar>of_int (c i) :: rat\<bar> \<le> of_int (2 ^ 53)" by (simp only: of_int_abs [symmetric] of_int_le_iff)
    then have "bounded_by 53 (Fin (of_int (c i)))" by (simp add: bounded_by_def two_pow_def)
    moreover have "bounded_by 20 (Fin k1)" "bounded_by 64 (Fin m)"
      using k1 assms by (simp_all add: bounded_by_def)
    ultimately have b: "bounded_by 73 (rnd (k1 * of_int (c i)))" "bounded_by 64 (Fin m)"
      and cl: "clamped_inventory cfg i = Fin (of_int (c i))"
      using bounded_by_dmul [of 20 "Fin k1" 53 "Fin (of_int (c i))"] by simp_all
    have r: "rnd (k1 * of_int (c i)) = Fin (rnd_rat (k1 * of_int (c i)))"
      using b(1) by (rule bounded_by_rndD)
    have "bounded_by 137 (rnd (rnd_rat (k1 * of_int (c i)) * m))"
      using bounded_by_dmul [OF b] by (simp add: r)
    from bounded_by_rndD [OF this] show ?thesis
      by (simp add: inv_skew_dollars_def assms(3) k1(1) s_def r cl del: ddiv.simps)
  qed
  have "c inventory \<le> c inventory'" using assms(10) by (auto simp: c_def)
  then have mono: "s inventory \<le> s inventory'"
    unfolding s_def using assms(1) k1(2) by (intro rnd_rat_mono mult_right_mono mult_left_mono) simp_all
  have "bounded_by 64 (Fin m)" using assms(1,2) by (simp add: bounded_by_def)
  then have m: "bounded_by 200 (Fin m)" by (rule bounded_by_mono) simp
  obtain y where "dsub (Fin m) (half_spread_dollars cfg (Fin m) vol) = Fin y"
    using bounded_by_dsub [OF m assms(11)] unfolding bounded_by_def by auto
  moreover obtain z where "dadd (Fin m) (half_spread_dollars cfg (Fin m) vol) = Fin z"
    using bounded_by_dadd [OF m assms(11)] unfolding bounded_by_def by auto
  ultimately show ?thesis
    using mono rnd_mono [of "y - s inventory'" "y - s inventory"] rnd_mono [of "z - s inventory'" "z - s inventory"]
    by (simp add: quote_bid_dollars_def quote_ask_dollars_def skew [OF assms(8)] skew [OF assms(9)])
qed

lemma skew_lowers_quotes_example:
  "dle (quote_bid_dollars wide_config (Fin 100) (Fin 0) 1) (quote_bid_dollars wide_config (Fin 100) (Fin 0) 0)"
proof -
  have "half_spread_dollars wide_config (Fin 100) (Fin 0) = Fin 50"
    by (simp add: wide_config_def strategy_eval fp_eval)
  then have "bounded_by 200 (half_spread_dollars wide_config (Fin 100) (Fin 0))"
    by (simp add: bounded_by_def two_pow_def)
  then show ?thesis
    using skew_lowers_quotes [of 100 wide_config 10000 0 1 "Fin 0"]
    by (simp add: wide_config_def default_strategy_config_def two_pow_def)
qed

section \<open>Quotes on the same tick\<close>

definition narrow_config :: strategy_config where
  "narrow_config = wide_config\<lparr>base_half_spread_bps := Fin (625 / 65536)\<rparr>"

text \<open>
  The guard against degenerate quotes compares the unrounded targets, so two targets
  less than a tick apart pass it and both sides are quoted at the same price: here bid and
  ask are both 1.5000 dollars.
\<close>

lemma both_sides_can_share_a_tick:
  "decide (\<lambda>x. x) narrow_config (dollar_book 1 2) default_micro 0 0 =
     \<lparr>quote_bid = True, quote_ask = True, bid_price = Price 15000, ask_price = Price 15000,
      bid_size = 10, ask_size = 10\<rparr>"
proof -
  note r = rnd_dyadic [of "3 / 2" 1 3] rnd_dyadic [of "625 / 65536" 16 625] rnd_dyadic [of "1875 / 131072" 17 1875]
    rnd_dyadic [of "3 / 2097152" 21 3] rnd_dyadic [of "3145725 / 2097152" 21 3145725]
    rnd_dyadic [of "3145731 / 2097152" 21 3145731]
    rnd_dyadic [of "1966078125 / 131072" 17 1966078125]
    rnd_dyadic [of "1966081875 / 131072" 17 1966081875]
    rnd_dyadic [of "1966143661 / 131072" 17 1966143661]
    rnd_dyadic [of "1966147411 / 131072" 17 1966147411]
  have mid: "mid_price (dollar_book 1 2) = Some (Fin (3 / 2))"
    using r by (simp add: mid_price_def best_bid_def best_ask_def dollar_book_def to_double_def
        kScale_def fp_eval)
  have t: "quote_bid_dollars narrow_config (Fin (3 / 2)) (Fin 0) 0 = Fin (3145725 / 2097152)"
    "quote_ask_dollars narrow_config (Fin (3 / 2)) (Fin 0) 0 = Fin (3145731 / 2097152)"
    using r by (simp_all add: narrow_config_def wide_config_def strategy_eval fp_eval)
  have p: "from_double (Fin (3145725 / 2097152)) = Price 15000"
    "from_double (Fin (3145731 / 2097152)) = Price 15000"
    using r by (simp_all add: from_double_def from_ticks_def kScale_def fp_eval trunc_rat_def
        floor_eq_iff int64_ok_def)
  have z: "tapered_bid_size narrow_config 0 = 10" "tapered_ask_size narrow_config 0 = 10"
    using tapered_flat [of narrow_config]
    by (simp_all add: narrow_config_def wide_config_def default_strategy_config_def)
  have "staleness_sec (dollar_book 1 2) 0 = Fin 0" "max_staleness_sec narrow_config = Fin 5"
    by (simp_all add: staleness_sec_def dollar_book_def new_book_def narrow_config_def wide_config_def
        default_strategy_config_def)
  then show ?thesis
    by (simp add: decide_def mid vol_default [unfolded current_vol_def] t p z Let_def)
qed

section \<open>A volatility that is not a number\<close>

lemma NaN_absorbs [simp]:
  "dmul x NaN = NaN" "dadd x NaN = NaN" "dsub x NaN = NaN" "ddiv x NaN = NaN"
  "dsub NaN x = NaN" "dadd NaN x = NaN" "dmul NaN x = NaN" "ddiv NaN x = NaN"
  by (cases x; simp add: dsub_def)+

text \<open>
  When the volatility is not a number, both target prices are NaN, the guard against
  degenerate quotes (written with \<open><=\<close>) does not fire, and the strategy still decides to
  quote every side whose size is positive.
\<close>

lemma nan_volatility_still_quotes:
  assumes "mid_price book = Some mid" "short_term_volatility sqrt_fn micro = Some NaN"
    "\<not> dlt (max_staleness_sec cfg) (staleness_sec book now)"
  shows "quote_bid_dollars cfg mid NaN inventory = NaN \<and> quote_ask_dollars cfg mid NaN inventory = NaN
    \<and> (quote_bid (decide sqrt_fn cfg book micro inventory now) \<longleftrightarrow> 0 < tapered_bid_size cfg inventory)
    \<and> (quote_ask (decide sqrt_fn cfg book micro inventory now) \<longleftrightarrow> 0 < tapered_ask_size cfg inventory)"
proof -
  have nan: "quote_bid_dollars cfg mid NaN inventory = NaN" "quote_ask_dollars cfg mid NaN inventory = NaN"
    by (simp_all add: quote_bid_dollars_def quote_ask_dollars_def half_spread_dollars_def Let_def)
  then show ?thesis using assms by (simp add: decide_def Let_def dle_def deq_def)
qed

lemma nan_volatility_still_quotes_example:
  "quote_bid (decide (\<lambda>x. x) wide_config (dollar_book 99 101) (default_micro\<lparr>returns := [NaN, Fin 1]\<rparr>) 0 0)"
proof -
  have "short_term_volatility (\<lambda>x. x) (default_micro\<lparr>returns := [NaN, Fin 1]\<rparr>) = Some NaN"
    by (simp add: short_term_volatility_def sum_doubles_def sum_squares_def Let_def)
  moreover have "staleness_sec (dollar_book 99 101) 0 = Fin 0" "max_staleness_sec wide_config = Fin 5"
    by (simp_all add: staleness_sec_def dollar_book_def new_book_def wide_config_def
        default_strategy_config_def)
  moreover have "tapered_bid_size wide_config 0 = 10"
    using tapered_flat [of wide_config] by (simp add: wide_config_def default_strategy_config_def)
  ultimately show ?thesis
    using nan_volatility_still_quotes [OF dollar_book_mid, of "\<lambda>x. x" _ wide_config 0 0] by simp
qed

end
