(* ===== verification/Latency_Stats.thy ===== *)
theory Latency_Stats
  imports Doubles "HOL-Library.Multiset"
begin

unbundle bit_operations_syntax

text \<open>
  The constant-memory latency recorder of \<open>src/metrics/latency_stats.hpp\<close>: a histogram whose
  buckets are exact below 32 ns and split every power of two into 16 linear pieces above.

  Sample values are 64-bit words.  Bucket counts and the sample count only ever increase by
  one per call and are natural numbers (the C++ counters would wrap after \<open>2^64\<close> samples).
\<close>

section \<open>Buckets\<close>

text \<open>\<open>std::countl_zero\<close>: the number of zero bits above the highest one.\<close>

definition countl_zero :: "u64 \<Rightarrow> nat" where
  "countl_zero v = length (takeWhile (\<lambda>i. \<not> bit v i) (rev [0..<64]))"

definition kBucketCount :: nat where
  "kBucketCount = 32 + 59 * 16"

definition bucket_of :: "u64 \<Rightarrow> nat" where
  "bucket_of v =
     (if v < 32 then unat v
      else let m = 63 - countl_zero v;
               sub = unat (drop_bit (m - 4) v AND 15)
           in 32 + (m - 5) * 16 + sub)"

definition lower_bound_of :: "nat \<Rightarrow> u64" where
  "lower_bound_of idx =
     (if idx < 32 then of_nat idx
      else let k = idx - 32;
               m = 5 + k div 16;
               sub = of_nat (k mod 16)
           in push_bit (m - 4) (16 + sub))"

section \<open>The recorder\<close>

record latency_stats =
  buckets :: "nat list"
  ls_count :: nat
  ls_sum :: double
  ls_max :: u64

definition new_stats :: latency_stats where
  "new_stats = \<lparr>buckets = replicate kBucketCount 0, ls_count = 0, ls_sum = Fin 0, ls_max = 0\<rparr>"

definition add_ns :: "int \<Rightarrow> latency_stats \<Rightarrow> latency_stats" where
  "add_ns ns st =
     (let v = (if ns < 0 then 0 else word_of_int ns :: u64);
          b = bucket_of v
      in st\<lparr>buckets := (buckets st)[b := buckets st ! b + 1],
            ls_count := ls_count st + 1,
            ls_sum := dadd (ls_sum st) (d_of_int (uint v)),
            ls_max := (if v > ls_max st then v else ls_max st)\<rparr>)"

definition clear_stats :: "latency_stats \<Rightarrow> latency_stats" where
  "clear_stats st = st\<lparr>buckets := replicate (length (buckets st)) 0, ls_count := 0,
     ls_sum := Fin 0, ls_max := 0\<rparr>"

text \<open>The conversion of a double to \<open>uint64_t\<close>; outside the range it is undefined behaviour.\<close>

fun d_to_uint64 :: "double \<Rightarrow> nat" where
  "d_to_uint64 (Fin a) =
     (if 0 \<le> trunc_rat a \<and> trunc_rat a < 2 ^ 64 then nat (trunc_rat a) else undefined)"
| "d_to_uint64 _ = undefined"

text \<open>The rank that \<open>percentile\<close> looks for, after both clamps.\<close>

definition percentile_target :: "double \<Rightarrow> nat \<Rightarrow> nat" where
  "percentile_target p n =
     (let t0 = d_to_uint64 (dadd (dmul (ddiv p (Fin 100)) (d_of_int (int n))) (rnd (999999 / 1000000)));
          t1 = (if t0 < 1 then 1 else t0)
      in if t1 > n then n else t1)"

text \<open>The scan over the buckets: the first index at which the running total reaches the target.\<close>

fun scan_buckets :: "nat \<Rightarrow> nat \<Rightarrow> nat \<Rightarrow> nat list \<Rightarrow> nat option" where
  "scan_buckets target cumulative i [] = None"
| "scan_buckets target cumulative i (b # bs) =
     (let cumulative' = cumulative + b
      in if cumulative' \<ge> target then Some i else scan_buckets target cumulative' (i + 1) bs)"

definition percentile :: "double \<Rightarrow> latency_stats \<Rightarrow> double" where
  "percentile p st =
     (if ls_count st = 0 then Fin 0
      else case scan_buckets (percentile_target p (ls_count st)) 0 0 (buckets st) of
             Some i \<Rightarrow> d_of_int (uint (lower_bound_of i))
           | None \<Rightarrow> d_of_int (uint (ls_max st)))"

definition max_ns :: "latency_stats \<Rightarrow> double" where
  "max_ns st = d_of_int (uint (ls_max st))"

definition mean_ns :: "latency_stats \<Rightarrow> double" where
  "mean_ns st = (if ls_count st \<noteq> 0 then ddiv (ls_sum st) (d_of_int (int (ls_count st))) else Fin 0)"

section \<open>The bucket function\<close>

lemma countl_zero_msb:
  assumes "v \<noteq> (0 :: u64)"
  defines "m \<equiv> 63 - countl_zero v"
  shows "bit v m" "m < 64" "\<And>i. m < i \<Longrightarrow> \<not> bit v i"
proof -
  let ?P = "\<lambda>i. \<not> bit v i" and ?L = "rev [0..<64]"
  have nth: "?L ! j = 63 - j" if "j < 64" for j using that by (simp add: rev_nth)
  have "\<exists>i. bit v i" using assms(1) by (auto simp: bit_eq_iff)
  then obtain i where i: "bit v i" ..
  then have "i < 64" using bit_imp_le_length [of v i] by simp
  then have "i \<in> set ?L" by simp
  with i have "takeWhile ?P ?L \<noteq> ?L" by (metis set_takeWhileD)
  then have "length (takeWhile ?P ?L) \<noteq> length ?L"
    by (metis append_eq_conv_conj takeWhile_dropWhile_id take_all_iff le_refl)
  then have lt: "countl_zero v < 64"
    using length_takeWhile_le [of ?P ?L] by (simp add: countl_zero_def)
  then have "\<not> ?P (?L ! countl_zero v)"
    unfolding countl_zero_def by (intro nth_length_takeWhile) simp
  with lt show "bit v m" by (simp add: nth m_def)
  show "m < 64" by (simp add: m_def)
  show "\<not> bit v i" if "m < i" for i
  proof (cases "i < 64")
    case True
    then have "63 - i < countl_zero v" using that by (simp add: m_def)
    then have "?P (?L ! (63 - i))"
      unfolding countl_zero_def by (metis nth_mem set_takeWhileD takeWhile_nth)
    then show ?thesis using True by (simp add: nth)
  next
    case False
    then show ?thesis using bit_imp_le_length [of v i] by auto
  qed
qed

lemma countl_zero_bounds:
  assumes "v \<noteq> (0 :: u64)"
  defines "m \<equiv> 63 - countl_zero v"
  shows "2 ^ m \<le> unat v" "unat v < 2 ^ (m + 1)" "m < 64"
proof -
  note msb = countl_zero_msb [OF assms(1), folded m_def]
  have "drop_bit (m + 1) v = 0"
    by (rule bit_eqI) (simp add: bit_drop_bit_eq msb(3))
  then have "unat v div 2 ^ (m + 1) = 0"
    by (metis drop_bit_eq_div unat_0 unat_drop_bit_eq)
  then show "unat v < 2 ^ (m + 1)" by (simp add: div_eq_0_iff)
  have "unat v div 2 ^ m \<noteq> 0"
  proof
    assume "unat v div 2 ^ m = 0"
    then have "\<not> bit (unat v) m" by (simp add: bit_iff_odd)
    then show False using msb(1) by (simp add: bit_unsigned_iff)
  qed
  then show "2 ^ m \<le> unat v" by (simp add: div_eq_0_iff)
  show "m < 64" by (rule msb(2))
qed

text \<open>Both functions in closed form: a value of \<open>m + 1\<close> significant bits whose leading five bits
  are \<open>q\<close> goes to bucket \<open>16 * m + q - 64\<close>, whose lower bound is \<open>q\<close> followed by zeros.\<close>

lemma bucket_of_large:
  assumes "\<not> v < 32"
  obtains m q where "5 \<le> m" "m < 64" "16 \<le> q" "q < 32" "unat v div 2 ^ (m - 4) = q"
    "2 ^ m \<le> unat v" "unat v < 2 ^ (m + 1)" "bucket_of v = 16 * m + q - 64"
proof -
  define m where "m = 63 - countl_zero v"
  define q where "q = unat v div 2 ^ (m - 4)"
  have v: "32 \<le> unat v" using assms by (simp add: word_less_nat_alt)
  then have "v \<noteq> 0" by auto
  note b = countl_zero_bounds [OF this, folded m_def]
  have "(2 :: nat) ^ 5 < 2 ^ (m + 1)" using v b(2) by simp
  then have m: "5 \<le> m" using power_less_imp_less_exp [of "2 :: nat" 5 "m + 1"] by simp
  have split: "(2 :: nat) ^ m = 16 * 2 ^ (m - 4)"
    using m power_add [of "2 :: nat" 4 "m - 4"] by simp
  have q: "16 \<le> q" using b(1) unfolding q_def split by (simp add: less_eq_div_iff_mult_less_eq)
  have q': "q < 32" using b(2) unfolding q_def by (simp add: split less_mult_imp_div_less)
  have "unat (drop_bit (m - 4) v AND 15) = q mod 16"
  proof -
    have "drop_bit (m - 4) v AND 15 = take_bit 4 (drop_bit (m - 4) v)"
      by (simp add: take_bit_eq_mask mask_eq_exp_minus_1)
    moreover have "unat (take_bit 4 w) = unat w mod 16" for w :: u64
      by (simp add: take_bit_eq_mod unat_mod)
    ultimately show ?thesis by (simp only: q_def unat_drop_bit_eq drop_bit_eq_div [where 'a = nat])
  qed
  then have "unat (drop_bit (m - 4) v AND 15) = q - 16" using q q' by (simp add: mod_if)
  then have "bucket_of v = 16 * m + q - 64"
    using assms m q by (simp add: bucket_of_def Let_def m_def [symmetric])
  with m b(3) q q' b(1,2) show thesis by (intro that [of m q]) (simp_all add: q_def)
qed

lemma unat_lower_bound_of_large:
  assumes "5 \<le> m" "m < 64" "16 \<le> q" "q < 32"
  shows "unat (lower_bound_of (16 * m + q - 64)) = q * 2 ^ (m - 4)"
proof -
  define k where "k = 16 * m + q - 64 - 32"
  have k: "k = (m - 5) * 16 + (q - 16)" using assms by (simp add: k_def)
  obtain r where r: "q = 16 + r" using assms(3) le_iff_add by auto
  then have dm: "k div 16 = m - 5" "k mod 16 = q - 16" using assms unfolding k by simp_all
  have "\<not> 16 * m + q - 64 < 32" using assms by simp
  then have "lower_bound_of (16 * m + q - 64) = push_bit (m - 4) (16 + of_nat (q - 16))"
    unfolding lower_bound_of_def Let_def k_def [symmetric] dm using assms by simp
  also have "\<dots> = of_nat (q * 2 ^ (m - 4))"
    using assms by (simp add: push_bit_eq_mult of_nat_diff)
  finally have eq: "lower_bound_of (16 * m + q - 64) = of_nat (q * 2 ^ (m - 4))" .
  have "q * 2 ^ (m - 4) < 32 * 2 ^ (m - 4)" using assms by simp
  also have "\<dots> = 2 ^ (m + 1)" using assms power_add [of "2 :: nat" 5 "m - 4"] by simp
  also have "\<dots> \<le> 2 ^ 64" using assms by (intro power_increasing) simp_all
  finally show ?thesis unfolding eq by (intro of_nat_inverse) simp_all
qed

lemma bucket_of_less: "bucket_of v < kBucketCount"
proof (cases "v < 32")
  case True
  then show ?thesis by (simp add: bucket_of_def kBucketCount_def word_less_nat_alt)
next
  case False
  then show ?thesis by (rule bucket_of_large) (simp add: kBucketCount_def)
qed

lemma bucket_of_mono:
  assumes "v \<le> w"
  shows "bucket_of v \<le> bucket_of w"
proof (cases "v < 32")
  case True
  show ?thesis
  proof (cases "w < 32")
    case True
    with assms show ?thesis by (simp add: bucket_of_def word_le_nat_alt word_less_nat_alt)
  next
    case False
    from True have "bucket_of v < 32" by (simp add: bucket_of_def word_less_nat_alt)
    moreover have "32 \<le> bucket_of w" by (rule bucket_of_large [OF False]) simp
    ultimately show ?thesis by simp
  qed
next
  case False
  then have "\<not> w < 32" using assms by simp
  from bucket_of_large [OF False] bucket_of_large [OF this] obtain m q m' q'
    where v: "5 \<le> m" "16 \<le> q" "q < 32" "unat v div 2 ^ (m - 4) = q" "2 ^ m \<le> unat v"
        "bucket_of v = 16 * m + q - 64"
      and w: "5 \<le> m'" "16 \<le> q'" "q' < 32" "unat w div 2 ^ (m' - 4) = q'" "unat w < 2 ^ (m' + 1)"
        "bucket_of w = 16 * m' + q' - 64" by metis
  have le: "unat v \<le> unat w" using assms by (simp add: word_le_nat_alt)
  then have "(2 :: nat) ^ m < 2 ^ (m' + 1)" using v(5) w(5) by linarith
  then have "m < m' + 1" by (rule power_less_imp_less_exp [rotated]) simp
  then consider "m = m'" | "m < m'" by linarith
  then show ?thesis
  proof cases
    case 1
    then show ?thesis using v w le div_le_mono [OF le, of "2 ^ (m - 4)"] by simp
  next
    case 2
    then show ?thesis using v w by simp
  qed
qed

text \<open>The lower bound of the bucket of a value.\<close>

lemma lower_bound_small: "v < 32 \<Longrightarrow> lower_bound_of (bucket_of v) = v"
  by (simp add: bucket_of_def lower_bound_of_def word_less_nat_alt)

lemma lower_bound_large:
  assumes "\<not> v < 32"
  obtains m q where "5 \<le> m" "16 \<le> q" "q < 32" "unat v div 2 ^ (m - 4) = q" "2 ^ m \<le> unat v" "unat v < 2 ^ (m + 1)"
    "unat (lower_bound_of (bucket_of v)) = q * 2 ^ (m - 4)"
proof (rule bucket_of_large [OF assms])
  fix m q
  assume a: "5 \<le> m" "m < 64" "16 \<le> q" "q < 32" "unat v div 2 ^ (m - 4) = q" "2 ^ m \<le> unat v" "unat v < 2 ^ (m + 1)"
    "bucket_of v = 16 * m + q - 64"
  then have "unat (lower_bound_of (bucket_of v)) = q * 2 ^ (m - 4)" using unat_lower_bound_of_large by simp
  with a show thesis by (intro that [of m q])
qed

lemma lower_bound_le: "lower_bound_of (bucket_of v) \<le> v"
proof (cases "v < 32")
  case False
  then obtain m q where "unat v div 2 ^ (m - 4) = q" "unat (lower_bound_of (bucket_of v)) = q * 2 ^ (m - 4)"
    by (rule lower_bound_large)
  then show ?thesis by (simp add: word_le_nat_alt) (metis div_times_less_eq_dividend)
qed (simp add: lower_bound_small)

lemma lower_bound_mono:
  assumes "v \<le> w"
  shows "lower_bound_of (bucket_of v) \<le> lower_bound_of (bucket_of w)"
proof (cases "w < 32")
  case True
  then have "v < 32" using assms by simp
  then show ?thesis using True assms by (simp add: lower_bound_small)
next
  case False
  then obtain m' q' where w: "16 \<le> q'" "unat w div 2 ^ (m' - 4) = q'" "5 \<le> m'" "unat w < 2 ^ (m' + 1)"
      "unat (lower_bound_of (bucket_of w)) = q' * 2 ^ (m' - 4)"
    using lower_bound_large [OF False] by metis
  have low: "2 ^ m' \<le> q' * 2 ^ (m' - 4)"
    using w(1,3) power_add [of "2 :: nat" 4 "m' - 4"] by simp
  show ?thesis
  proof (cases "v < 32")
    case True
    have "(2 :: nat) ^ 5 \<le> 2 ^ m'" using w(3) by (intro power_increasing) simp_all
    then have "unat v \<le> q' * 2 ^ (m' - 4)" using True low by (simp add: word_less_nat_alt)
    then show ?thesis using True w(5) by (simp add: lower_bound_small word_le_nat_alt)
  next
    case False
    then obtain m q where v: "5 \<le> m" "unat v div 2 ^ (m - 4) = q" "2 ^ m \<le> unat v" "unat v < 2 ^ (m + 1)"
        "unat (lower_bound_of (bucket_of v)) = q * 2 ^ (m - 4)"
      by (rule lower_bound_large)
    have le: "unat v \<le> unat w" using assms by (simp add: word_le_nat_alt)
    then have "(2 :: nat) ^ m < 2 ^ (m' + 1)" using v(3) w(4) by linarith
    then have "m < m' + 1" by (rule power_less_imp_less_exp [rotated]) simp
    then consider "m = m'" | "m + 1 \<le> m'" by linarith
    then have "q * 2 ^ (m - 4) \<le> q' * 2 ^ (m' - 4)"
    proof cases
      case 1
      then show ?thesis using v(2) w(2) div_le_mono [OF le, of "2 ^ (m - 4)"] by simp
    next
      case 2
      have "q * 2 ^ (m - 4) \<le> unat v" using v(2) by (metis div_times_less_eq_dividend)
      also have "\<dots> \<le> 2 ^ (m + 1)" using v(4) by simp
      also have "\<dots> \<le> 2 ^ m'" using 2 by (intro power_increasing) simp_all
      finally show ?thesis using low by linarith
    qed
    then show ?thesis by (simp add: word_le_nat_alt v(5) w(5))
  qed
qed

text \<open>
  C31: every 64-bit latency falls into one of the 976 buckets, larger latencies never into an
  earlier bucket, and the lower bound reported for a bucket never exceeds a value in it and
  is below it by at most one sixteenth of the value (exact below 32 ns), so percentiles are
  within the documented 6 percent.
\<close>

theorem bucket_accuracy:
  "bucket_of v < kBucketCount \<and> (v \<le> w \<longrightarrow> bucket_of v \<le> bucket_of w)
   \<and> lower_bound_of (bucket_of v) \<le> v
   \<and> 16 * (unat v - unat (lower_bound_of (bucket_of v))) \<le> unat v
   \<and> (v < 32 \<longrightarrow> lower_bound_of (bucket_of v) = v)"
proof (intro conjI impI)
  show "bucket_of v < kBucketCount" by (rule bucket_of_less)
  show "v \<le> w \<Longrightarrow> bucket_of v \<le> bucket_of w" by (rule bucket_of_mono)
  show "v < 32 \<Longrightarrow> lower_bound_of (bucket_of v) = v" by (rule lower_bound_small)
  show "lower_bound_of (bucket_of v) \<le> v" by (rule lower_bound_le)
  show "16 * (unat v - unat (lower_bound_of (bucket_of v))) \<le> unat v"
  proof (cases "v < 32")
    case False
    then obtain m q where a: "16 \<le> q" "unat v div 2 ^ (m - 4) = q"
        "unat (lower_bound_of (bucket_of v)) = q * 2 ^ (m - 4)" by (rule lower_bound_large)
    have d: "unat v = q * 2 ^ (m - 4) + unat v mod 2 ^ (m - 4)"
      using a(2) div_mult_mod_eq [of "unat v" "2 ^ (m - 4)"] by simp
    have "unat v mod 2 ^ (m - 4) < 2 ^ (m - 4)" by simp
    moreover have "16 * (2 :: nat) ^ (m - 4) \<le> q * 2 ^ (m - 4)" using a(1) by simp
    ultimately have "16 * (unat v mod 2 ^ (m - 4)) \<le> unat v" using d by linarith
    then show ?thesis unfolding a(3) using d by linarith
  qed (simp add: lower_bound_small)
qed

theorem bucket_accuracy_witness:
  "lower_bound_of (bucket_of 1000) = 992 \<and> bucket_of 1000 < 976
   \<and> 16 * (unat (1000 :: u64) - 992) \<le> unat (1000 :: u64)"
proof -
  have "lower_bound_of (bucket_of 1000) = 992" by code_simp
  then show ?thesis using bucket_accuracy [of 1000 2000] by (simp add: kBucketCount_def)
qed

section \<open>Percentiles\<close>

text \<open>The sample a call of \<open>add_ns\<close> records: negative durations count as zero.\<close>

definition recorded :: "int \<Rightarrow> u64" where
  "recorded ns = (if ns < 0 then 0 else word_of_int ns)"

lemma add_ns_fields [simp]:
  "ls_count (add_ns ns st) = ls_count st + 1"
  "ls_max (add_ns ns st) = max (ls_max st) (recorded ns)"
  "buckets (add_ns ns st) =
     (buckets st)[bucket_of (recorded ns) := buckets st ! bucket_of (recorded ns) + 1]"
  by (auto simp: add_ns_def recorded_def Let_def max_def)

definition in_bucket :: "u64 list \<Rightarrow> nat \<Rightarrow> nat" where
  "in_bucket vs i = length (filter (\<lambda>v. bucket_of v = i) vs)"

lemma in_bucket_Nil [simp]: "in_bucket [] = (\<lambda>_. 0)"
  by (simp add: in_bucket_def fun_eq_iff)

lemma record_all:
  "ls_count (fold add_ns nss new_stats) = length nss"
  "buckets (fold add_ns nss new_stats) = map (in_bucket (map recorded nss)) [0..<kBucketCount]"
proof (induction nss rule: rev_induct)
  case Nil
  show "ls_count (fold add_ns [] new_stats) = length ([] :: int list)"
    "buckets (fold add_ns [] new_stats) = map (in_bucket (map recorded [])) [0..<kBucketCount]"
    by (simp_all add: new_stats_def map_replicate_const)
next
  case (snoc ns nss)
  show "ls_count (fold add_ns (nss @ [ns]) new_stats) = length (nss @ [ns])"
    using snoc by simp
  show "buckets (fold add_ns (nss @ [ns]) new_stats) =
      map (in_bucket (map recorded (nss @ [ns]))) [0..<kBucketCount]"
    using snoc bucket_of_less [of "recorded ns"]
    by (intro nth_equalityI) (simp_all add: in_bucket_def nth_list_update)
qed

lemma scan_buckets_first:
  assumes "j < length bs" "target \<le> c + sum_list (take (Suc j) bs)"
    "\<And>k. k < j \<Longrightarrow> c + sum_list (take (Suc k) bs) < target"
  shows "scan_buckets target c i bs = Some (i + j)"
  using assms
proof (induction bs arbitrary: i j c)
  case (Cons b bs)
  show ?case
  proof (cases j)
    case 0
    then show ?thesis using Cons.prems by simp
  next
    case (Suc j')
    have "scan_buckets target (c + b) (i + 1) bs = Some (i + 1 + j')"
    proof (rule Cons.IH)
      show "c + b + sum_list (take (Suc k) bs) < target" if "k < j'" for k
        using Cons.prems(3) [of "Suc k"] that Suc by (simp add: add.assoc)
    qed (use Cons.prems Suc in \<open>simp_all add: add.assoc\<close>)
    moreover have "c + b < target" using Cons.prems(3) [of 0] Suc by simp
    ultimately show ?thesis using Suc by simp
  qed
qed simp

lemma cumulative_in_bucket:
  assumes "k \<le> n"
  shows "sum_list (take k (map (in_bucket vs) [0..<n])) = length (filter (\<lambda>v. bucket_of v < k) vs)"
proof -
  have "sum_list (map (in_bucket vs) [0..<k]) = length (filter (\<lambda>v. bucket_of v < k) vs)"
  proof (induction k)
    case (Suc k)
    have "filter (\<lambda>v. bucket_of v < Suc k) vs =
        filter (\<lambda>v. bucket_of v < k \<or> bucket_of v = k) vs"
      by (simp add: less_Suc_eq)
    moreover have "length (filter (\<lambda>v. bucket_of v < k \<or> bucket_of v = k) vs) =
        length (filter (\<lambda>v. bucket_of v < k) vs) + in_bucket vs k"
      by (induction vs) (auto simp: in_bucket_def)
    ultimately show ?case using Suc by simp
  qed simp
  then show ?thesis using assms by (simp add: take_map min_def)
qed

lemma sorted_rank:
  fixes ys :: "nat list"
  assumes "sorted ys" "i < length ys"
  shows "ys ! i < k \<longleftrightarrow> i < length (filter (\<lambda>y. y < k) ys)"
  using assms
proof (induction ys arbitrary: i)
  case (Cons y ys)
  show ?case
  proof (cases "y < k")
    case True
    then show ?thesis using Cons by (cases i) simp_all
  next
    case False
    then have "filter (\<lambda>y. y < k) ys = []" using Cons.prems(1) by (auto simp: filter_empty_conv)
    moreover have "\<not> (y # ys) ! i < k"
      using False Cons.prems by (cases i) (auto simp: not_less intro: order_trans)
    ultimately show ?thesis using False by simp
  qed
qed simp

lemma percentile_target_range: "0 < n \<Longrightarrow> 1 \<le> percentile_target p n \<and> percentile_target p n \<le> n"
  by (simp add: percentile_target_def Let_def)

lemma percentile_offset:
  obtains c where "rnd (999999 / 1000000) = Fin c" "0 \<le> c" "c < 1"
proof -
  have "rnd (999999 / 1000000) = Fin (rnd_rat (999999 / 1000000))"
    by (rule rnd_Fin_le [of _ 0]) simp_all
  moreover have "rnd_rat (999999 / 1000000) < 1" by code_simp
  ultimately show thesis using that rnd_rat_nonneg [of "999999 / 1000000"] by simp
qed

lemma percentile_target_ends:
  assumes "0 < n" "n \<le> 2 ^ 53"
  shows "percentile_target (Fin 0) n = 1" "percentile_target (Fin 100) n = n"
proof -
  obtain c where c: "rnd (999999 / 1000000) = Fin c" "0 \<le> c" "c < 1" by (rule percentile_offset)
  have n: "d_of_int (int n) = Fin (of_nat n)" using assms d_of_int_exact [of "int n"] by simp
  have fp: "is_fp (of_nat n)" using assms is_fp_of_int [of "int n"] by simp
  have "rnd c = Fin c" using c(1) rnd_FinD is_fp_rnd_rat
    by (metis double.inject rnd_rat_is_fp rnd_def)
  moreover have "trunc_rat c = 0" using c by (simp add: trunc_rat_def floor_eq_iff)
  ultimately show "percentile_target (Fin 0) n = 1"
    using assms by (simp add: percentile_target_def Let_def c(1) n)
  have "(of_nat n :: rat) \<le> of_nat (2 ^ 53)" using assms(2) of_nat_mono by blast
  then have le: "of_nat n + c \<le> two_pow 54" using c by (simp add: two_pow_def)
  then have r: "rnd (of_nat n + c) = Fin (rnd_rat (of_nat n + c))"
    using c by (intro rnd_Fin_le [of _ 54]) simp_all
  define y where "y = trunc_rat (rnd_rat (of_nat n + c))"
  have "int n \<le> y"
    using trunc_rat_mono [OF rnd_rat_ge_fp [OF _ fp, of "of_nat n + c"]] c
      trunc_rat_of_int [of "int n"] by (simp add: y_def)
  moreover have "y \<le> 2 ^ 54"
    using trunc_rat_mono [OF rnd_rat_le_fp [OF le is_fp_two_pow]]
      trunc_rat_of_int [of "2 ^ 54"] by (simp add: y_def two_pow_def)
  ultimately have "n \<le> d_to_uint64 (rnd (of_nat n + c))"
    unfolding r d_to_uint64.simps y_def [symmetric] by (auto simp: nat_le_iff)
  moreover have "rnd 1 = Fin 1" "rnd (of_nat n) = Fin (of_nat n)"
    using n by (simp_all add: fp_eval d_of_int_def)
  ultimately show "percentile_target (Fin 100) n = n"
    using assms by (simp add: percentile_target_def Let_def c(1) n)
qed

lemma percentile_ranked:
  fixes p :: double
  assumes "nss \<noteq> []"
  defines "t \<equiv> percentile_target p (length nss)"
  shows "percentile p (fold add_ns nss new_stats) =
      d_of_int (uint (lower_bound_of (bucket_of (sort (map recorded nss) ! (t - 1)))))"
proof -
  let ?vs = "map recorded nss" and ?ss = "sort (map recorded nss)"
  let ?bs = "map bucket_of ?ss"
  define j where "j = ?bs ! (t - 1)"
  have n: "0 < length nss" using assms(1) by simp
  have t: "1 \<le> t" "t \<le> length nss" using percentile_target_range [OF n] by (simp_all add: t_def)
  have "sorted ?bs" by (rule sorted_map_mono) (auto simp: monotone_on_def bucket_of_mono)
  from sorted_rank [OF this, of "t - 1"] t
  have rank: "j < k \<longleftrightarrow> t \<le> length (filter (\<lambda>v. bucket_of v < k) ?ss)" for k
    by (auto simp: j_def filter_map comp_def)
  have perm: "length (filter P ?ss) = length (filter P ?vs)" for P :: "u64 \<Rightarrow> bool"
    by (metis mset_filter mset_sort size_mset)
  have cum: "sum_list (take (Suc k) (buckets (fold add_ns nss new_stats))) =
      length (filter (\<lambda>v. bucket_of v < Suc k) ?vs)" if "k < kBucketCount" for k
    unfolding record_all using that by (intro cumulative_in_bucket) simp
  have j: "j < kBucketCount" using t by (simp add: j_def bucket_of_less)
  have "scan_buckets t 0 0 (buckets (fold add_ns nss new_stats)) = Some (0 + j)"
  proof (rule scan_buckets_first)
    show "j < length (buckets (fold add_ns nss new_stats))" using j by (simp add: record_all)
    show "t \<le> 0 + sum_list (take (Suc j) (buckets (fold add_ns nss new_stats)))"
      using rank [of "Suc j"] by (simp add: cum [OF j] perm)
    show "0 + sum_list (take (Suc k) (buckets (fold add_ns nss new_stats))) < t" if "k < j" for k
      using rank [of "Suc k"] that j by (simp add: cum perm)
  qed
  then show ?thesis
    using n t by (simp add: percentile_def record_all t_def [symmetric] j_def)
qed

text \<open>
  C32: after any non-empty sequence of recorded latencies, \<open>percentile p\<close> is the lower bound of
  the bucket of the sample whose rank among all samples, sorted, is the rank computed from
  \<open>p\<close>; the scan always finds such a bucket.  The rank is between 1 and the sample count, is
  1 for \<open>p = 0\<close> and the sample count for \<open>p = 100\<close> (up to \<open>2^53\<close> samples), so these return the
  buckets of the smallest and the largest sample.
\<close>

theorem percentile_is_ranked_sample:
  fixes p :: double
  assumes "nss \<noteq> []"
  defines "t \<equiv> percentile_target p (length nss)"
  shows "percentile p (fold add_ns nss new_stats) =
      d_of_int (uint (lower_bound_of (bucket_of (sort (map recorded nss) ! (t - 1)))))
    \<and> 1 \<le> t \<and> t \<le> length nss
    \<and> (length nss \<le> 2 ^ 53 \<longrightarrow> (p = Fin 0 \<longrightarrow> t = 1) \<and> (p = Fin 100 \<longrightarrow> t = length nss))"
  using percentile_ranked [OF assms(1), of p] percentile_target_range [of "length nss" p]
    percentile_target_ends [of "length nss"] assms(1) by (auto simp: t_def)

theorem percentile_is_ranked_sample_witness:
  "percentile (Fin 100) (fold add_ns [1000, 7, - 3] new_stats) = Fin 992"
proof -
  have "lower_bound_of (bucket_of 1000) = 992" by code_simp
  then show ?thesis
    using percentile_is_ranked_sample [of "[1000, 7, - 3]" "Fin 100"]
    by (simp add: recorded_def fp_eval)
qed

section \<open>Order of the percentiles\<close>

lemma percentile_rank_value:
  assumes "0 \<le> a" "a \<le> 100" "n \<le> 2 ^ 53" "rnd (999999 / 1000000) = Fin c" "0 \<le> c" "c < 1"
  shows "d_to_uint64 (dadd (dmul (ddiv (Fin a) (Fin 100)) (d_of_int (int n))) (rnd (999999 / 1000000))) =
      nat (trunc_rat (rnd_rat (rnd_rat (rnd_rat (a / 100) * of_nat n) + c)))"
proof -
  define x where "x = rnd_rat (a / 100)"
  define y where "y = rnd_rat (x * of_nat n)"
  have n: "d_of_int (int n) = Fin (of_nat n)" using assms(3) d_of_int_exact [of "int n"] by simp
  have r1: "rnd (a / 100) = Fin x" unfolding x_def using assms(1,2) by (intro rnd_Fin_le [of _ 0]) simp_all
  have "is_fp 1" using is_fp_of_int [of 1] by simp
  then have x: "0 \<le> x" "x \<le> 1"
    unfolding x_def using assms(1,2) rnd_rat_nonneg [of "a / 100"] rnd_rat_le_fp [of "a / 100" 1] by simp_all
  have "(of_nat n :: rat) \<le> of_nat (2 ^ 53)" using assms(3) of_nat_mono by blast
  then have "(of_nat n :: rat) \<le> two_pow 53" by (simp add: two_pow_def)
  then have xn: "0 \<le> x * of_nat n" "x * of_nat n \<le> two_pow 53"
    using x mult_mono [of x 1 "of_nat n :: rat" "two_pow 53"] by simp_all
  have r2: "rnd (x * of_nat n) = Fin y" unfolding y_def using xn by (intro rnd_Fin_le [of _ 53]) simp_all
  have y: "0 \<le> y" "y \<le> two_pow 53"
    unfolding y_def using xn rnd_rat_nonneg rnd_rat_le_fp [OF _ is_fp_two_pow] by simp_all
  then have le: "0 \<le> y + c" "y + c \<le> two_pow 54" using assms(5,6) by (simp_all add: two_pow_def)
  have r3: "rnd (y + c) = Fin (rnd_rat (y + c))" using le by (intro rnd_Fin_le [of _ 54]) simp_all
  have "trunc_rat (rnd_rat (y + c)) \<le> 2 ^ 54"
    using trunc_rat_mono [OF rnd_rat_le_fp [OF le(2) is_fp_two_pow]] trunc_rat_of_int [of "2 ^ 54"] by (simp add: two_pow_def)
  moreover have "0 \<le> trunc_rat (rnd_rat (y + c))" using le rnd_rat_nonneg trunc_rat_nonneg by blast
  ultimately show ?thesis
    by (simp add: n r1 r2 r3 assms(4) flip: x_def y_def)
qed

lemma percentile_target_mono:
  assumes "0 \<le> a" "a \<le> b" "b \<le> 100" "n \<le> 2 ^ 53"
  shows "percentile_target (Fin a) n \<le> percentile_target (Fin b) n"
proof -
  obtain c where c: "rnd (999999 / 1000000) = Fin c" "0 \<le> c" "c < 1" by (rule percentile_offset)
  have "rnd_rat (a / 100) * of_nat n \<le> rnd_rat (b / 100) * of_nat n"
    using assms(2) by (intro mult_right_mono rnd_rat_mono divide_right_mono) simp_all
  then have "nat (trunc_rat (rnd_rat (rnd_rat (rnd_rat (a / 100) * of_nat n) + c)))
      \<le> nat (trunc_rat (rnd_rat (rnd_rat (rnd_rat (b / 100) * of_nat n) + c)))"
    by (intro nat_mono trunc_rat_mono rnd_rat_mono add_right_mono)
  moreover have "percentile_target (Fin x) n =
      (let t0 = nat (trunc_rat (rnd_rat (rnd_rat (rnd_rat (x / 100) * of_nat n) + c)));
           t1 = (if t0 < 1 then 1 else t0) in if t1 > n then n else t1)" if "0 \<le> x" "x \<le> 100" for x
    unfolding percentile_target_def percentile_rank_value [OF that assms(4) c] ..
  moreover have "(let t1 = (if x < 1 then 1 else x) in if t1 > n then n else t1) \<le>
      (let t1 = (if y < 1 then 1 else y) in if t1 > n then n else t1)" if "x \<le> y" for x y :: nat
    using that by (auto simp: Let_def)
  ultimately show ?thesis using assms(1-3) by (simp only: Let_def)
qed

lemma d_of_u64_mono: "v \<le> w \<Longrightarrow> dle (d_of_int (uint v)) (d_of_int (uint (w :: u64)))"
  unfolding d_of_int_def by (rule rnd_mono) (simp only: of_int_le_iff word_le_def)

lemma percentile_rank_index: "nss \<noteq> [] \<Longrightarrow> percentile_target p (length nss) - 1 < length nss"
  using percentile_target_range [of "length nss" p] by (cases nss) auto

text \<open>Samples recorded by the program: reported percentiles grow with the rank and stay below the
  maximum.\<close>

lemma percentile_mono:
  assumes "0 \<le> a" "a \<le> b" "b \<le> 100" "length nss \<le> 2 ^ 53"
  shows "dle (percentile (Fin a) (fold add_ns nss new_stats)) (percentile (Fin b) (fold add_ns nss new_stats))"
proof (cases "nss = []")
  case True
  then show ?thesis by (simp add: percentile_def new_stats_def)
next
  case False
  let ?ss = "sort (map recorded nss)"
  let ?t = "\<lambda>x. percentile_target (Fin x) (length nss) - 1"
  have "?t a \<le> ?t b" using percentile_target_mono [OF assms(1-4)] by simp
  moreover have "?t b < length ?ss" by (simp add: percentile_rank_index False del: One_nat_def)
  ultimately have "?ss ! ?t a \<le> ?ss ! ?t b" by (intro sorted_nth_mono) simp_all
  then show ?thesis unfolding percentile_ranked [OF False] by (intro d_of_u64_mono lower_bound_mono)
qed

lemma ls_max_record: "v \<in> set (map recorded nss) \<Longrightarrow> v \<le> ls_max (fold add_ns nss new_stats)"
  by (induction nss rule: rev_induct) (auto simp: max_def)

lemma percentile_below_max:
  "dle (percentile p (fold add_ns nss new_stats)) (max_ns (fold add_ns nss new_stats))"
proof (cases "nss = []")
  case True
  then show ?thesis by (simp add: percentile_def max_ns_def new_stats_def)
next
  case False
  let ?v = "sort (map recorded nss) ! (percentile_target p (length nss) - 1)"
  have "percentile_target p (length nss) - 1 < length (sort (map recorded nss))"
    by (simp add: percentile_rank_index False del: One_nat_def)
  then have "?v \<in> set (sort (map recorded nss))" by (rule nth_mem)
  then have "?v \<in> set (map recorded nss)" by (simp only: set_sort)
  then have "lower_bound_of (bucket_of ?v) \<le> ls_max (fold add_ns nss new_stats)"
    using ls_max_record lower_bound_le order_trans by blast
  then show ?thesis unfolding percentile_ranked [OF False] max_ns_def by (rule d_of_u64_mono)
qed

end
