(* ===== verification/Pipeline.thy ===== *)
theory Pipeline
  imports Order_Venue Risk_Engine Strategy Latency_Stats
begin

text \<open>
  The processing pipeline of \<open>src/common/pipeline.hpp\<close>, which live mode and replay share:
  feed checks, order book, microstructure, execution, portfolio, strategy and risk, in the
  order of \<open>Pipeline::process\<close>.

  The environment \<open>env\<close> collects what the code leaves to its surroundings: the uniform draw
  and the hash-map order of the execution engine, \<open>std::log\<close> and \<open>std::sqrt\<close>.  The durations
  that the code measures with the steady clock are the inputs \<open>timings\<close> of a step.
\<close>

section \<open>Configuration, statistics and state\<close>

record 'g env =
  env_draw :: "'g draw_fn"
  env_iter :: "u64 list \<Rightarrow> u64 list"
  env_log :: "double \<Rightarrow> double"
  env_sqrt :: "double \<Rightarrow> double"

record timings =
  book_ns :: int
  exec_ns :: int
  decision_ns :: int

record pipeline_config =
  cfg_risk_limits :: risk_limits
  cfg_strategy :: strategy_config
  cfg_fill_assumptions :: fill_assumptions
  cfg_profile_stages :: bool

record pipeline_stats =
  events_processed :: nat
  out_of_order_dropped :: nat
  sequence_gaps :: nat
  stale_resets :: nat
  clock_stale_events :: nat
  crossed_book_events :: nat
  quotes_submitted :: nat
  quotes_canceled :: nat
  fills :: nat
  partial_fills :: nat
  risk_rejects :: nat
  decision_latency :: latency_stats
  book_update_latency :: latency_stats
  execution_latency :: latency_stats

definition zero_stats :: pipeline_stats where
  "zero_stats = \<lparr>events_processed = 0, out_of_order_dropped = 0, sequence_gaps = 0,
     stale_resets = 0, clock_stale_events = 0, crossed_book_events = 0, quotes_submitted = 0,
     quotes_canceled = 0, fills = 0, partial_fills = 0, risk_rejects = 0,
     decision_latency = new_stats, book_update_latency = new_stats, execution_latency = new_stats\<rparr>"

record resting_quote =
  rq_id :: u64
  rq_price :: price
  rq_size :: int

record 'g pipeline =
  p_book :: order_book
  p_micro :: microstructure
  p_risk :: risk_limits
  p_strategy :: strategy_config
  p_exec :: "'g exec_engine"
  p_portfolio :: portfolio
  stale_threshold :: int
  requote_threshold :: double
  profile_stages :: bool
  market_data_stale :: bool
  next_order_id :: u64
  p_last_sequence :: "u64 option"
  last_event_ts :: "int option"
  resting_bid :: "resting_quote option"
  resting_ask :: "resting_quote option"
  stats :: pipeline_stats

text \<open>\<open>duration_cast\<close> from double seconds to integer nanoseconds multiplies and truncates.\<close>

definition seconds_to_ns :: "double \<Rightarrow> int" where
  "seconds_to_ns sec = d_to_int64 (dmul sec (Fin 1000000000))"

definition new_pipeline :: "(u64 \<Rightarrow> 'g) \<Rightarrow> symbol \<Rightarrow> pipeline_config \<Rightarrow> 'g pipeline" where
  "new_pipeline seeded sy cfg =
     \<lparr>p_book = new_book sy, p_micro = default_micro, p_risk = cfg_risk_limits cfg,
      p_strategy = cfg_strategy cfg, p_exec = new_engine (cfg_fill_assumptions cfg) seeded,
      p_portfolio = new_portfolio,
      stale_threshold = seconds_to_ns (max_staleness_sec (cfg_strategy cfg)),
      requote_threshold = requote_threshold_bps (cfg_strategy cfg),
      profile_stages = cfg_profile_stages cfg, market_data_stale = False, next_order_id = 1,
      p_last_sequence = None, last_event_ts = None, resting_bid = None, resting_ask = None,
      stats = zero_stats\<rparr>"

section \<open>Orders and reports\<close>

definition apply_report :: "exec_report \<Rightarrow> 'g pipeline \<Rightarrow> 'g pipeline" where
  "apply_report report p =
     (let p1 = (if rep_fill_quantity report > 0
                then p\<lparr>p_portfolio := on_fill (rep_side report) (rep_fill_price report)
                         (rep_fill_quantity report) (p_portfolio p),
                       stats := (stats p)\<lparr>fills := fills (stats p) + 1,
                         partial_fills := (if rep_status report = PartiallyFilled
                                           then partial_fills (stats p) + 1
                                           else partial_fills (stats p))\<rparr>\<rparr>
                else p);
          is_it = (\<lambda>q. case q of None \<Rightarrow> False | Some rq \<Rightarrow> rq_id rq = rep_order_id report)
      in if rep_status report = Filled
         then let p2 = (if is_it (resting_bid p1) then p1\<lparr>resting_bid := None\<rparr> else p1)
              in (if is_it (resting_ask p2) then p2\<lparr>resting_ask := None\<rparr> else p2)
         else p1)"

text \<open>The two resting-quote slots, addressed by side; the code passes them by reference.\<close>

definition slot :: "side \<Rightarrow> 'g pipeline \<Rightarrow> resting_quote option" where
  "slot s p = (if s = Buy then resting_bid p else resting_ask p)"

definition set_slot :: "side \<Rightarrow> resting_quote option \<Rightarrow> 'g pipeline \<Rightarrow> 'g pipeline" where
  "set_slot s q p = (if s = Buy then p\<lparr>resting_bid := q\<rparr> else p\<lparr>resting_ask := q\<rparr>)"

definition cancel_side :: "side \<Rightarrow> int \<Rightarrow> 'g pipeline \<Rightarrow> 'g pipeline" where
  "cancel_side s now p =
     (case slot s p of
        None \<Rightarrow> p
      | Some q \<Rightarrow>
          let p1 = p\<lparr>p_exec := snd (cancel (rq_id q) now (p_exec p))\<rparr>;
              p2 = set_slot s None p1
          in p2\<lparr>stats := (stats p2)\<lparr>quotes_canceled := quotes_canceled (stats p2) + 1\<rparr>\<rparr>)"

definition cancel_resting_quotes :: "int \<Rightarrow> 'g pipeline \<Rightarrow> 'g pipeline" where
  "cancel_resting_quotes now p = cancel_side Sell now (cancel_side Buy now p)"

definition resync :: "int \<Rightarrow> 'g pipeline \<Rightarrow> 'g pipeline" where
  "resync now p =
     (let p1 = cancel_resting_quotes now p
      in p1\<lparr>p_book := clear (p_book p1), p_micro := reset_price_history (p_micro p1)\<rparr>)"

definition needs_replace :: "resting_quote option \<Rightarrow> price \<Rightarrow> int \<Rightarrow> int \<Rightarrow> bool" where
  "needs_replace resting target sz threshold_ticks =
     (case resting of
        None \<Rightarrow> True
      | Some q \<Rightarrow>
          if rq_size q \<noteq> sz then True
          else let move = ticks (rq_price q) - ticks target
               in (if move < 0 then - move else move) > threshold_ticks)"

definition submit :: "side \<Rightarrow> price \<Rightarrow> int \<Rightarrow> double \<Rightarrow> int \<Rightarrow> 'g pipeline \<Rightarrow> 'g pipeline" where
  "submit s px sz ref_price now p =
     (let inp = \<lparr>order_quantity = sz, order_side = s, reference_price = ref_price,
                 current_position = position (pf_state (p_portfolio p)),
                 current_daily_pnl = total_pnl (pf_state (p_portfolio p)),
                 current_open_orders = open_order_count (p_exec p),
                 input_stale = market_data_stale p\<rparr>
      in if risk_check (p_risk p) inp \<noteq> Approved
         then p\<lparr>stats := (stats p)\<lparr>risk_rejects := risk_rejects (stats p) + 1\<rparr>\<rparr>
         else let i = next_order_id p;
                  p1 = p\<lparr>next_order_id := i + 1,
                         p_exec := snd (submit_limit i (ob_symbol (p_book p)) s px sz now (p_exec p))\<rparr>;
                  p2 = set_slot s (Some \<lparr>rq_id = i, rq_price = px, rq_size = sz\<rparr>) p1
              in p2\<lparr>stats := (stats p2)\<lparr>quotes_submitted := quotes_submitted (stats p2) + 1\<rparr>\<rparr>)"

text \<open>One side of \<open>requote\<close> after the withdrawals: replace the resting quote if needed.\<close>

definition replace_side ::
  "side \<Rightarrow> bool \<Rightarrow> price \<Rightarrow> int \<Rightarrow> int \<Rightarrow> double \<Rightarrow> int \<Rightarrow> 'g pipeline \<Rightarrow> 'g pipeline"
where
  "replace_side s wanted px sz threshold_ticks ref_price now p =
     (if wanted \<and> needs_replace (slot s p) px sz threshold_ticks
      then submit s px sz ref_price now (cancel_side s now p) else p)"

definition requote :: "'g env \<Rightarrow> int \<Rightarrow> int \<Rightarrow> 'g pipeline \<Rightarrow> 'g pipeline" where
  "requote env elapsed_ns now p =
     (let qd = decide (env_sqrt env) (p_strategy p) (p_book p) (p_micro p)
                 (position (pf_state (p_portfolio p))) now;
          ref_price = (case mid_price (p_book p) of None \<Rightarrow> Fin 0 | Some m \<Rightarrow> m);
          threshold_ticks = d_to_int64 (dmul (ddiv (dmul ref_price (requote_threshold p)) (Fin 10000))
                              (d_of_int kScale));
          p1 = (if \<not> quote_bid qd then cancel_side Buy now p else p);
          p2 = (if \<not> quote_ask qd then cancel_side Sell now p1 else p1);
          p3 = replace_side Buy (quote_bid qd) (bid_price qd) (bid_size qd) threshold_ticks ref_price now p2;
          p4 = replace_side Sell (quote_ask qd) (ask_price qd) (ask_size qd) threshold_ticks ref_price now p3
      in p4\<lparr>stats := (stats p4)\<lparr>decision_latency := add_ns elapsed_ns (decision_latency (stats p4))\<rparr>\<rparr>)"

section \<open>Events and the clock\<close>

definition is_duplicate :: "market_event \<Rightarrow> 'g pipeline \<Rightarrow> bool" where
  "is_duplicate ev p = (case p_last_sequence p of None \<Rightarrow> False | Some ls \<Rightarrow> ev_sequence ev \<le> ls)"

definition is_gap :: "market_event \<Rightarrow> 'g pipeline \<Rightarrow> bool" where
  "is_gap ev p = (case p_last_sequence p of None \<Rightarrow> False | Some ls \<Rightarrow> ev_sequence ev \<noteq> ls + 1)"

definition is_late :: "int \<Rightarrow> 'g pipeline \<Rightarrow> bool" where
  "is_late ts p = (case last_event_ts p of None \<Rightarrow> False | Some t \<Rightarrow> ts - t > stale_threshold p)"

text \<open>The feed checks of an event that is not dropped.\<close>

definition accept_event :: "market_event \<Rightarrow> 'g pipeline \<Rightarrow> 'g pipeline" where
  "accept_event ev p =
     (let gap = is_gap ev p; stale = is_late (ev_timestamp ev) p;
          p1 = p\<lparr>p_last_sequence := Some (ev_sequence ev), last_event_ts := Some (ev_timestamp ev),
                 market_data_stale := False\<rparr>;
          p2 = p1\<lparr>stats := (stats p1)\<lparr>
                 sequence_gaps := (if gap then sequence_gaps (stats p1) + 1 else sequence_gaps (stats p1)),
                 stale_resets := (if stale then stale_resets (stats p1) + 1 else stale_resets (stats p1))\<rparr>\<rparr>
      in if gap \<or> stale then resync (ev_timestamp ev) p2 else p2)"

text \<open>Book, microstructure, execution and portfolio.\<close>

definition update_market :: "'g env \<Rightarrow> market_event \<Rightarrow> 'g pipeline \<Rightarrow> 'g pipeline" where
  "update_market env ev p =
     (let p1 = p\<lparr>p_book := apply_event ev (p_book p)\<rparr>;
          p2 = p1\<lparr>p_micro := on_book_update (env_log env) (p_book p1) (p_micro p1)\<rparr>
      in if ev_type ev = Trade
         then p2\<lparr>p_micro := on_trade (ev_quantity ev) (ev_timestamp ev) (p_micro p2)\<rparr> else p2)"

definition run_execution :: "'g env \<Rightarrow> market_event \<Rightarrow> 'g pipeline \<Rightarrow> 'g pipeline" where
  "run_execution env ev p =
     (let (reports, e) = on_market_event (env_draw env) (env_iter env) ev (p_exec p)
      in fold apply_report reports (p\<lparr>p_exec := e\<rparr>))"

definition mark_portfolio :: "'g pipeline \<Rightarrow> 'g pipeline" where
  "mark_portfolio p =
     (case mid_price (p_book p) of
        None \<Rightarrow> p
      | Some mid \<Rightarrow> p\<lparr>p_portfolio := mark_to_market mid (p_portfolio p)\<rparr>)"

text \<open>Everything \<open>process\<close> does for an accepted event before it looks at its own quotes.\<close>

definition ingest :: "'g env \<Rightarrow> timings \<Rightarrow> market_event \<Rightarrow> 'g pipeline \<Rightarrow> 'g pipeline" where
  "ingest env tm ev p =
     (let p1 = accept_event ev p;
          p2 = mark_portfolio (run_execution env ev (update_market env ev p1))
      in if profile_stages p2
         then p2\<lparr>stats := (stats p2)\<lparr>
                book_update_latency := add_ns (book_ns tm) (book_update_latency (stats p2)),
                execution_latency := add_ns (exec_ns tm) (execution_latency (stats p2))\<rparr>\<rparr>
         else p2)"

definition count_event :: "'g pipeline \<Rightarrow> 'g pipeline" where
  "count_event p = p\<lparr>stats := (stats p)\<lparr>events_processed := events_processed (stats p) + 1\<rparr>\<rparr>"

definition process :: "'g env \<Rightarrow> timings \<Rightarrow> market_event \<Rightarrow> 'g pipeline \<Rightarrow> 'g pipeline" where
  "process env tm ev p =
     (let p0 = count_event p
      in if is_duplicate ev p0
         then p0\<lparr>stats := (stats p0)\<lparr>out_of_order_dropped := out_of_order_dropped (stats p0) + 1\<rparr>\<rparr>
         else
           let p3 = ingest env tm ev p0
           in if crossed (p_book p3)
              then cancel_resting_quotes (ev_timestamp ev)
                     (p3\<lparr>stats := (stats p3)\<lparr>crossed_book_events := crossed_book_events (stats p3) + 1\<rparr>\<rparr>)
              else if ev_type ev = Quote \<or> ev_type ev = BookDelete \<or> ev_type ev = Snapshot
              then requote env (decision_ns tm) (ev_timestamp ev) p3
              else p3)"

definition on_clock :: "int \<Rightarrow> 'g pipeline \<Rightarrow> 'g pipeline" where
  "on_clock now p =
     (if last_event_ts p = None \<or> market_data_stale p then p
      else if is_late now p
      then cancel_resting_quotes now
             (p\<lparr>market_data_stale := True,
                stats := (stats p)\<lparr>clock_stale_events := clock_stale_events (stats p) + 1\<rparr>\<rparr>)
      else p)"

section \<open>Runs\<close>

text \<open>The pipeline has one owner that calls \<open>process\<close> and \<open>on_clock\<close> in any order.\<close>

inductive pipe_step :: "'g env \<Rightarrow> 'g pipeline \<Rightarrow> 'g pipeline \<Rightarrow> bool" for env where
  event: "pipe_step env p (process env tm ev p)"
| clock: "pipe_step env p (on_clock now p)"

inductive reachable :: "'g env \<Rightarrow> 'g pipeline \<Rightarrow> 'g pipeline \<Rightarrow> bool" for env p0 where
  start: "reachable env p0 p0"
| step: "reachable env p0 p \<Longrightarrow> pipe_step env p p' \<Longrightarrow> reachable env p0 p'"

inductive_cases pipe_stepE: "pipe_step env p p'"

section \<open>What the operations leave alone\<close>

lemma set_slot_keeps [simp, keeps]:
  "p_book (set_slot s q p) = p_book p" "p_micro (set_slot s q p) = p_micro p"
  "p_risk (set_slot s q p) = p_risk p" "p_strategy (set_slot s q p) = p_strategy p"
  "p_exec (set_slot s q p) = p_exec p" "p_portfolio (set_slot s q p) = p_portfolio p"
  "stale_threshold (set_slot s q p) = stale_threshold p"
  "requote_threshold (set_slot s q p) = requote_threshold p"
  "profile_stages (set_slot s q p) = profile_stages p"
  "market_data_stale (set_slot s q p) = market_data_stale p"
  "next_order_id (set_slot s q p) = next_order_id p"
  "p_last_sequence (set_slot s q p) = p_last_sequence p"
  "last_event_ts (set_slot s q p) = last_event_ts p" "stats (set_slot s q p) = stats p"
  by (simp_all add: set_slot_def)

lemma slot_set_slot [simp]:
  "slot s' (set_slot s q p) = (if (s' = Buy) = (s = Buy) then q else slot s' p)"
  by (auto simp: slot_def set_slot_def)

lemma slot_update [simp]:
  "slot s (p\<lparr>p_book := b\<rparr>) = slot s p" "slot s (p\<lparr>p_micro := m\<rparr>) = slot s p"
  "slot s (p\<lparr>p_exec := e\<rparr>) = slot s p" "slot s (p\<lparr>p_portfolio := pf\<rparr>) = slot s p"
  "slot s (p\<lparr>market_data_stale := b'\<rparr>) = slot s p" "slot s (p\<lparr>next_order_id := i\<rparr>) = slot s p"
  "slot s (p\<lparr>p_last_sequence := x\<rparr>) = slot s p" "slot s (p\<lparr>last_event_ts := y\<rparr>) = slot s p"
  "slot s (p\<lparr>stats := st\<rparr>) = slot s p"
  by (simp_all add: slot_def)

lemma cancel_side_keeps [simp, keeps]:
  "p_book (cancel_side s now p) = p_book p" "p_micro (cancel_side s now p) = p_micro p"
  "p_risk (cancel_side s now p) = p_risk p" "p_strategy (cancel_side s now p) = p_strategy p"
  "p_portfolio (cancel_side s now p) = p_portfolio p"
  "stale_threshold (cancel_side s now p) = stale_threshold p"
  "requote_threshold (cancel_side s now p) = requote_threshold p"
  "profile_stages (cancel_side s now p) = profile_stages p"
  "market_data_stale (cancel_side s now p) = market_data_stale p"
  "next_order_id (cancel_side s now p) = next_order_id p"
  "p_last_sequence (cancel_side s now p) = p_last_sequence p"
  "last_event_ts (cancel_side s now p) = last_event_ts p"
  "quotes_submitted (stats (cancel_side s now p)) = quotes_submitted (stats p)"
  by (simp_all add: cancel_side_def Let_def split: option.split)

lemma slot_cancel_side [simp]:
  "slot s' (cancel_side s now p) = (if (s' = Buy) = (s = Buy) then None else slot s' p)"
  by (auto simp: cancel_side_def Let_def slot_def set_slot_def split: option.split)

lemma cancel_resting_quotes_keeps [simp, keeps]:
  "p_book (cancel_resting_quotes now p) = p_book p" "p_micro (cancel_resting_quotes now p) = p_micro p"
  "p_risk (cancel_resting_quotes now p) = p_risk p"
  "p_portfolio (cancel_resting_quotes now p) = p_portfolio p"
  "p_last_sequence (cancel_resting_quotes now p) = p_last_sequence p"
  "last_event_ts (cancel_resting_quotes now p) = last_event_ts p"
  "market_data_stale (cancel_resting_quotes now p) = market_data_stale p"
  "slot s (cancel_resting_quotes now p) = None"
  by (auto simp: cancel_resting_quotes_def)

lemma apply_report_keeps [simp, keeps]:
  "p_book (apply_report r p) = p_book p" "p_micro (apply_report r p) = p_micro p"
  "p_risk (apply_report r p) = p_risk p" "p_strategy (apply_report r p) = p_strategy p"
  "p_exec (apply_report r p) = p_exec p" "stale_threshold (apply_report r p) = stale_threshold p"
  "requote_threshold (apply_report r p) = requote_threshold p"
  "profile_stages (apply_report r p) = profile_stages p"
  "market_data_stale (apply_report r p) = market_data_stale p"
  "next_order_id (apply_report r p) = next_order_id p"
  "p_last_sequence (apply_report r p) = p_last_sequence p"
  "last_event_ts (apply_report r p) = last_event_ts p"
  "quotes_submitted (stats (apply_report r p)) = quotes_submitted (stats p)"
  "quotes_canceled (stats (apply_report r p)) = quotes_canceled (stats p)"
  by (simp_all add: apply_report_def Let_def)

lemma fold_apply_report_keeps [simp, keeps]:
  "p_book (fold apply_report rs p) = p_book p" "p_risk (fold apply_report rs p) = p_risk p"
  "p_exec (fold apply_report rs p) = p_exec p"
  "next_order_id (fold apply_report rs p) = next_order_id p"
  "quotes_submitted (stats (fold apply_report rs p)) = quotes_submitted (stats p)"
  "quotes_canceled (stats (fold apply_report rs p)) = quotes_canceled (stats p)"
  by (induction rs arbitrary: p) simp_all

end
