(* ===== verification/Pipeline_Invariant.thy ===== *)
theory Pipeline_Invariant
  imports Pipeline
begin

text \<open>
  The invariant of the pipeline and its consequences: the resting quotes are exactly the open
  orders of the execution engine, the statistics agree with the engine's counters, and the
  position together with everything still open stays within the position limit of the risk
  engine.  Every operation is shown to preserve it, then every step, then every run.
\<close>

section \<open>The invariant\<close>

text \<open>A resting quote is an open order of the engine with the same side, price and size.\<close>

definition quote_ok :: "side \<Rightarrow> 'g pipeline \<Rightarrow> bool" where
  "quote_ok s p \<longleftrightarrow> (case slot s p of None \<Rightarrow> True | Some q \<Rightarrow>
     (case get_order (rq_id q) (p_exec p) of None \<Rightarrow> False | Some o' \<Rightarrow>
        o_side o' = s \<and> o_price o' = rq_price q \<and> o_quantity o' = rq_size q
        \<and> o_symbol o' = ob_symbol (p_book p)))"

definition tracked :: "'g pipeline \<Rightarrow> bool" where
  "tracked p \<longleftrightarrow> (\<forall>i. get_order i (p_exec p) \<noteq> None \<longrightarrow>
     (\<exists>s q. slot s p = Some q \<and> rq_id q = i))"

definition orders_ok :: "'g pipeline \<Rightarrow> bool" where
  "orders_ok p \<longleftrightarrow> venue_ok (p_exec p) \<and> quote_ok Buy p \<and> quote_ok Sell p \<and> tracked p
     \<and> (\<forall>i. get_order i (p_exec p) \<noteq> None \<longrightarrow> unat i \<le> quotes_submitted (stats p))
     \<and> next_order_id p = of_nat (quotes_submitted (stats p) + 1)"

definition counters_ok :: "'g pipeline \<Rightarrow> bool" where
  "counters_ok p \<longleftrightarrow> balanced (p_exec p)
     \<and> quotes_submitted (stats p) = total_submitted (p_exec p)
     \<and> quotes_canceled (stats p) = total_canceled (p_exec p)
     \<and> fills (stats p) = total_filled (p_exec p)
     \<and> partial_fills (stats p) = total_partial_fills (p_exec p)"

definition pos_of :: "'g pipeline \<Rightarrow> int" where
  "pos_of p = position (pf_state (p_portfolio p))"

definition exposure_ok :: "'g pipeline \<Rightarrow> bool" where
  "exposure_ok p \<longleftrightarrow> pos_of p + open_qty (p_exec p) Buy \<le> max_position (p_risk p)
     \<and> - max_position (p_risk p) \<le> pos_of p - open_qty (p_exec p) Sell"

text \<open>The invariant holds while fewer than \<open>2^64\<close> orders have been submitted, after which the
  64-bit order ids repeat; the position part needs a limit that doubles represent.\<close>

definition pipe_inv :: "'g pipeline \<Rightarrow> bool" where
  "pipe_inv p \<longleftrightarrow> book_ok (p_book p) \<and> (quotes_submitted (stats p) < 2 ^ 64 \<longrightarrow> orders_ok p \<and> counters_ok p
     \<and> (0 \<le> max_position (p_risk p) \<and> max_position (p_risk p) \<le> 2 ^ 52 \<longrightarrow> exposure_ok p))"

lemma pipe_inv_new: "pipe_inv (new_pipeline sd sy cfg)"
proof -
  have "engine_ok (new_engine (cfg_fill_assumptions cfg) sd)" by simp
  then show ?thesis
    by (simp add: pipe_inv_def orders_ok_def counters_ok_def exposure_ok_def new_pipeline_def
        venue_ok_def sides_ok_def quote_ok_def tracked_def slot_def get_order_def new_engine_def
        zero_stats_def balanced_def open_order_count_def pos_of_def new_portfolio_def flat_state_def
        open_qty_def)
qed

lemma pipe_inv_transfer:
  assumes "pipe_inv p" "book_ok (p_book p) \<Longrightarrow> book_ok (p_book p')"
    "ob_symbol (p_book p') = ob_symbol (p_book p)" "p_exec p' = p_exec p"
    "resting_bid p' = resting_bid p" "resting_ask p' = resting_ask p"
    "next_order_id p' = next_order_id p" "p_risk p' = p_risk p" "pos_of p' = pos_of p"
    "quotes_submitted (stats p') = quotes_submitted (stats p)"
    "quotes_canceled (stats p') = quotes_canceled (stats p)"
    "fills (stats p') = fills (stats p)" "partial_fills (stats p') = partial_fills (stats p)"
  shows "pipe_inv p'"
proof -
  have sl: "slot s p' = slot s p" for s by (simp add: slot_def assms)
  have "quote_ok s p' \<longleftrightarrow> quote_ok s p" for s unfolding quote_ok_def sl assms(3,4) ..
  moreover have "tracked p' \<longleftrightarrow> tracked p" unfolding tracked_def sl assms(4) ..
  ultimately show ?thesis
    using assms by (simp add: pipe_inv_def orders_ok_def counters_ok_def exposure_ok_def)
qed

lemma exposure_ok_covered:
  "exposure_ok p \<longleftrightarrow>
     insertion_order.venue.covered (max_position (p_risk p)) (pos_of p) (p_exec p)"
  by (simp add: exposure_ok_def insertion_order.venue.covered_def)

lemma quote_okE:
  assumes "quote_ok s p" "slot s p = Some q"
  obtains o' where "get_order (rq_id q) (p_exec p) = Some o'" "o_side o' = s" "o_price o' = rq_price q"
    "o_quantity o' = rq_size q" "o_symbol o' = ob_symbol (p_book p)"
  using assms by (auto simp: quote_ok_def split: option.splits)

lemma trackedE:
  assumes "orders_ok p" "get_order i (p_exec p) = Some o'"
  obtains s q where "s = Buy \<or> s = Sell" "slot s p = Some q" "rq_id q = i" "o_side o' = s"
proof -
  obtain s q where sq: "slot s p = Some q" "rq_id q = i"
    using assms unfolding orders_ok_def tracked_def by blast
  define s' where "s' = (if s = Buy then Buy else Sell)"
  have "slot s' p = Some q" "quote_ok s' p" "s' = Buy \<or> s' = Sell"
    using sq assms(1) by (auto simp: s'_def slot_def orders_ok_def split: if_splits)
  moreover from quote_okE [OF this(2,1)] have "o_side o' = s'" using sq(2) assms(2) by auto
  ultimately show thesis using that sq(2) by blast
qed

lemma slots_differ:
  assumes "orders_ok p" "slot s p = Some q" "slot s' p = Some q'" "s = Buy \<or> s = Sell"
    "s' = Buy \<or> s' = Sell" "s \<noteq> s'"
  shows "rq_id q \<noteq> rq_id q'"
proof
  assume eq: "rq_id q = rq_id q'"
  have "quote_ok s p" "quote_ok s' p" using assms by (auto simp: orders_ok_def)
  from quote_okE [OF this(1) assms(2)] quote_okE [OF this(2) assms(3)] eq assms(6) show False
    by (metis option.inject)
qed

lemma open_qty_no_slot:
  assumes "orders_ok p" "slot s p = None"
  shows "open_qty (p_exec p) s = 0"
proof -
  have "rem_on s (get_order i (p_exec p)) = 0" for i
  proof (cases "get_order i (p_exec p)")
    case (Some o')
    from assms(1) this show ?thesis
      by (rule trackedE) (use Some assms(2) in \<open>auto simp: rem_on_def\<close>)
  qed (simp add: rem_on_def)
  moreover have "engine_ok (p_exec p)" using assms(1) by (simp add: orders_ok_def venue_ok_def)
  ultimately show ?thesis by (simp add: open_qty_eq_sum)
qed

lemma open_iff_slot:
  assumes "orders_ok p"
  shows "get_order i (p_exec p) \<noteq> None \<longleftrightarrow>
    i \<in> rq_id ` (set_option (resting_bid p) \<union> set_option (resting_ask p))"
proof
  assume "get_order i (p_exec p) \<noteq> None"
  then obtain o' where "get_order i (p_exec p) = Some o'" by blast
  with assms show "i \<in> rq_id ` (set_option (resting_bid p) \<union> set_option (resting_ask p))"
    by (rule trackedE) (auto simp: slot_def split: if_splits)
next
  assume "i \<in> rq_id ` (set_option (resting_bid p) \<union> set_option (resting_ask p))"
  moreover have "quote_ok Buy p" "quote_ok Sell p" using assms by (simp_all add: orders_ok_def)
  ultimately show "get_order i (p_exec p) \<noteq> None"
    by (auto simp: quote_ok_def slot_def split: option.splits)
qed

lemma open_count_slots:
  assumes "orders_ok p"
  shows "open_order_count (p_exec p) =
    (if resting_bid p = None then 0 else 1) + (if resting_ask p = None then 0 else 1)"
proof -
  have "open_order_count (p_exec p) =
      card (rq_id ` (set_option (resting_bid p) \<union> set_option (resting_ask p)))"
    using assms open_count_card [of "p_exec p"] open_iff_slot [OF assms]
    by (simp add: orders_ok_def venue_ok_def)
  moreover have "\<forall>a b. resting_bid p = Some a \<and> resting_ask p = Some b \<longrightarrow> rq_id a \<noteq> rq_id b"
    using slots_differ [OF assms, of Buy _ Sell] by (simp add: slot_def)
  ultimately show ?thesis
    by (cases "resting_bid p"; cases "resting_ask p") (auto simp: card_insert_if)
qed

section \<open>Cancelling keeps the invariant\<close>

lemma cancel_counters:
  assumes "get_order i e \<noteq> None"
  shows "total_canceled (snd (cancel i now e)) = total_canceled e + 1"
    "total_submitted (snd (cancel i now e)) = total_submitted e"
    "total_filled (snd (cancel i now e)) = total_filled e"
    "total_partial_fills (snd (cancel i now e)) = total_partial_fills e"
  using assms by (auto simp: cancel_def get_order_def)

lemma orders_ok_cancel_side:
  assumes "orders_ok p" "s = Buy \<or> s = Sell"
  shows "orders_ok (cancel_side s now p)"
proof (cases "slot s p")
  case None
  then show ?thesis using assms by (simp add: cancel_side_def)
next
  case (Some q)
  let ?p = "cancel_side s now p"
  have e: "p_exec ?p = snd (cancel (rq_id q) now (p_exec p))"
    using Some by (simp add: cancel_side_def Let_def)
  have "venue_ok (p_exec ?p)"
    unfolding e using assms(1) by (intro insertion_order.venue.ok_withdraw) (simp add: orders_ok_def)
  moreover have "quote_ok s' ?p" if s': "s' = Buy \<or> s' = Sell" for s'
  proof (cases "s' = s \<or> slot s' p = None")
    case True
    then show ?thesis using assms(2) by (auto simp: quote_ok_def)
  next
    case False
    then obtain q' where q': "slot s' p = Some q'" by blast
    have "rq_id q' \<noteq> rq_id q" using slots_differ [OF assms(1) q' Some s' assms(2)] False by blast
    moreover have "quote_ok s' p" using assms(1) s' by (auto simp: orders_ok_def)
    ultimately show ?thesis
      using q' False s' assms(2) by (auto simp: quote_ok_def e get_order_cancel split: option.splits)
  qed
  moreover have "tracked ?p" unfolding tracked_def
  proof (intro allI impI)
    fix i assume "get_order i (p_exec ?p) \<noteq> None"
    then have "i \<noteq> rq_id q" "get_order i (p_exec p) \<noteq> None"
      by (auto simp: e get_order_cancel split: if_splits)
    then obtain o' where "get_order i (p_exec p) = Some o'" by blast
    with assms(1) show "\<exists>s q. slot s ?p = Some q \<and> rq_id q = i"
    proof (rule trackedE)
      fix s' q' assume *: "s' = Buy \<or> s' = Sell" "slot s' p = Some q'" "rq_id q' = i"
      then have "s' \<noteq> s" using Some \<open>i \<noteq> rq_id q\<close> by auto
      then show ?thesis using * assms(2) by (intro exI [of _ s'] exI [of _ q']) auto
    qed
  qed
  moreover have "unat i \<le> quotes_submitted (stats ?p)" if "get_order i (p_exec ?p) \<noteq> None" for i
    using that assms(1) by (auto simp: e get_order_cancel orders_ok_def split: if_splits)
  ultimately show ?thesis using assms(1) by (simp add: orders_ok_def)
qed

lemma counters_ok_cancel_side:
  assumes "orders_ok p" "counters_ok p" "s = Buy \<or> s = Sell"
  shows "counters_ok (cancel_side s now p)"
proof (cases "slot s p")
  case (Some q)
  have "quote_ok s p" using assms by (auto simp: orders_ok_def)
  from quote_okE [OF this Some] have "get_order (rq_id q) (p_exec p) \<noteq> None" by auto
  note c = cancel_counters [OF this, of now]
  have "balanced (snd (cancel (rq_id q) now (p_exec p)))"
    using assms by (intro balanced_cancel) (simp_all add: orders_ok_def venue_ok_def counters_ok_def)
  then show ?thesis
    using assms(2) Some c by (simp add: counters_ok_def cancel_side_def Let_def)
qed (use assms in \<open>simp add: cancel_side_def\<close>)

lemma pipe_inv_cancel_side [preserved]:
  assumes "pipe_inv p" "s = Buy \<or> s = Sell"
  shows "pipe_inv (cancel_side s now p)"
proof -
  have "exposure_ok (cancel_side s now p)" if "orders_ok p" "exposure_ok p"
  proof (cases "slot s p")
    case (Some q)
    then show ?thesis
      using that insertion_order.venue.covered_withdraw [of "p_exec p"]
      by (simp add: exposure_ok_covered cancel_side_def Let_def orders_ok_def pos_of_def)
  qed (use that in \<open>simp add: cancel_side_def\<close>)
  then show ?thesis
    using assms by (simp add: pipe_inv_def orders_ok_cancel_side counters_ok_cancel_side)
qed

lemma pipe_inv_cancel_resting_quotes [preserved]:
  "pipe_inv p \<Longrightarrow> pipe_inv (cancel_resting_quotes now p)"
  by (simp add: cancel_resting_quotes_def pipe_inv_cancel_side)

lemma ob_symbol_clear [simp]: "ob_symbol (clear b) = ob_symbol b"
  by (simp add: clear_def)

lemma pipe_inv_resync [preserved]: "pipe_inv p \<Longrightarrow> pipe_inv (resync now p)"
  unfolding resync_def Let_def
  by (rule pipe_inv_transfer [OF pipe_inv_cancel_resting_quotes])
     (simp_all add: book_ok_clear pos_of_def)

section \<open>Submitting keeps the invariant\<close>

lemma submit_keeps [simp, keeps]:
  "p_book (submit s px sz ref now p) = p_book p" "p_risk (submit s px sz ref now p) = p_risk p"
  "p_portfolio (submit s px sz ref now p) = p_portfolio p"
  by (simp_all add: submit_def Let_def)

lemma submit_cases:
  obtains
    (rejected) "submit s px sz ref now p =
      p\<lparr>stats := (stats p)\<lparr>risk_rejects := risk_rejects (stats p) + 1\<rparr>\<rparr>"
  | (accepted) p' where "p' = submit s px sz ref now p" "0 < sz"
      "\<bar>pos_of p + signed_qty s sz\<bar> \<le> max_position (p_risk p)"
      "p_exec p' = snd (submit_limit (next_order_id p) (ob_symbol (p_book p)) s px sz now (p_exec p))"
      "next_order_id p' = next_order_id p + 1"
      "\<And>s'. slot s' p' = (if (s' = Buy) = (s = Buy)
         then Some \<lparr>rq_id = next_order_id p, rq_price = px, rq_size = sz\<rparr> else slot s' p)"
      "quotes_submitted (stats p') = quotes_submitted (stats p) + 1"
      "quotes_canceled (stats p') = quotes_canceled (stats p)"
      "fills (stats p') = fills (stats p)" "partial_fills (stats p') = partial_fills (stats p)"
proof -
  let ?i = "\<lparr>order_quantity = sz, order_side = s, reference_price = ref,
     current_position = position (pf_state (p_portfolio p)),
     current_daily_pnl = total_pnl (pf_state (p_portfolio p)),
     current_open_orders = open_order_count (p_exec p), input_stale = market_data_stale p\<rparr>"
  show thesis
  proof (cases "risk_check (p_risk p) ?i = Approved")
    case False
    then show thesis by (intro rejected) (simp add: submit_def)
  next
    case True
    then have "0 < sz" "\<bar>pos_of p + signed_qty s sz\<bar> \<le> max_position (p_risk p)"
      by (simp_all add: risk_check_Approved pos_of_def signed_delta_def signed_qty_def)
    with True show thesis by (intro accepted [OF refl]) (simp_all add: submit_def Let_def)
  qed
qed

lemma fresh_id:
  assumes "orders_ok p" "quotes_submitted (stats p) + 1 < 2 ^ 64"
  shows "get_order (next_order_id p) (p_exec p) = None"
    "unat (next_order_id p) = quotes_submitted (stats p) + 1"
proof -
  show n: "unat (next_order_id p) = quotes_submitted (stats p) + 1"
    using assms by (intro of_nat_inverse) (simp_all add: orders_ok_def)
  show "get_order (next_order_id p) (p_exec p) = None"
    using assms(1) n unfolding orders_ok_def by (metis Suc_eq_plus1 not_less_eq_eq order_refl)
qed

lemma pipe_inv_submit [preserved]:
  assumes "pipe_inv p" "slot s p = None" "s = Buy \<or> s = Sell"
  shows "pipe_inv (submit s px sz ref now p)"
proof (cases rule: submit_cases [of s px sz ref now p])
  case rejected
  then show ?thesis using assms(1) by (auto elim!: pipe_inv_transfer simp: pos_of_def)
next
  case (accepted p')
  let ?n = "next_order_id p" and ?e' = "p_exec p'"
  have frame: "p_book p' = p_book p" "p_risk p' = p_risk p" "p_portfolio p' = p_portfolio p"
    by (simp_all add: accepted(1))
  have main: "orders_ok p' \<and> counters_ok p' \<and> (exposure_ok p \<longrightarrow> exposure_ok p')"
    if few: "quotes_submitted (stats p) + 1 < 2 ^ 64"
  proof -
    have ok: "orders_ok p" "counters_ok p" using assms(1) few by (simp_all add: pipe_inv_def)
    have e: "venue_ok (p_exec p)" "engine_ok (p_exec p)"
      using ok(1) by (simp_all add: orders_ok_def venue_ok_def)
    note new = fresh_id [OF ok(1) few]
    have g: "get_order i ?e' = None \<longleftrightarrow> i \<noteq> ?n \<and> get_order i (p_exec p) = None" for i
      by (simp add: accepted(4) get_order_submit)
    have "venue_ok ?e'" unfolding accepted(4) using e(1) accepted(2) assms(3) by (rule venue_ok_submit)
    moreover have "quote_ok s' p'" if s': "s' = Buy \<or> s' = Sell" for s'
    proof (cases "s' = s")
      case True
      then show ?thesis by (simp add: quote_ok_def accepted(4,6) get_order_submit frame)
    next
      case False
      have "quote_ok s' p" using ok(1) s' by (auto simp: orders_ok_def)
      then show ?thesis
        using False s' assms(3) new(1)
        by (auto simp: quote_ok_def accepted(4,6) get_order_submit frame split: option.splits)
    qed
    moreover have "tracked p'" unfolding tracked_def
    proof (intro allI impI)
      fix i assume i: "get_order i ?e' \<noteq> None"
      show "\<exists>s q. slot s p' = Some q \<and> rq_id q = i"
      proof (cases "i = ?n")
        case True
        then show ?thesis by (intro exI [of _ s]) (simp add: accepted(6))
      next
        case False
        then obtain o' where "get_order i (p_exec p) = Some o'" using i g by auto
        with ok(1) show ?thesis
        proof (rule trackedE)
          fix s' q assume *: "s' = Buy \<or> s' = Sell" "slot s' p = Some q" "rq_id q = i"
          then have "s' \<noteq> s" using assms(2) by auto
          then show ?thesis using * assms(3) by (intro exI [of _ s'] exI [of _ q]) (auto simp: accepted(6))
        qed
      qed
    qed
    moreover have "unat i \<le> quotes_submitted (stats p')" if "get_order i ?e' \<noteq> None" for i
      using that g [of i] ok(1) new(2) by (cases "i = ?n") (auto simp: accepted(7) orders_ok_def)
    ultimately have "orders_ok p'"
      using ok(1) by (simp add: orders_ok_def accepted(5,7))
    moreover have "counters_ok p'"
      using ok(2) balanced_submit [OF e(2) _ accepted(2) new(1)]
      by (simp add: counters_ok_def accepted(4,7-) submit_limit_def Let_def)
    moreover have "exposure_ok p'" if "exposure_ok p"
      using that insertion_order.venue.covered_submit [OF e(1) _ accepted(2) _
          open_qty_no_slot [OF ok(1) assms(2)] accepted(3) assms(3)] new(1)
      by (simp add: exposure_ok_covered accepted(4) frame pos_of_def)
    ultimately show ?thesis by blast
  qed
  have "book_ok (p_book p')" using assms(1) by (simp add: frame pipe_inv_def)
  moreover have "exposure_ok p" if "quotes_submitted (stats p) + 1 < 2 ^ 64"
    "0 \<le> max_position (p_risk p')" "max_position (p_risk p') \<le> 2 ^ 52"
    using that assms(1) by (simp add: pipe_inv_def frame)
  ultimately have "pipe_inv p'" using main by (simp add: pipe_inv_def accepted(7))
  then show ?thesis by (simp add: accepted(1))
qed

section \<open>Market events keep the invariant\<close>

lemma slot_fold_reports:
  "slot s (fold apply_report rs p) = (case slot s p of None \<Rightarrow> None | Some q \<Rightarrow>
     if \<exists>r \<in> set rs. rep_status r = Filled \<and> rep_order_id r = rq_id q then None else Some q)"
proof (induction rs arbitrary: p)
  case Nil
  show ?case by (simp split: option.split)
next
  case (Cons r rs)
  have "slot s (apply_report r p) = (case slot s p of None \<Rightarrow> None | Some q \<Rightarrow>
      if rep_status r = Filled \<and> rep_order_id r = rq_id q then None else Some q)"
    by (auto simp: slot_def apply_report_def Let_def split: option.split)
  then show ?case using Cons by (auto split: option.split)
qed

lemma fills_fold_reports:
  assumes "\<forall>r \<in> set rs. 0 < rep_fill_quantity r"
  shows "fills (stats (fold apply_report rs p)) = fills (stats p) + length rs"
    "partial_fills (stats (fold apply_report rs p)) =
       partial_fills (stats p) + length (filter (\<lambda>r. rep_status r = PartiallyFilled) rs)"
  using assms
proof (induction rs arbitrary: p)
  case (Cons r rs)
  { case 1
    have "fills (stats (apply_report r p)) = fills (stats p) + 1"
      using 1 by (simp add: apply_report_def Let_def)
    then show ?case using Cons(1) 1 by simp
  next
    case 2
    have "partial_fills (stats (apply_report r p)) =
        partial_fills (stats p) + (if rep_status r = PartiallyFilled then 1 else 0)"
      using 2 by (simp add: apply_report_def Let_def)
    then show ?case using Cons(2) 2 by simp }
qed simp_all

lemma net_fills_Cons: "net_fills (r # rs) = signed_qty (rep_side r) (rep_fill_quantity r) + net_fills rs"
  by (simp add: net_fills_def)

lemma pos_fold_reports:
  assumes "\<forall>r \<in> set rs. 0 < rep_fill_quantity r" "\<And>k. \<bar>pos_of p + net_fills (take k rs)\<bar> \<le> 2 ^ 52"
  shows "pos_of (fold apply_report rs p) = pos_of p + net_fills rs"
  using assms
proof (induction rs arbitrary: p)
  case Nil
  show ?case by (simp add: net_fills_def)
next
  case (Cons r rs)
  let ?d = "signed_qty (rep_side r) (rep_fill_quantity r)"
  have b: "\<bar>pos_of p\<bar> \<le> 2 ^ 52" "\<bar>pos_of p + ?d\<bar> \<le> 2 ^ 52"
    using Cons.prems(2) [of 0] Cons.prems(2) [of 1] by (simp_all add: net_fills_def)
  then have "\<bar>rep_fill_quantity r\<bar> \<le> 2 ^ 53" by (auto simp: signed_qty_def split: if_splits)
  with b have "position (pf_state (on_fill (rep_side r) (rep_fill_price r) (rep_fill_quantity r)
      (p_portfolio p))) = pos_of p + ?d"
    unfolding pos_of_def by (intro on_fill_position) simp_all
  then have pos: "pos_of (apply_report r p) = pos_of p + ?d"
    using Cons.prems(1) by (simp add: pos_of_def apply_report_def Let_def)
  have "\<bar>pos_of (apply_report r p) + net_fills (take k rs)\<bar> \<le> 2 ^ 52" for k
    using Cons.prems(2) [of "Suc k"] by (simp add: pos net_fills_Cons add.assoc)
  then show ?case using Cons.IH Cons.prems(1) by (simp add: pos net_fills_Cons)
qed

lemma run_execution_frame [simp, keeps]:
  "p_book (run_execution env ev p) = p_book p" "p_risk (run_execution env ev p) = p_risk p"
  "next_order_id (run_execution env ev p) = next_order_id p"
  "quotes_submitted (stats (run_execution env ev p)) = quotes_submitted (stats p)"
  by (simp_all add: run_execution_def split: prod.split)

lemma orders_ok_run_execution:
  assumes "orders_ok p" "valid_iter (env_iter env)"
  shows "orders_ok (run_execution env ev p)"
proof -
  obtain rs e' where ev: "on_market_event (env_draw env) (env_iter env) ev (p_exec p) = (rs, e')"
    by fastforce
  have e: "venue_ok (p_exec p)" "engine_ok (p_exec p)" using assms(1) by (simp_all add: orders_ok_def venue_ok_def)
  let ?p = "run_execution env ev p"
  have x: "p_exec ?p = e'" by (simp add: run_execution_def ev)
  have sl: "slot s ?p = (case slot s p of None \<Rightarrow> None | Some q \<Rightarrow>
      if \<exists>r \<in> set rs. rep_status r = Filled \<and> rep_order_id r = rq_id q then None else Some q)" for s
    by (simp add: run_execution_def ev slot_fold_reports)
  have uniq: "r = r'" if "r \<in> set rs" "r' \<in> set rs" "rep_order_id r = rep_order_id r'" for r r'
    using on_market_event_effect(1) [OF e(2) assms(2) ev] that
    by (auto simp: distinct_map dest: inj_onD)
  have surv: "get_order i e' = None \<longleftrightarrow>
      get_order i (p_exec p) = None \<or> (\<exists>r \<in> set rs. rep_status r = Filled \<and> rep_order_id r = i)" for i
    using e(2) assms(2) ev
  proof (cases rule: get_order_event [where i = i])
    case (hit r o')
    then have "rep_status r = Filled \<longleftrightarrow> rep_remaining r = 0" by (simp add: good_fill_def)
    then show ?thesis using hit uniq by auto
  qed auto
  have "venue_ok e'" using hash_engine.event_ok [OF hash_engine.intro [OF assms(2)] e(1) ev] .
  moreover have "quote_ok s ?p" if s: "s = Buy \<or> s = Sell" for s
  proof (cases "slot s ?p")
    case (Some q)
    then have q: "slot s p = Some q" "get_order (rq_id q) (p_exec p) \<noteq> None \<Longrightarrow> get_order (rq_id q) e' \<noteq> None"
      using surv [of "rq_id q"] by (auto simp: sl split: option.splits if_splits)
    have "quote_ok s p" using assms(1) s by (auto simp: orders_ok_def)
    from quote_okE [OF this q(1)] obtain o' where o': "get_order (rq_id q) (p_exec p) = Some o'"
      "o_side o' = s" "o_price o' = rq_price q" "o_quantity o' = rq_size q"
      "o_symbol o' = ob_symbol (p_book p)" by blast
    from e(2) assms(2) ev have "\<exists>o''. get_order (rq_id q) e' = Some o'' \<and> o_side o'' = s
        \<and> o_price o'' = rq_price q \<and> o_quantity o'' = rq_size q \<and> o_symbol o'' = ob_symbol (p_book p)"
      by (cases rule: get_order_event [where i = "rq_id q"])
         (use q(2) o' in \<open>auto simp: filled_order_def split: if_splits\<close>)
    then show ?thesis using Some by (auto simp: quote_ok_def x)
  qed (simp add: quote_ok_def)
  moreover have "tracked ?p" unfolding tracked_def
  proof (intro allI impI)
    fix i assume i: "get_order i (p_exec ?p) \<noteq> None"
    then have "get_order i (p_exec p) \<noteq> None" "tracked p"
      using surv [of i] assms(1) by (simp_all add: x orders_ok_def)
    then obtain s q where "slot s p = Some q" "rq_id q = i" unfolding tracked_def by blast
    then show "\<exists>s q. slot s ?p = Some q \<and> rq_id q = i"
      using i surv [of i] by (intro exI [of _ s] exI [of _ q]) (auto simp: sl x)
  qed
  ultimately show ?thesis
    using assms(1) surv by (auto simp: orders_ok_def x)
qed

lemma pipe_inv_run_execution [preserved]:
  assumes "pipe_inv p" "valid_iter (env_iter env)"
  shows "pipe_inv (run_execution env ev p)"
proof -
  obtain rs e' where ev: "on_market_event (env_draw env) (env_iter env) ev (p_exec p) = (rs, e')"
    by fastforce
  let ?p = "run_execution env ev p" and ?M = "max_position (p_risk p)"
  have run: "?p = fold apply_report rs (p\<lparr>p_exec := e'\<rparr>)" by (simp add: run_execution_def ev)
  note he = hash_engine.intro [OF assms(2)]
  have "counters_ok ?p \<and> (?M \<le> 2 ^ 52 \<and> exposure_ok p \<longrightarrow> exposure_ok ?p)"
    if ok: "orders_ok p" "counters_ok p"
  proof -
    have e: "venue_ok (p_exec p)" "engine_ok (p_exec p)" using ok(1) by (simp_all add: orders_ok_def venue_ok_def)
    have pos: "\<forall>r \<in> set rs. 0 < rep_fill_quantity r"
      using hash_engine.event_two_sided [OF he e(1) ev] by (simp add: two_sided_def)
    have "balanced e'" using balanced_event [OF e(2) _ assms(2) ev] ok(2) by (simp add: counters_ok_def)
    then have "counters_ok ?p"
      using ok(2) on_market_event_effect(5-8) [OF e(2) assms(2) ev]
      by (simp add: counters_ok_def run fills_fold_reports [OF pos])
    moreover have "exposure_ok ?p" if M: "?M \<le> 2 ^ 52" and ex: "exposure_ok p"
    proof -
      have c: "insertion_order.venue.covered ?M (pos_of p) (p_exec p)"
        using ex by (simp only: exposure_ok_covered)
      have "on_market_event (env_draw env) (env_iter env) ev (p_exec p) = (take k rs @ drop k rs, e')" for k
        using ev by simp
      from hash_engine.event_covered_prefix [OF he e(1) c this] M
      have "\<bar>pos_of (p\<lparr>p_exec := e'\<rparr>) + net_fills (take k rs)\<bar> \<le> 2 ^ 52" for k
        by (simp add: pos_of_def) (meson order_trans)
      from pos_fold_reports [OF pos this] hash_engine.event_covered [OF he e(1) c ev]
      show ?thesis by (simp add: exposure_ok_covered run) (simp add: pos_of_def)
    qed
    ultimately show ?thesis by blast
  qed
  then show ?thesis
    using assms by (auto simp: pipe_inv_def orders_ok_run_execution)
qed

section \<open>Steps and runs keep the invariant\<close>

lemma pipe_inv_stats [simp]:
  "pipe_inv (p\<lparr>stats := (stats p)\<lparr>events_processed := n\<rparr>\<rparr>) = pipe_inv p"
  "pipe_inv (p\<lparr>stats := (stats p)\<lparr>out_of_order_dropped := n\<rparr>\<rparr>) = pipe_inv p"
  "pipe_inv (p\<lparr>stats := (stats p)\<lparr>crossed_book_events := n\<rparr>\<rparr>) = pipe_inv p"
  "pipe_inv (p\<lparr>stats := (stats p)\<lparr>decision_latency := l\<rparr>\<rparr>) = pipe_inv p"
  "pipe_inv (p\<lparr>stats := (stats p)\<lparr>book_update_latency := l, execution_latency := l'\<rparr>\<rparr>) = pipe_inv p"
  "pipe_inv (p\<lparr>market_data_stale := b, stats := (stats p)\<lparr>clock_stale_events := n\<rparr>\<rparr>) = pipe_inv p"
  by (rule iffI; erule pipe_inv_transfer; simp add: pos_of_def)+

lemma pipe_inv_accept_event [preserved]:
  assumes "pipe_inv p"
  shows "pipe_inv (accept_event ev p)"
proof -
  define p2 where "p2 = p\<lparr>p_last_sequence := Some (ev_sequence ev), last_event_ts := Some (ev_timestamp ev),
      market_data_stale := False, stats := (stats p)\<lparr>
        sequence_gaps := (if is_gap ev p then sequence_gaps (stats p) + 1 else sequence_gaps (stats p)),
        stale_resets := (if is_late (ev_timestamp ev) p then stale_resets (stats p) + 1
                         else stale_resets (stats p))\<rparr>\<rparr>"
  have eq: "accept_event ev p =
      (if is_gap ev p \<or> is_late (ev_timestamp ev) p then resync (ev_timestamp ev) p2 else p2)"
    by (simp add: accept_event_def Let_def p2_def)
  have "pipe_inv p2" using assms by (rule pipe_inv_transfer) (simp_all add: p2_def pos_of_def)
  then show ?thesis by (simp add: eq pipe_inv_resync)
qed

lemma pipe_inv_update_market [preserved]:
  assumes "pipe_inv p"
  shows "pipe_inv (update_market env ev p)"
  using assms
  by (rule pipe_inv_transfer)
     (simp_all add: update_market_def Let_def book_ok_apply_event ob_symbol_apply_event pos_of_def)

lemma pipe_inv_mark_portfolio [preserved]:
  assumes "pipe_inv p"
  shows "pipe_inv (mark_portfolio p)"
  using assms
  by (rule pipe_inv_transfer)
     (simp_all add: mark_portfolio_def pos_of_def mark_to_market_position split: option.split)

lemma pipe_inv_replace_side [preserved]:
  assumes "pipe_inv p" "s = Buy \<or> s = Sell"
  shows "pipe_inv (replace_side s w px sz th ref now p)"
  using assms unfolding replace_side_def
  by (simp add: pipe_inv_submit [OF pipe_inv_cancel_side])

lemma pipe_inv_requote [preserved]: "pipe_inv p \<Longrightarrow> pipe_inv (requote env el now p)"
  by (simp add: requote_def Let_def pipe_inv_replace_side pipe_inv_cancel_side)

lemma pipe_inv_ingest [preserved]:
  assumes "pipe_inv p" "valid_iter (env_iter env)"
  shows "pipe_inv (ingest env tm ev p)"
  using assms unfolding ingest_def Let_def
  by (simp add: pipe_inv_mark_portfolio pipe_inv_run_execution pipe_inv_update_market
      pipe_inv_accept_event)

lemma pipe_inv_count_event [simp]: "pipe_inv (count_event p) = pipe_inv p"
  by (simp add: count_event_def)

lemma pipe_inv_process [preserved]:
  assumes "pipe_inv p" "valid_iter (env_iter env)"
  shows "pipe_inv (process env tm ev p)"
  using assms
  by (simp add: process_def Let_def pipe_inv_cancel_resting_quotes pipe_inv_requote pipe_inv_ingest)

lemma pipe_inv_on_clock [preserved]: "pipe_inv p \<Longrightarrow> pipe_inv (on_clock now p)"
  by (simp add: on_clock_def pipe_inv_cancel_resting_quotes)

lemma pipe_inv_reachable:
  assumes "reachable env (new_pipeline sd sy cfg) p" "valid_iter (env_iter env)"
  shows "pipe_inv p"
  using assms
proof (induction rule: reachable.induct)
  case start
  show ?case by (rule pipe_inv_new)
next
  case (step p p')
  then show ?case by (auto elim!: pipe_stepE simp: pipe_inv_process pipe_inv_on_clock)
qed

end
