(* ===== verification/Pipeline_Properties.thy ===== *)
theory Pipeline_Properties
  imports Pipeline_Invariant
begin

text \<open>
  What the pipeline guarantees, as properties of runs and of single steps: the position limit,
  the agreement of quotes, orders and statistics, the feed-integrity policy stated in the
  header of \<open>src/common/pipeline.hpp\<close>, and independence from measured time.
\<close>

section \<open>A concrete run\<close>

text \<open>Two whole-dollar quotes build a two-sided book, on which the strategy quotes both sides.\<close>

definition demo_env :: "unit env" where
  "demo_env = \<lparr>env_draw = (\<lambda>lo hi g. (lo, g)), env_iter = (\<lambda>ks. ks), env_log = (\<lambda>x. x),
     env_sqrt = (\<lambda>x. x)\<rparr>"

definition demo_cfg :: pipeline_config where
  "demo_cfg = \<lparr>cfg_risk_limits = default_risk_limits, cfg_strategy = wide_config,
     cfg_fill_assumptions = default_fill_assumptions, cfg_profile_stages = False\<rparr>"

definition demo_start :: "unit pipeline" where
  "demo_start = new_pipeline (\<lambda>_. ()) ''AAPL'' demo_cfg"

definition demo_tm :: timings where
  "demo_tm = \<lparr>book_ns = 0, exec_ns = 0, decision_ns = 0\<rparr>"

definition demo_bid :: market_event where
  "demo_bid = make_quote 1 1 ''AAPL'' Buy (Price 990000) 10"

definition demo_ask :: market_event where
  "demo_ask = make_quote 2 2 ''AAPL'' Sell (Price 1010000) 10"

definition demo_one :: "unit pipeline" where
  "demo_one = process demo_env demo_tm demo_bid demo_start"

definition demo_two :: "unit pipeline" where
  "demo_two = process demo_env demo_tm demo_ask demo_one"

lemmas run_eval = process_def count_event_def is_duplicate_def ingest_def accept_event_def
  is_gap_def is_late_def update_market_def run_execution_def mark_portfolio_def requote_def
  apply_event_def upsert_def upsert_levels_def find_position_def lower_bound_def lb.simps
  on_book_update_def on_market_event_def mid_price_def best_bid_def best_ask_def crossed_def
  Let_def make_quote_def

lemmas demo_defs = demo_start_def demo_env_def demo_cfg_def demo_bid_def demo_ask_def demo_tm_def
  new_pipeline_def zero_stats_def new_engine_def new_book_def default_micro_def new_micro_def

lemma demo_one_eval:
  "demo_one = demo_start\<lparr>p_book := (p_book demo_start)\<lparr>bids := [\<lparr>lvl_price = Price 990000, lvl_quantity = 10\<rparr>],
       last_sequence := 1, last_update_time := 1\<rparr>,
     p_last_sequence := Some 1, last_event_ts := Some 1,
     stats := (stats demo_start)\<lparr>events_processed := 1, decision_latency := add_ns 0 new_stats\<rparr>\<rparr>"
  by (simp add: demo_one_def run_eval demo_defs decide_def no_quote_def cancel_side_def slot_def
      replace_side_def)

lemma demo_prices: "from_double (Fin 50) = Price 500000" "from_double (Fin 150) = Price 1500000"
  using rnd_dyadic [of "1000001 / 2" 1 1000001] rnd_dyadic [of "3000001 / 2" 1 3000001]
  by (simp_all add: from_double_def from_ticks_def kScale_def fp_eval trunc_rat_def floor_eq_iff
      int64_ok_def)

lemma wide_sizes: "tapered_bid_size wide_config 0 = 10" "tapered_ask_size wide_config 0 = 10"
  using tapered_flat [of wide_config] by (simp_all add: wide_config_def default_strategy_config_def)

lemma wide_fields: "max_staleness_sec wide_config = Fin 5" "requote_threshold_bps wide_config = Fin 1"
  by (simp_all add: wide_config_def default_strategy_config_def)

lemma seq_2_1: "\<not> (2 :: u64) \<le> 1"
  by (simp add: word_le_nat_alt)

definition demo_book_two :: order_book where
  "demo_book_two = (p_book demo_start)\<lparr>bids := [\<lparr>lvl_price = Price 990000, lvl_quantity = 10\<rparr>],
     asks := [\<lparr>lvl_price = Price 1010000, lvl_quantity = 10\<rparr>], last_sequence := 2, last_update_time := 2\<rparr>"

lemma demo_ingest:
  "ingest demo_env demo_tm demo_ask (count_event demo_one) =
     demo_one\<lparr>p_book := demo_book_two,
       p_micro := default_micro\<lparr>last_mid := Some (Fin 100)\<rparr>,
       p_last_sequence := Some 2, last_event_ts := Some 2,
       stats := (stats demo_one)\<lparr>events_processed := 2\<rparr>\<rparr>"
  by (simp add: demo_one_eval run_eval demo_defs demo_book_two_def to_double_def
      kScale_def fp_eval mark_to_market_def new_portfolio_def flat_state_def
      wide_fields seconds_to_ns_def)

lemma demo_book_two_mid: "mid_price demo_book_two = Some (Fin 100)" "\<not> crossed demo_book_two"
  by (simp_all add: demo_book_two_def mid_price_def crossed_def best_bid_def best_ask_def to_double_def
      kScale_def fp_eval)

lemma demo_decision:
  "decide (\<lambda>x. x) wide_config demo_book_two (default_micro\<lparr>last_mid := Some (Fin 100)\<rparr>) 0 2 =
     \<lparr>quote_bid = True, quote_ask = True, bid_price = Price 500000, ask_price = Price 1500000,
      bid_size = 10, ask_size = 10\<rparr>"
  by (simp add: decide_def demo_book_two_mid wide_targets wide_sizes wide_fields demo_prices
      short_term_volatility_def staleness_sec_def default_micro_def new_micro_def)
     (simp add: demo_book_two_def)

lemma demo_one_fields:
  "p_strategy demo_one = wide_config" "p_portfolio demo_one = new_portfolio"
  "p_exec demo_one = new_engine default_fill_assumptions (\<lambda>_. ())" "p_risk demo_one = default_risk_limits"
  "next_order_id demo_one = 1" "resting_bid demo_one = None" "resting_ask demo_one = None"
  "market_data_stale demo_one = False" "quotes_submitted (stats demo_one) = 0"
  "stale_threshold demo_one = 5000000000" "p_last_sequence demo_one = Some 1"
  by (simp_all add: demo_one_eval demo_defs wide_fields seconds_to_ns_def fp_eval)

lemma demo_two_eval:
  "resting_bid demo_two = Some \<lparr>rq_id = 1, rq_price = Price 500000, rq_size = 10\<rparr>
   \<and> resting_ask demo_two = Some \<lparr>rq_id = 2, rq_price = Price 1500000, rq_size = 10\<rparr>
   \<and> quotes_submitted (stats demo_two) = 2
   \<and> p_last_sequence demo_two = Some 2 \<and> last_event_ts demo_two = Some 2
   \<and> stale_threshold demo_two = 5000000000 \<and> market_data_stale demo_two = False
   \<and> p_book demo_two = demo_book_two
   \<and> p_portfolio demo_two = new_portfolio
   \<and> p_exec demo_two = snd (submit_limit 2 ''AAPL'' Sell (Price 1500000) 10 2
        (snd (submit_limit 1 ''AAPL'' Buy (Price 500000) 10 2 (new_engine default_fill_assumptions (\<lambda>_. ())))))"
proof -
  define P where "P = ingest demo_env demo_tm demo_ask (count_event demo_one)"
  have ev: "ev_type demo_ask = Quote" "ev_timestamp demo_ask = 2" "decision_ns demo_tm = 0"
    "env_sqrt demo_env = (\<lambda>x. x)"
    by (simp_all add: demo_ask_def make_quote_def demo_tm_def demo_env_def)
  have "\<not> is_duplicate demo_ask (count_event demo_one)"
    by (simp add: is_duplicate_def count_event_def demo_one_fields demo_ask_def make_quote_def seq_2_1)
  moreover have "\<not> crossed (p_book P)" by (simp add: P_def demo_ingest demo_book_two_mid)
  ultimately have two: "demo_two = requote demo_env 0 2 P"
    by (simp add: demo_two_def process_def Let_def ev P_def)
  have f: "p_strategy P = wide_config" "p_portfolio P = new_portfolio" "p_book P = demo_book_two"
    "p_micro P = default_micro\<lparr>last_mid := Some (Fin 100)\<rparr>"
    "p_exec P = new_engine default_fill_assumptions (\<lambda>_. ())" "p_risk P = default_risk_limits"
    "next_order_id P = 1" "resting_bid P = None" "resting_ask P = None"
    "market_data_stale P = False" "quotes_submitted (stats P) = 0"
    "stale_threshold P = 5000000000" "p_last_sequence P = Some 2" "last_event_ts P = Some 2"
    by (simp_all add: P_def demo_ingest demo_one_fields)
  have pf: "position (pf_state new_portfolio) = 0" "total_pnl (pf_state new_portfolio) = Fin 0"
    by (simp_all add: new_portfolio_def flat_state_def)
  have none: "replace_side s True px 10 th (Fin 100) 2 Q = submit s px 10 (Fin 100) 2 Q"
    if "slot s Q = None" for s px th and Q :: "unit pipeline"
    using that by (simp add: replace_side_def needs_replace_def cancel_side_def)
  define B where "B = submit Buy (Price 500000) 10 (Fin 100) 2 P"
  have B: "resting_bid B = Some \<lparr>rq_id = 1, rq_price = Price 500000, rq_size = 10\<rparr>"
    "resting_ask B = None" "next_order_id B = 2" "open_order_count (p_exec B) = 1"
    "p_portfolio B = new_portfolio" "p_risk B = default_risk_limits" "market_data_stale B = False"
    "quotes_submitted (stats B) = 1" "p_last_sequence B = Some 2" "last_event_ts B = Some 2"
    "stale_threshold B = 5000000000" "p_book B = demo_book_two"
    by (simp_all add: B_def submit_def f pf risk_check_Approved default_risk_limits_def open_order_count_def
        new_engine_def fp_eval signed_delta_def Let_def set_slot_def submit_limit_def)
  have sy: "ob_symbol demo_book_two = ''AAPL''" by (simp add: demo_book_two_def demo_start_def new_pipeline_def new_book_def)
  have e: "p_exec B = snd (submit_limit 1 ''AAPL'' Buy (Price 500000) 10 2 (new_engine default_fill_assumptions (\<lambda>_. ())))"
    by (simp add: B_def submit_def f pf sy risk_check_Approved default_risk_limits_def open_order_count_def
        new_engine_def fp_eval signed_delta_def Let_def)
  have eq: "demo_two = (let q = submit Sell (Price 1500000) 10 (Fin 100) 2 B in
      q\<lparr>stats := (stats q)\<lparr>decision_latency := add_ns 0 (decision_latency (stats q))\<rparr>\<rparr>)"
    by (simp add: two requote_def f pf ev demo_decision demo_book_two_mid Let_def none slot_def B
        flip: B_def)
  show ?thesis unfolding eq
    by (simp add: submit_def B sy e [symmetric] pf risk_check_Approved default_risk_limits_def fp_eval signed_delta_def
        Let_def set_slot_def)
qed

lemma demo_two_reachable: "reachable demo_env demo_start demo_two"
  unfolding demo_two_def demo_one_def
  by (rule reachable.step [OF reachable.step [OF reachable.start pipe_step.event] pipe_step.event])

lemma demo_env_iter [simp]: "valid_iter (env_iter demo_env)"
  by (simp add: demo_env_def)

section \<open>The position limit\<close>

lemma submit_risk [simp]: "p_risk (submit s px sz ref now p) = p_risk p"
  by (rule submit_keeps)

lemma risk_keeps [simp, keeps]:
  "p_risk (accept_event ev p) = p_risk p" "p_risk (update_market env ev p) = p_risk p"
  "p_risk (mark_portfolio p) = p_risk p" "p_risk (count_event p) = p_risk p"
  "p_risk (replace_side s w px sz th ref now p) = p_risk p"
  by (simp_all add: accept_event_def resync_def update_market_def mark_portfolio_def count_event_def
      replace_side_def Let_def split: option.split)

lemma step_risk:
  assumes "pipe_step env p p'"
  shows "p_risk p' = p_risk p"
proof -
  have "p_risk (ingest env tm ev p) = p_risk p" "p_risk (requote env el now p) = p_risk p" for tm ev el now p
    by (simp_all add: ingest_def requote_def Let_def)
  with assms show ?thesis
    by (auto elim!: pipe_stepE simp: process_def on_clock_def Let_def)
qed

lemma reachable_risk: "reachable env p0 p \<Longrightarrow> p_risk p = p_risk p0"
  by (induction rule: reachable.induct) (simp_all add: step_risk)

lemma p_risk_new [simp]: "p_risk (new_pipeline sd sy cfg) = cfg_risk_limits cfg"
  by (simp add: new_pipeline_def)

text \<open>
  C1: in every state that any interleaving of market events and clock ticks can reach, the
  position respects the risk engine's position limit on both sides, and would still respect
  it if every order resting on one side were filled completely.  This holds for every event
  stream, every random sequence and every hash-map order, for limits up to \<open>2^52\<close> and fewer
  than \<open>2^64\<close> submitted orders.
\<close>

theorem position_limit_always:
  assumes "reachable env (new_pipeline sd sy cfg) p" "valid_iter (env_iter env)"
    "0 \<le> max_position (cfg_risk_limits cfg)" "max_position (cfg_risk_limits cfg) \<le> 2 ^ 52"
    "quotes_submitted (stats p) < 2 ^ 64"
  shows "\<bar>position (pf_state (p_portfolio p))\<bar> \<le> max_position (cfg_risk_limits cfg)
    \<and> position (pf_state (p_portfolio p)) + open_qty (p_exec p) Buy \<le> max_position (cfg_risk_limits cfg)
    \<and> - max_position (cfg_risk_limits cfg) \<le> position (pf_state (p_portfolio p)) - open_qty (p_exec p) Sell"
proof -
  have inv: "orders_ok p" "exposure_ok p"
    using pipe_inv_reachable [OF assms(1,2)] reachable_risk [OF assms(1)] assms(3-5)
    by (simp_all add: pipe_inv_def)
  then have "\<bar>pos_of p\<bar> \<le> max_position (p_risk p)"
    using insertion_order.venue.covered_position [of "p_exec p"]
    by (simp add: exposure_ok_covered orders_ok_def)
  then show ?thesis
    using inv(2) reachable_risk [OF assms(1)] by (simp add: exposure_ok_def pos_of_def)
qed

theorem position_limit_always_witness:
  "\<bar>position (pf_state (p_portfolio demo_two))\<bar> \<le> 1000
   \<and> position (pf_state (p_portfolio demo_two)) + open_qty (p_exec demo_two) Buy \<le> 1000
   \<and> resting_bid demo_two \<noteq> None"
  using position_limit_always [OF demo_two_reachable [unfolded demo_start_def] demo_env_iter]
  by (simp add: demo_cfg_def default_risk_limits_def demo_two_eval)

section \<open>Quotes, orders and statistics agree\<close>

text \<open>
  C8: in every reachable state the open orders of the execution engine are exactly the at
  most two quotes the pipeline believes to be resting: each resting quote is an open order
  of the same id, side, price, size and symbol with something left to fill, and every open
  order is one of them; the order book is well formed.
\<close>

theorem resting_quotes_are_open_orders:
  assumes "reachable env (new_pipeline sd sy cfg) p" "valid_iter (env_iter env)"
    "quotes_submitted (stats p) < 2 ^ 64"
  shows "book_ok (p_book p)
    \<and> (\<forall>i. get_order i (p_exec p) \<noteq> None \<longleftrightarrow>
         i \<in> rq_id ` (set_option (resting_bid p) \<union> set_option (resting_ask p)))
    \<and> (\<forall>s \<in> {Buy, Sell}. \<forall>q. slot s p = Some q \<longrightarrow> (\<exists>o'. get_order (rq_id q) (p_exec p) = Some o'
         \<and> o_side o' = s \<and> o_price o' = rq_price q \<and> o_quantity o' = rq_size q
         \<and> o_symbol o' = ob_symbol (p_book p) \<and> 0 < remaining_quantity o'))
    \<and> open_order_count (p_exec p) =
        (if resting_bid p = None then 0 else 1) + (if resting_ask p = None then 0 else 1)"
proof -
  have inv: "orders_ok p" "book_ok (p_book p)"
    using pipe_inv_reachable [OF assms(1,2)] assms(3) by (simp_all add: pipe_inv_def)
  have e: "engine_ok (p_exec p)" using inv(1) by (simp add: orders_ok_def venue_ok_def)
  have q: "\<exists>o'. get_order (rq_id q) (p_exec p) = Some o'
         \<and> o_side o' = s \<and> o_price o' = rq_price q \<and> o_quantity o' = rq_size q
         \<and> o_symbol o' = ob_symbol (p_book p) \<and> 0 < remaining_quantity o'"
    if s: "s \<in> {Buy, Sell}" "slot s p = Some q" for s q
  proof -
    have "quote_ok s p" using s(1) inv(1) by (auto simp: orders_ok_def)
    from quote_okE [OF this s(2)] show ?thesis using engine_ok_remaining [OF e] by metis
  qed
  note ids = open_iff_slot [OF inv(1)]
  from open_count_slots [OF inv(1)]
  show ?thesis using inv(2) ids q by blast
qed

theorem resting_quotes_are_open_orders_witness:
  "open_order_count (p_exec demo_two) = 2 \<and> get_order 2 (p_exec demo_two) \<noteq> None"
  using resting_quotes_are_open_orders [OF demo_two_reachable [unfolded demo_start_def] demo_env_iter]
  by (simp add: demo_two_eval)

text \<open>
  C14: in every reachable state the pipeline's statistics equal the execution engine's own
  counters, and every submitted quote is accounted for: submissions are cancellations plus
  complete fills (fills less partial fills) plus the orders still open.
\<close>

theorem every_quote_accounted_for:
  assumes "reachable env (new_pipeline sd sy cfg) p" "valid_iter (env_iter env)"
    "quotes_submitted (stats p) < 2 ^ 64"
  shows "quotes_submitted (stats p) = total_submitted (p_exec p)
    \<and> quotes_canceled (stats p) = total_canceled (p_exec p)
    \<and> fills (stats p) = total_filled (p_exec p)
    \<and> partial_fills (stats p) = total_partial_fills (p_exec p)
    \<and> quotes_submitted (stats p) + partial_fills (stats p) =
        quotes_canceled (stats p) + fills (stats p) + open_order_count (p_exec p)"
  using pipe_inv_reachable [OF assms(1,2)] assms(3)
  by (simp add: pipe_inv_def counters_ok_def balanced_def)

theorem every_quote_accounted_for_witness:
  "2 + partial_fills (stats demo_two) =
     quotes_canceled (stats demo_two) + fills (stats demo_two) + open_order_count (p_exec demo_two)"
  using every_quote_accounted_for [OF demo_two_reachable [unfolded demo_start_def] demo_env_iter]
  by (simp add: demo_two_eval)

end
