(* ===== verification/Pipeline_Feed.thy ===== *)
theory Pipeline_Feed
  imports Pipeline_Properties
begin

text \<open>
  The feed-integrity policy that the header comment of \<open>src/common/pipeline.hpp\<close> states:
  repeated and reordered events are dropped, gaps and stale data lead to a resync, a crossed
  book and a silent feed lead to no quotes; and the measured durations influence nothing but
  the latency statistics.
\<close>

section \<open>What a step does to book, sequence number and clock\<close>

lemma feed_keeps [simp, keeps]:
  "p_last_sequence (update_market env ev p) = p_last_sequence p"
  "p_last_sequence (mark_portfolio p) = p_last_sequence p"
  "p_last_sequence (submit s px sz ref now p) = p_last_sequence p"
  "last_event_ts (update_market env ev p) = last_event_ts p"
  "last_event_ts (mark_portfolio p) = last_event_ts p"
  "last_event_ts (submit s px sz ref now p) = last_event_ts p"
  "p_book (mark_portfolio p) = p_book p"
  "p_book (update_market env ev p) = apply_event ev (p_book p)"
  "p_exec (update_market env ev p) = p_exec p" "p_exec (mark_portfolio p) = p_exec p"
  "slot s' (update_market env ev p) = slot s' p" "slot s' (mark_portfolio p) = slot s' p"
  "market_data_stale (update_market env ev p) = market_data_stale p"
  "market_data_stale (mark_portfolio p) = market_data_stale p"
  by (auto simp: update_market_def mark_portfolio_def submit_def Let_def split: option.split)

lemma fold_report_feed [simp, keeps]:
  "p_last_sequence (fold apply_report rs p) = p_last_sequence p"
  "last_event_ts (fold apply_report rs p) = last_event_ts p"
  "market_data_stale (fold apply_report rs p) = market_data_stale p"
  by (induction rs arbitrary: p) simp_all

lemma run_execution_feed [simp, keeps]:
  "p_last_sequence (run_execution env ev p) = p_last_sequence p"
  "last_event_ts (run_execution env ev p) = last_event_ts p"
  "market_data_stale (run_execution env ev p) = market_data_stale p"
  by (simp_all add: run_execution_def split: prod.split)

lemma requote_feed [simp, keeps]:
  "p_last_sequence (requote env el now p) = p_last_sequence p"
  "last_event_ts (requote env el now p) = last_event_ts p"
  "p_book (requote env el now p) = p_book p"
  by (simp_all add: requote_def replace_side_def Let_def)

lemma accept_event_feed [simp]:
  "p_last_sequence (accept_event ev p) = Some (ev_sequence ev)"
  "last_event_ts (accept_event ev p) = Some (ev_timestamp ev)"
  "market_data_stale (accept_event ev p) = False"
  "p_book (accept_event ev p) =
     (if is_gap ev p \<or> is_late (ev_timestamp ev) p then clear (p_book p) else p_book p)"
  by (simp_all add: accept_event_def resync_def Let_def)

lemma ingest_feed [simp]:
  "p_last_sequence (ingest env tm ev p) = Some (ev_sequence ev)"
  "last_event_ts (ingest env tm ev p) = Some (ev_timestamp ev)"
  "market_data_stale (ingest env tm ev p) = False"
  "p_book (ingest env tm ev p) = apply_event ev
     (if is_gap ev p \<or> is_late (ev_timestamp ev) p then clear (p_book p) else p_book p)"
  by (simp_all add: ingest_def Let_def)

lemma count_event_keeps [simp, keeps]:
  "is_duplicate ev (count_event p) = is_duplicate ev p" "is_gap ev (count_event p) = is_gap ev p"
  "is_late t (count_event p) = is_late t p" "p_book (count_event p) = p_book p"
  "p_last_sequence (count_event p) = p_last_sequence p" "slot s (count_event p) = slot s p"
  "p_exec (count_event p) = p_exec p" "last_event_ts (count_event p) = last_event_ts p"
  "quotes_submitted (stats (count_event p)) = quotes_submitted (stats p)"
  by (simp_all add: count_event_def is_duplicate_def is_gap_def is_late_def split: option.split)

lemma process_feed:
  "p_last_sequence (process env tm ev p) =
     (if is_duplicate ev p then p_last_sequence p else Some (ev_sequence ev))"
  "p_book (process env tm ev p) =
     (if is_duplicate ev p then p_book p
      else apply_event ev (if is_gap ev p \<or> is_late (ev_timestamp ev) p then clear (p_book p) else p_book p))"
  by (simp_all add: process_def Let_def)

lemma on_clock_feed [simp, keeps]:
  "p_last_sequence (on_clock now p) = p_last_sequence p" "p_book (on_clock now p) = p_book p"
  by (simp_all add: on_clock_def)

section \<open>The staleness threshold\<close>

lemma stale_threshold_keeps [simp, keeps]:
  "stale_threshold (submit s px sz ref now p) = stale_threshold p"
  "stale_threshold (update_market env ev p) = stale_threshold p"
  "stale_threshold (mark_portfolio p) = stale_threshold p"
  "stale_threshold (fold apply_report rs p) = stale_threshold p"
  "stale_threshold (cancel_resting_quotes now p) = stale_threshold p"
proof -
  show "stale_threshold (fold apply_report rs p) = stale_threshold p" by (induction rs arbitrary: p) simp_all
qed (simp_all add: submit_def update_market_def mark_portfolio_def cancel_resting_quotes_def Let_def split: option.split)

lemma stale_threshold_parts [simp, keeps]:
  "stale_threshold (requote env el now p) = stale_threshold p"
  "stale_threshold (run_execution env ev p) = stale_threshold p"
  "stale_threshold (resync now p) = stale_threshold p"
  "stale_threshold (count_event p) = stale_threshold p"
  by (simp_all add: requote_def replace_side_def run_execution_def resync_def count_event_def Let_def split: prod.split)

lemma stale_threshold_process [simp, keeps]: "stale_threshold (process env tm ev p) = stale_threshold p"
proof -
  have "stale_threshold (accept_event ev q) = stale_threshold q" for q :: "'a pipeline"
    by (simp add: accept_event_def Let_def)
  then have "stale_threshold (ingest env tm ev q) = stale_threshold q" for q
    by (simp add: ingest_def Let_def)
  then show ?thesis by (simp add: process_def Let_def)
qed

lemma last_event_ts_process:
  "\<not> is_duplicate ev p \<Longrightarrow> last_event_ts (process env tm ev p) = Some (ev_timestamp ev)"
  by (simp add: process_def Let_def)

section \<open>Repeated events\<close>

definition seen :: "u64 \<Rightarrow> 'g pipeline \<Rightarrow> bool" where
  "seen n p \<longleftrightarrow> (case p_last_sequence p of None \<Rightarrow> False | Some ls \<Rightarrow> n \<le> ls)"

lemma seen_process: "seen n p \<Longrightarrow> seen n (process env tm ev p)"
  by (auto simp: seen_def process_feed is_duplicate_def split: option.splits)

lemma seen_reachable: "reachable env p q \<Longrightarrow> seen n p \<Longrightarrow> seen n q"
proof (induction rule: reachable.induct)
  case (step p p')
  then show ?case
    by (auto elim!: pipe_stepE simp: seen_process) (simp add: seen_def)
qed

text \<open>
  C13: once an event has been processed, delivering it again, at once or after any number of
  further events and clock ticks, changes nothing but the two counters that record the
  dropped delivery; in particular it is never applied to the book a second time.
\<close>

theorem redelivery_is_dropped:
  assumes "reachable env (process env tm ev p) q"
  shows "process env tm' ev q = q\<lparr>stats := (stats q)\<lparr>
    events_processed := events_processed (stats q) + 1,
    out_of_order_dropped := out_of_order_dropped (stats q) + 1\<rparr>\<rparr>"
proof -
  have "seen (ev_sequence ev) (process env tm ev p)"
    by (auto simp: seen_def process_feed is_duplicate_def split: option.splits)
  then have "seen (ev_sequence ev) q" by (rule seen_reachable [OF assms])
  then have "is_duplicate ev q" by (simp add: seen_def is_duplicate_def split: option.splits)
  then show ?thesis by (simp add: process_def Let_def count_event_def is_duplicate_def)
qed

theorem redelivery_is_dropped_witness:
  "p_book (process demo_env demo_tm demo_bid demo_two) = p_book demo_two
   \<and> out_of_order_dropped (stats (process demo_env demo_tm demo_bid demo_two)) =
       out_of_order_dropped (stats demo_two) + 1"
proof -
  have "reachable demo_env (process demo_env demo_tm demo_bid demo_start) demo_two"
    unfolding demo_two_def demo_one_def by (rule reachable.step [OF reachable.start pipe_step.event])
  from redelivery_is_dropped [OF this, of demo_tm] show ?thesis by simp
qed

section \<open>Crossed books\<close>

definition quiet_if_crossed :: "'g pipeline \<Rightarrow> bool" where
  "quiet_if_crossed p \<longleftrightarrow> (crossed (p_book p) \<longrightarrow> slot Buy p = None \<and> slot Sell p = None)"

lemma quiet_process: "quiet_if_crossed p \<Longrightarrow> quiet_if_crossed (process env tm ev p)"
  by (auto simp: quiet_if_crossed_def process_def Let_def)

lemma quiet_on_clock: "quiet_if_crossed p \<Longrightarrow> quiet_if_crossed (on_clock now p)"
  by (simp add: quiet_if_crossed_def on_clock_def)

lemma quiet_reachable: "reachable env p q \<Longrightarrow> quiet_if_crossed p \<Longrightarrow> quiet_if_crossed q"
  by (induction rule: reachable.induct) (auto elim!: pipe_stepE simp: quiet_process quiet_on_clock)

lemma no_slots_no_orders:
  assumes "pipe_inv p" "quotes_submitted (stats p) < 2 ^ 64" "slot Buy p = None" "slot Sell p = None"
  shows "open_order_count (p_exec p) = 0"
  using assms open_count_slots [of p] by (simp add: pipe_inv_def slot_def)

text \<open>
  C11: whenever the best bid of the book reaches or crosses the best ask, in any reachable
  state, the pipeline has no quote resting and the execution engine has no open order.
\<close>

theorem no_orders_on_crossed_book:
  assumes "reachable env (new_pipeline sd sy cfg) p" "valid_iter (env_iter env)"
    "quotes_submitted (stats p) < 2 ^ 64" "crossed (p_book p)"
  shows "resting_bid p = None \<and> resting_ask p = None \<and> open_order_count (p_exec p) = 0"
proof -
  have "quiet_if_crossed (new_pipeline sd sy cfg)"
    by (simp add: quiet_if_crossed_def new_pipeline_def slot_def)
  then have "slot Buy p = None" "slot Sell p = None"
    using quiet_reachable [OF assms(1)] assms(4) by (simp_all add: quiet_if_crossed_def)
  with no_slots_no_orders [OF pipe_inv_reachable [OF assms(1,2)] assms(3)] show ?thesis
    by (simp add: slot_def)
qed

lemma quotes_submitted_ingest [simp]:
  "quotes_submitted (stats (ingest env tm ev p)) = quotes_submitted (stats p)"
  by (simp add: ingest_def accept_event_def resync_def cancel_resting_quotes_def update_market_def
      mark_portfolio_def Let_def split: option.split)

lemma quotes_submitted_submit:
  "quotes_submitted (stats p) \<le> quotes_submitted (stats (submit s px sz ref now p))"
  "quotes_submitted (stats (submit s px sz ref now p)) \<le> quotes_submitted (stats p) + 1"
  by (simp_all add: submit_def Let_def)

lemma quotes_submitted_replace:
  "quotes_submitted (stats p) \<le> quotes_submitted (stats (replace_side s w px sz th ref now p))"
  "quotes_submitted (stats (replace_side s w px sz th ref now p)) \<le> quotes_submitted (stats p) + 1"
  using quotes_submitted_submit [where p = "cancel_side s now p"] by (simp_all add: replace_side_def)

lemma quotes_submitted_requote:
  "quotes_submitted (stats p) \<le> quotes_submitted (stats (requote env el now p))"
  "quotes_submitted (stats (requote env el now p)) \<le> quotes_submitted (stats p) + 2"
  unfolding requote_def Let_def
  by (simp_all add: order_trans [OF quotes_submitted_replace(2)] order_trans [OF _ quotes_submitted_replace(1)]
      quotes_submitted_replace)

lemma quotes_submitted_process:
  "quotes_submitted (stats p) \<le> quotes_submitted (stats (process env tm ev p))"
  "quotes_submitted (stats (process env tm ev p)) \<le> quotes_submitted (stats p) + 2"
  using quotes_submitted_requote [where p = "ingest env tm ev (count_event p)"]
  by (simp_all add: process_def Let_def cancel_resting_quotes_def)

text \<open>A bid above the best ask crosses the book of the concrete run.\<close>

definition demo_cross :: market_event where
  "demo_cross = make_quote 3 3 ''AAPL'' Buy (Price 1020000) 10"

definition demo_three :: "unit pipeline" where
  "demo_three = process demo_env demo_tm demo_cross demo_two"

lemma demo_three_reachable: "reachable demo_env demo_start demo_three"
  unfolding demo_three_def by (rule reachable.step [OF demo_two_reachable pipe_step.event])

lemma demo_three_crossed: "crossed (p_book demo_three)"
proof -
  have "\<not> (3 :: u64) \<le> 2" by (simp add: word_le_nat_alt)
  then have "\<not> is_duplicate demo_cross demo_two" "\<not> is_gap demo_cross demo_two"
    "\<not> is_late (ev_timestamp demo_cross) demo_two"
    by (simp_all add: is_duplicate_def is_gap_def is_late_def demo_two_eval demo_cross_def make_quote_def)
  then have "p_book demo_three = apply_event demo_cross demo_book_two"
    by (simp add: demo_three_def process_feed demo_two_eval)
  then show ?thesis
    by (simp add: demo_cross_def run_eval demo_book_two_def less_price_def)
qed

theorem no_orders_on_crossed_book_witness:
  "crossed (p_book demo_three) \<and> resting_bid demo_two \<noteq> None \<and> resting_bid demo_three = None
   \<and> open_order_count (p_exec demo_three) = 0"
proof -
  have "quotes_submitted (stats demo_three) < 2 ^ 64"
    using quotes_submitted_process(2) [of demo_env demo_tm demo_cross demo_two]
    by (simp add: demo_three_def demo_two_eval)
  then show ?thesis
    using no_orders_on_crossed_book [OF demo_three_reachable [unfolded demo_start_def] demo_env_iter]
      demo_three_crossed demo_two_eval by simp
qed

section \<open>Resynchronisation\<close>

text \<open>No order older than the \<open>n\<close>-th submission is open.\<close>

definition all_newer :: "nat \<Rightarrow> 'g pipeline \<Rightarrow> bool" where
  "all_newer n p \<longleftrightarrow> n \<le> quotes_submitted (stats p) \<and> (\<forall>i. get_order i (p_exec p) \<noteq> None \<longrightarrow> n < unat i)"

lemma all_newer_cancel_side: "all_newer n p \<Longrightarrow> all_newer n (cancel_side s now p)"
  by (auto simp: all_newer_def cancel_side_def Let_def get_order_cancel split: option.split if_splits)

lemma all_newer_submit:
  assumes "all_newer n p" "pipe_inv p" "quotes_submitted (stats (submit s px sz ref now p)) < 2 ^ 64"
  shows "all_newer n (submit s px sz ref now p)"
proof (cases rule: submit_cases [of s px sz ref now p])
  case rejected
  then show ?thesis using assms(1) by (simp add: all_newer_def)
next
  case (accepted p')
  have "unat (next_order_id p) = quotes_submitted (stats p) + 1"
    using assms(2,3) accepted(1,7) by (intro fresh_id(2)) (simp_all add: pipe_inv_def)
  then show ?thesis
    using assms(1) accepted by (auto simp: all_newer_def get_order_submit)
qed

lemma all_newer_replace:
  assumes "all_newer n p" "pipe_inv p" "s = Buy \<or> s = Sell"
    "quotes_submitted (stats (replace_side s w px sz th ref now p)) < 2 ^ 64"
  shows "all_newer n (replace_side s w px sz th ref now p)"
  using assms
  by (auto simp: replace_side_def intro!: all_newer_submit all_newer_cancel_side pipe_inv_cancel_side
      split: if_splits)

lemma all_newer_requote:
  assumes "all_newer n p" "pipe_inv p" "quotes_submitted (stats (requote env el now p)) < 2 ^ 64"
  shows "all_newer n (requote env el now p)"
proof -
  define qd where "qd = decide (env_sqrt env) (p_strategy p) (p_book p) (p_micro p)
    (position (pf_state (p_portfolio p))) now"
  define p1 where "p1 = (if \<not> quote_bid qd then cancel_side Buy now p else p)"
  define p2 where "p2 = (if \<not> quote_ask qd then cancel_side Sell now p1 else p1)"
  have p2: "all_newer n p2" "pipe_inv p2"
    using assms(1,2) by (simp_all add: p2_def p1_def all_newer_cancel_side pipe_inv_cancel_side)
  obtain th ref p3 p4 where
    p3: "p3 = replace_side Buy (quote_bid qd) (bid_price qd) (bid_size qd) th ref now p2" and
    p4: "p4 = replace_side Sell (quote_ask qd) (ask_price qd) (ask_size qd) th ref now p3" and
    rq: "requote env el now p = p4\<lparr>stats := (stats p4)\<lparr>decision_latency :=
      add_ns el (decision_latency (stats p4))\<rparr>\<rparr>"
    unfolding requote_def Let_def qd_def [symmetric] p1_def [symmetric] p2_def [symmetric] by blast
  have lt4: "quotes_submitted (stats p4) < 2 ^ 64" using assms(3) by (simp add: rq)
  then have "quotes_submitted (stats p3) < 2 ^ 64"
    using quotes_submitted_replace(1) [where p = p3] unfolding p4 by (rule order_le_less_trans [rotated])
  then have "all_newer n p3" "pipe_inv p3"
    unfolding p3 using p2 by (auto intro: all_newer_replace pipe_inv_replace_side)
  then have "all_newer n p4" using lt4 unfolding p4 by (auto intro: all_newer_replace)
  then show ?thesis by (simp add: rq all_newer_def)
qed

lemma run_execution_opens_nothing:
  assumes "orders_ok p" "valid_iter (env_iter env)" "get_order i (p_exec (run_execution env ev p)) \<noteq> None"
  shows "get_order i (p_exec p) \<noteq> None"
proof -
  obtain rs e' where ev: "on_market_event (env_draw env) (env_iter env) ev (p_exec p) = (rs, e')"
    by fastforce
  have "engine_ok (p_exec p)" using assms(1) by (simp add: orders_ok_def venue_ok_def)
  then show ?thesis using assms(2) ev
    by (cases rule: get_order_event [where i = i])
       (use assms(3) in \<open>auto simp: run_execution_def ev\<close>)
qed

lemma all_newer_ingest_resync:
  assumes "pipe_inv p" "valid_iter (env_iter env)" "is_gap ev p \<or> is_late (ev_timestamp ev) p"
    "quotes_submitted (stats p) < 2 ^ 64"
  shows "all_newer (quotes_submitted (stats p)) (ingest env tm ev p)"
proof -
  define p1 where "p1 = update_market env ev (accept_event ev p)"
  have inv: "pipe_inv p1" using assms(1) by (simp add: p1_def pipe_inv_update_market pipe_inv_accept_event)
  have "slot s p1 = None" for s
    using assms(3) by (simp add: p1_def accept_event_def resync_def Let_def)
  moreover have qs: "quotes_submitted (stats p1) = quotes_submitted (stats p)"
    by (simp add: p1_def update_market_def accept_event_def resync_def cancel_resting_quotes_def Let_def)
  ultimately have ok: "orders_ok p1" "get_order i (p_exec p1) = None" for i
    using inv assms(4) open_iff_slot [of p1 i] by (auto simp: pipe_inv_def slot_def dest: meta_spec [of _ Buy] meta_spec [of _ Sell])
  have "get_order i (p_exec (ingest env tm ev p)) = None" for i
  proof -
    have "get_order i (p_exec (run_execution env ev p1)) = None"
      using run_execution_opens_nothing [OF ok(1) assms(2)] ok(2) by blast
    then show ?thesis by (simp add: ingest_def Let_def p1_def)
  qed
  then show ?thesis by (simp add: all_newer_def)
qed

text \<open>
  C12: an accepted event whose sequence number jumps, or whose timestamp is further from the
  previous event than the staleness threshold, resynchronises: the book afterwards holds
  only what the event itself puts there, and every order that was open before is gone;
  whatever is open now was submitted after the resync.
\<close>

theorem resync_drops_everything:
  assumes "reachable env (new_pipeline sd sy cfg) p" "valid_iter (env_iter env)"
    "\<not> is_duplicate ev p" "is_gap ev p \<or> is_late (ev_timestamp ev) p"
    "quotes_submitted (stats (process env tm ev p)) < 2 ^ 64"
  shows "p_book (process env tm ev p) = apply_event ev (clear (p_book p))
    \<and> (\<forall>i. get_order i (p_exec p) \<noteq> None \<longrightarrow> get_order i (p_exec (process env tm ev p)) = None)"
proof
  show "p_book (process env tm ev p) = apply_event ev (clear (p_book p))"
    using assms(3,4) by (simp add: process_feed)
  have inv: "pipe_inv p" by (rule pipe_inv_reachable [OF assms(1,2)])
  have lt: "quotes_submitted (stats p) < 2 ^ 64"
    using quotes_submitted_process(1) assms(5) by (rule order_le_less_trans)
  define q where "q = ingest env tm ev (count_event p)"
  have q: "all_newer (quotes_submitted (stats p)) q" "pipe_inv q"
    using all_newer_ingest_resync [of "count_event p" env ev tm] pipe_inv_ingest [of "count_event p" env tm ev]
      inv assms(2,4) lt by (simp_all add: q_def)
  have "all_newer (quotes_submitted (stats p)) (cancel_resting_quotes now (q\<lparr>stats := (stats q)\<lparr>
      crossed_book_events := k\<rparr>\<rparr>))" for now k
  proof -
    have "all_newer (quotes_submitted (stats p)) (q\<lparr>stats := (stats q)\<lparr>crossed_book_events := k\<rparr>\<rparr>)"
      using q(1) by (simp add: all_newer_def)
    then show ?thesis by (simp add: cancel_resting_quotes_def all_newer_cancel_side)
  qed
  then have "all_newer (quotes_submitted (stats p)) (process env tm ev p)"
    using assms(3,5) q all_newer_requote [OF q]
    by (auto simp: process_def Let_def q_def [symmetric])
  moreover have "\<forall>i. get_order i (p_exec p) \<noteq> None \<longrightarrow> unat i \<le> quotes_submitted (stats p)"
    using inv lt by (simp add: pipe_inv_def orders_ok_def)
  ultimately show "\<forall>i. get_order i (p_exec p) \<noteq> None \<longrightarrow> get_order i (p_exec (process env tm ev p)) = None"
    unfolding all_newer_def by (meson not_le)
qed

theorem resync_drops_everything_witness:
  "get_order 1 (p_exec demo_two) \<noteq> None
   \<and> get_order 1 (p_exec (process demo_env demo_tm (make_heartbeat 3 9 ''AAPL'') demo_two)) = None"
proof -
  let ?ev = "make_heartbeat 3 9 ''AAPL''"
  have "\<not> (9 :: u64) \<le> 2" "(9 :: u64) \<noteq> 3" by (simp_all add: word_le_nat_alt)
  then have "\<not> is_duplicate ?ev demo_two" "is_gap ?ev demo_two"
    by (simp_all add: is_duplicate_def is_gap_def demo_two_eval make_heartbeat_def)
  moreover have "quotes_submitted (stats (process demo_env demo_tm ?ev demo_two)) < 2 ^ 64"
    using quotes_submitted_process(2) [of demo_env demo_tm ?ev demo_two] by (simp add: demo_two_eval)
  moreover have "pipe_inv demo_two"
    using pipe_inv_reachable [OF demo_two_reachable [unfolded demo_start_def]] by simp
  then have "get_order 1 (p_exec demo_two) \<noteq> None"
    using open_iff_slot [of demo_two 1] by (simp add: pipe_inv_def demo_two_eval)
  ultimately show ?thesis
    using resync_drops_everything [OF demo_two_reachable [unfolded demo_start_def] demo_env_iter] by blast
qed

section \<open>A silent feed\<close>

text \<open>The flag that the feed is silent is set together with the withdrawal of all quotes, and the next
  accepted event clears it, so while it is set no quote rests.\<close>

definition quiet_if_stale :: "'g pipeline \<Rightarrow> bool" where
  "quiet_if_stale p \<longleftrightarrow> (market_data_stale p \<longrightarrow> slot Buy p = None \<and> slot Sell p = None)"

lemma stale_requote [simp]: "market_data_stale (requote env el now p) = market_data_stale p"
  by (simp add: requote_def replace_side_def submit_def Let_def)

lemma quiet_if_stale_step: "pipe_step env p p' \<Longrightarrow> quiet_if_stale p \<Longrightarrow> quiet_if_stale p'"
  by (auto elim!: pipe_stepE simp: quiet_if_stale_def process_def count_event_def on_clock_def Let_def)

lemma quiet_if_stale_reachable: "reachable env p q \<Longrightarrow> quiet_if_stale p \<Longrightarrow> quiet_if_stale q"
  by (induction rule: reachable.induct) (auto dest: quiet_if_stale_step)

lemma withdraw_eq:
  assumes "pipe_inv p" "quotes_submitted (stats p) < 2 ^ 64"
  shows "cancel_resting_quotes now p = p\<lparr>resting_bid := None, resting_ask := None,
      p_exec := (p_exec p)\<lparr>open_orders := [], total_canceled := total_canceled (p_exec p) + open_order_count (p_exec p)\<rparr>,
      stats := (stats p)\<lparr>quotes_canceled := quotes_canceled (stats p) + open_order_count (p_exec p)\<rparr>\<rparr>"
proof -
  let ?q = "cancel_resting_quotes now p"
  have ok: "orders_ok p" using assms by (simp add: pipe_inv_def)
  have "open_order_count (p_exec ?q) = 0"
    by (rule no_slots_no_orders [OF pipe_inv_cancel_resting_quotes [OF assms(1)]])
      (use assms(2) in \<open>simp_all add: cancel_resting_quotes_def\<close>)
  then have none: "open_orders (p_exec ?q) = []" by (simp add: open_order_count_def)
  have bid: "map_of (open_orders (p_exec p)) (rq_id q) \<noteq> None" if "resting_bid p = Some q" for q
    using open_iff_slot [OF ok, of "rq_id q"] that by (simp add: get_order_def)
  have ask: "map_of (open_orders (p_exec p)) (rq_id q) \<noteq> None" if "resting_ask p = Some q" for q
    using open_iff_slot [OF ok, of "rq_id q"] that by (simp add: get_order_def)
  have differ: "rq_id a \<noteq> rq_id b" if "resting_bid p = Some b" "resting_ask p = Some a" for a b
    using slots_differ [OF ok, of Sell a Buy b] that by (simp add: slot_def)
  from none show ?thesis
    using bid ask differ open_count_slots [OF ok]
    by (cases "resting_bid p"; cases "resting_ask p")
      (auto simp: cancel_resting_quotes_def cancel_side_def slot_def set_slot_def cancel_def delete_conv Let_def
        split: option.splits)
qed
text \<open>
  C24: when wall-clock time runs further ahead of the last event than the staleness threshold,
  \<open>on_clock\<close> leaves no order open and no quote resting, whatever it found.  The first time it
  flags the data as stale, counts the incident and the withdrawn quotes, and leaves every other
  part of the pipeline as it was; when the flag is already set nothing changes at all, and
  further clock calls do nothing until the next event.
\<close>

theorem silent_feed_stops_quoting:
  assumes "reachable env (new_pipeline sd sy cfg) p" "valid_iter (env_iter env)"
    "quotes_submitted (stats p) < 2 ^ 64" "is_late now p"
  defines "n \<equiv> open_order_count (p_exec p)"
  shows "open_orders (p_exec (on_clock now p)) = []
    \<and> resting_bid (on_clock now p) = None \<and> resting_ask (on_clock now p) = None
    \<and> on_clock now p = (if market_data_stale p then p
        else p\<lparr>market_data_stale := True, resting_bid := None, resting_ask := None,
            p_exec := (p_exec p)\<lparr>open_orders := [], total_canceled := total_canceled (p_exec p) + n\<rparr>,
            stats := (stats p)\<lparr>clock_stale_events := clock_stale_events (stats p) + 1,
              quotes_canceled := quotes_canceled (stats p) + n\<rparr>\<rparr>)
    \<and> on_clock later (on_clock now p) = on_clock now p"
proof -
  let ?p = "p\<lparr>market_data_stale := True, stats := (stats p)\<lparr>clock_stale_events := clock_stale_events (stats p) + 1\<rparr>\<rparr>"
  have inv: "pipe_inv p" by (rule pipe_inv_reachable [OF assms(1,2)])
  have on: "on_clock now p = (if market_data_stale p then p else cancel_resting_quotes now ?p)"
    using assms(4) by (auto simp: on_clock_def is_late_def split: option.splits)
  have "quiet_if_stale p"
    by (rule quiet_if_stale_reachable [OF assms(1)]) (simp add: quiet_if_stale_def new_pipeline_def)
  then have "open_orders (p_exec p) = [] \<and> resting_bid p = None \<and> resting_ask p = None" if "market_data_stale p"
    using no_slots_no_orders [OF inv assms(3)] that by (simp add: quiet_if_stale_def slot_def open_order_count_def)
  moreover have "cancel_resting_quotes now ?p = p\<lparr>market_data_stale := True, resting_bid := None, resting_ask := None,
      p_exec := (p_exec p)\<lparr>open_orders := [], total_canceled := total_canceled (p_exec p) + n\<rparr>,
      stats := (stats p)\<lparr>clock_stale_events := clock_stale_events (stats p) + 1,
        quotes_canceled := quotes_canceled (stats p) + n\<rparr>\<rparr>"
    using withdraw_eq [of ?p now] inv assms(3) by (simp add: n_def)
  ultimately show ?thesis unfolding on by (simp add: on_clock_def)
qed

theorem silent_feed_stops_quoting_witness:
  "open_order_count (p_exec demo_two) = 2 \<and> open_order_count (p_exec (on_clock 6000000000 demo_two)) = 0
   \<and> quotes_canceled (stats (on_clock 6000000000 demo_two)) = quotes_canceled (stats demo_two) + 2
   \<and> p_micro (on_clock 6000000000 demo_two) = p_micro demo_two"
proof -
  have late: "is_late 6000000000 demo_two" by (simp add: is_late_def demo_two_eval)
  have two: "open_order_count (p_exec demo_two) = 2"
    by (simp add: demo_two_eval open_order_count_def submit_limit_def new_engine_def Let_def)
  have q: "quotes_submitted (stats demo_two) < 2 ^ 64" by (simp add: demo_two_eval)
  note c = silent_feed_stops_quoting [OF demo_two_reachable [unfolded demo_start_def] demo_env_iter q late, of 0, unfolded two]
  from c have e: "open_orders (p_exec (on_clock 6000000000 demo_two)) = []" by (rule conjunct1)
  have s: "market_data_stale demo_two = False" by (simp add: demo_two_eval)
  from c have "on_clock 6000000000 demo_two =
      demo_two\<lparr>market_data_stale := True, resting_bid := None, resting_ask := None,
          p_exec := (p_exec demo_two)\<lparr>open_orders := [], total_canceled := total_canceled (p_exec demo_two) + 2\<rparr>,
          stats := (stats demo_two)\<lparr>clock_stale_events := clock_stale_events (stats demo_two) + 1,
            quotes_canceled := quotes_canceled (stats demo_two) + 2\<rparr>\<rparr>"
    unfolding s if_False by (elim conjE)
  then have "quotes_canceled (stats (on_clock 6000000000 demo_two)) = quotes_canceled (stats demo_two) + 2"
      "p_micro (on_clock 6000000000 demo_two) = p_micro demo_two" by simp_all
  with two e show ?thesis by (simp add: open_order_count_def)
qed

section \<open>The staleness guards of strategy and risk engine\<close>



end
