(* ===== verification/Pipeline_Timing.thy ===== *)
theory Pipeline_Timing
  imports Pipeline_Feed
begin

text \<open>
  The pipeline reads the steady clock only to fill its latency statistics.  \<open>with_time\<close> replaces
  these three statistics; every operation commutes with it, so two pipelines that differ in
  nothing else stay that way, whatever durations are measured.
\<close>

definition with_time ::
  "latency_stats \<Rightarrow> latency_stats \<Rightarrow> latency_stats \<Rightarrow> 'g pipeline \<Rightarrow> 'g pipeline"
where
  "with_time a b c p = p\<lparr>stats := (stats p)\<lparr>decision_latency := a, book_update_latency := b,
     execution_latency := c\<rparr>\<rparr>"

definition forget_time :: "'g pipeline \<Rightarrow> 'g pipeline" where
  "forget_time p = with_time new_stats new_stats new_stats p"

lemma with_time_with_time [simp]: "with_time a b c (with_time a' b' c' p) = with_time a b c p"
  by (simp add: with_time_def)

lemma forget_with_time [simp]: "forget_time (with_time a b c p) = forget_time p"
  by (simp add: forget_time_def)

lemma forget_time_eqD:
  assumes "forget_time p = forget_time q"
  obtains a b c where "q = with_time a b c p"
proof -
  have "q = with_time (decision_latency (stats q)) (book_update_latency (stats q))
      (execution_latency (stats q)) (forget_time q)"
    by (simp add: forget_time_def with_time_def)
  also have "\<dots> = with_time (decision_latency (stats q)) (book_update_latency (stats q))
      (execution_latency (stats q)) p"
    by (simp add: assms [symmetric]) (simp add: forget_time_def)
  finally show thesis by (rule that)
qed

lemma with_time_fields [simp]:
  "p_book (with_time a b c p) = p_book p" "p_micro (with_time a b c p) = p_micro p"
  "p_risk (with_time a b c p) = p_risk p" "p_strategy (with_time a b c p) = p_strategy p"
  "p_exec (with_time a b c p) = p_exec p" "p_portfolio (with_time a b c p) = p_portfolio p"
  "requote_threshold (with_time a b c p) = requote_threshold p"
  "profile_stages (with_time a b c p) = profile_stages p"
  "slot s (with_time a b c p) = slot s p" "is_duplicate ev (with_time a b c p) = is_duplicate ev p"
  "is_gap ev (with_time a b c p) = is_gap ev p" "is_late t (with_time a b c p) = is_late t p"
  by (simp_all add: with_time_def is_duplicate_def is_gap_def is_late_def cong: option.case_cong)

section \<open>The operations commute with a change of the latency statistics\<close>

lemma cancel_side_time: "cancel_side s now (with_time a b c p) = with_time a b c (cancel_side s now p)"
  by (cases "slot s p") (simp_all add: cancel_side_def set_slot_def with_time_def Let_def)

lemma cancel_resting_time:
  "cancel_resting_quotes now (with_time a b c p) = with_time a b c (cancel_resting_quotes now p)"
  by (simp add: cancel_resting_quotes_def cancel_side_time)

lemma resync_time: "resync now (with_time a b c p) = with_time a b c (resync now p)"
  by (simp add: resync_def cancel_resting_time Let_def) (simp add: with_time_def)

lemma accept_event_time: "accept_event ev (with_time a b c p) = with_time a b c (accept_event ev p)"
proof -
  define g where "g q = q\<lparr>p_last_sequence := Some (ev_sequence ev), last_event_ts := Some (ev_timestamp ev),
     market_data_stale := False, stats := (stats q)\<lparr>
       sequence_gaps := (if is_gap ev p then sequence_gaps (stats q) + 1 else sequence_gaps (stats q)),
       stale_resets := (if is_late (ev_timestamp ev) p then stale_resets (stats q) + 1
                        else stale_resets (stats q))\<rparr>\<rparr>" for q :: "'a pipeline"
  have g: "g (with_time a b c p) = with_time a b c (g p)" by (simp add: g_def with_time_def)
  have "accept_event ev q = (if is_gap ev p \<or> is_late (ev_timestamp ev) p
      then resync (ev_timestamp ev) (g q) else g q)"
    if "is_gap ev q = is_gap ev p" "is_late (ev_timestamp ev) q = is_late (ev_timestamp ev) p" for q
    using that by (simp add: accept_event_def Let_def g_def)
  then show ?thesis by (simp add: g resync_time)
qed

lemma update_market_time: "update_market env ev (with_time a b c p) = with_time a b c (update_market env ev p)"
  by (simp add: update_market_def Let_def) (simp add: with_time_def)

lemma apply_report_time: "apply_report r (with_time a b c p) = with_time a b c (apply_report r p)"
proof -
  define g where "g q = (if rep_fill_quantity r > 0
      then q\<lparr>p_portfolio := on_fill (rep_side r) (rep_fill_price r) (rep_fill_quantity r) (p_portfolio q),
             stats := (stats q)\<lparr>fills := fills (stats q) + 1,
               partial_fills := (if rep_status r = PartiallyFilled then partial_fills (stats q) + 1
                                 else partial_fills (stats q))\<rparr>\<rparr>
      else q)" for q :: "'a pipeline"
  define is_it where "is_it x \<longleftrightarrow> (case x of None \<Rightarrow> False | Some rq \<Rightarrow> rq_id rq = rep_order_id r)"
    for x :: "resting_quote option"
  define h where "h q = (if is_it (resting_bid q) then q\<lparr>resting_bid := None\<rparr> else q)" for q :: "'a pipeline"
  define k where "k q = (if is_it (resting_ask q) then q\<lparr>resting_ask := None\<rparr> else q)" for q :: "'a pipeline"
  have eq: "apply_report r q = (if rep_status r = Filled then k (h (g q)) else g q)" for q :: "'a pipeline"
    unfolding apply_report_def Let_def g_def h_def k_def is_it_def ..
  have "g (with_time a b c q) = with_time a b c (g q)" "h (with_time a b c q) = with_time a b c (h q)"
    "k (with_time a b c q) = with_time a b c (k q)" for q
    by (simp_all add: g_def h_def k_def with_time_def)
  then show ?thesis by (simp add: eq)
qed

lemma run_execution_time:
  fixes p :: "'g pipeline"
  shows "run_execution env ev (with_time a b c p) = with_time a b c (run_execution env ev p)"
proof -
  have "fold apply_report rs (with_time a b c q) = with_time a b c (fold apply_report rs q)"
    for rs and q :: "'g pipeline"
    by (induction rs arbitrary: q) (simp_all add: apply_report_time)
  moreover have "(with_time a b c p)\<lparr>p_exec := e\<rparr> = with_time a b c (p\<lparr>p_exec := e\<rparr>)" for e
    by (simp add: with_time_def)
  ultimately show ?thesis by (simp add: run_execution_def split: prod.split)
qed

lemma mark_portfolio_time: "mark_portfolio (with_time a b c p) = with_time a b c (mark_portfolio p)"
  by (simp add: mark_portfolio_def split: option.split) (simp add: with_time_def)

lemma submit_time: "submit s px sz ref now (with_time a b c p) = with_time a b c (submit s px sz ref now p)"
  by (simp add: submit_def Let_def set_slot_def) (simp add: with_time_def)

lemma replace_side_time:
  "replace_side s w px sz th ref now (with_time a b c p) = with_time a b c (replace_side s w px sz th ref now p)"
  by (simp add: replace_side_def cancel_side_time submit_time)

lemma requote_time:
  "forget_time (requote env el now (with_time a b c p)) = forget_time (requote env el' now p)"
proof -
  have "forget_time (q\<lparr>stats := (stats q)\<lparr>decision_latency := l\<rparr>\<rparr>) = forget_time q" for q :: "'a pipeline" and l
    by (simp add: forget_time_def with_time_def)
  then show ?thesis
    by (simp add: requote_def Let_def cancel_side_time replace_side_time)
qed

lemma ingest_time: "forget_time (ingest env tm ev (with_time a b c p)) = forget_time (ingest env tm' ev p)"
proof -
  have "forget_time (q\<lparr>stats := (stats q)\<lparr>book_update_latency := l, execution_latency := l'\<rparr>\<rparr>) = forget_time q"
    for q :: "'a pipeline" and l l' by (simp add: forget_time_def with_time_def)
  then show ?thesis
    by (simp add: ingest_def Let_def accept_event_time update_market_time run_execution_time
        mark_portfolio_time)
qed

lemma process_time:
  assumes "forget_time p = forget_time q"
  shows "forget_time (process env tm ev p) = forget_time (process env tm' ev q)"
proof -
  obtain a b c where q: "q = with_time a b c p" using assms by (rule forget_time_eqD)
  have ct: "count_event (with_time a b c p) = with_time a b c (count_event p)"
    by (simp add: count_event_def with_time_def)
  have "forget_time (ingest env tm ev (count_event p)) = forget_time (ingest env tm' ev (count_event q))"
    unfolding q ct by (rule ingest_time [symmetric])
  then obtain a' b' c' where i:
    "ingest env tm' ev (count_event q) = with_time a' b' c' (ingest env tm ev (count_event p))"
    by (rule forget_time_eqD)
  have dup: "is_duplicate ev q = is_duplicate ev p" by (simp add: q)
  have st: "(with_time x y z r)\<lparr>stats := (stats (with_time x y z r))\<lparr>crossed_book_events :=
      crossed_book_events (stats (with_time x y z r)) + 1\<rparr>\<rparr> =
      with_time x y z (r\<lparr>stats := (stats r)\<lparr>crossed_book_events := crossed_book_events (stats r) + 1\<rparr>\<rparr>)"
    for x y z and r :: "'a pipeline" by (simp add: with_time_def)
  show ?thesis
  proof (cases "is_duplicate ev p")
    case True
    then show ?thesis
      by (simp add: process_def dup Let_def) (simp add: q count_event_def forget_time_def with_time_def)
  next
    case False
    then show ?thesis
      unfolding process_def Let_def count_event_keeps dup i st
      by (simp add: cancel_resting_time requote_time [where el' = "decision_ns tm"])
  qed
qed

lemma on_clock_time: "forget_time p = forget_time q \<Longrightarrow> forget_time (on_clock now p) = forget_time (on_clock now q)"
proof (erule forget_time_eqD)
  fix a b c assume q: "q = with_time a b c p"
  have "on_clock now (with_time a b c p) = with_time a b c (on_clock now p)"
  proof -
    have "(with_time a b c p)\<lparr>market_data_stale := True, stats := (stats (with_time a b c p))\<lparr>
        clock_stale_events := clock_stale_events (stats (with_time a b c p)) + 1\<rparr>\<rparr> =
        with_time a b c (p\<lparr>market_data_stale := True, stats := (stats p)\<lparr>
          clock_stale_events := clock_stale_events (stats p) + 1\<rparr>\<rparr>)"
      by (simp add: with_time_def)
    moreover have "last_event_ts (with_time a b c p) = last_event_ts p"
      "market_data_stale (with_time a b c p) = market_data_stale p" by (simp_all add: with_time_def)
    ultimately show ?thesis by (simp add: on_clock_def cancel_resting_time)
  qed
  then show ?thesis by (simp add: q)
qed

text \<open>The same events, with whatever measured times, lead from pipelines that agree apart from the
  latency statistics to pipelines that agree apart from them.\<close>

lemma fold_process_time:
  assumes "forget_time p = forget_time q" "map snd xs = map snd ys"
  shows "forget_time (fold (\<lambda>(tm, ev). process env tm ev) xs p) =
    forget_time (fold (\<lambda>(tm, ev). process env tm ev) ys q)"
  using assms
proof (induction xs arbitrary: ys p q)
  case (Cons x xs)
  then obtain tm ev tm' ys' where *: "x = (tm, ev)" "ys = (tm', ev) # ys'" "map snd xs = map snd ys'"
    by (cases x; cases ys) auto
  show ?case unfolding * using Cons.IH [OF process_time [OF Cons.prems(1)] *(3)] by simp
qed simp

end
