(* ===== verification/Event_Codec.thy ===== *)
theory Event_Codec
  imports Market_Types
begin

unbundle bit_operations_syntax

text \<open>
  The binary event log of \<open>src/replay/event_codec.{hpp,cpp}\<close>: an eight byte magic followed by
  fixed 50 byte records.  A stream is a list of bytes; reading past its end fails, as
  \<open>istream::read\<close> does, and ends the record.  Integers are written in the byte order of the
  little-endian machines the code is for.

  The file system is a map from paths to contents; \<open>can_write\<close> says which paths can be opened
  for writing.
\<close>

section \<open>Integers\<close>

type_synonym bytes = "u8 list"

fun from_le :: "bytes \<Rightarrow> u64" where
  "from_le [] = 0"
| "from_le (b # bs) = ucast b OR push_bit 8 (from_le bs)"

definition put_u64 :: "u64 \<Rightarrow> bytes" where
  "put_u64 v = map (\<lambda>i. ucast (drop_bit (8 * i) v)) [0..<8]"

definition put_i64 :: "int \<Rightarrow> bytes" where
  "put_i64 v = put_u64 (word_of_int v)"

definition put_u8 :: "u8 \<Rightarrow> bytes" where
  "put_u8 v = [v]"

text \<open>\<open>istream::read\<close> of \<open>n\<close> bytes.\<close>

definition get_bytes :: "nat \<Rightarrow> bytes \<Rightarrow> (bytes \<times> bytes) option" where
  "get_bytes n is = (if n \<le> length is then Some (take n is, drop n is) else None)"

definition get_u64 :: "bytes \<Rightarrow> (u64 \<times> bytes) option" where
  "get_u64 is = (case get_bytes 8 is of None \<Rightarrow> None | Some (bs, rest) \<Rightarrow> Some (from_le bs, rest))"

definition get_i64 :: "bytes \<Rightarrow> (int \<times> bytes) option" where
  "get_i64 is = (case get_bytes 8 is of None \<Rightarrow> None | Some (bs, rest) \<Rightarrow> Some (sint (from_le bs), rest))"

definition get_u8 :: "bytes \<Rightarrow> (u8 \<times> bytes) option" where
  "get_u8 is = (case get_bytes 1 is of None \<Rightarrow> None | Some (bs, rest) \<Rightarrow> Some (hd bs, rest))"

section \<open>Enumerations and symbols\<close>

fun type_byte :: "event_type \<Rightarrow> u8" where
  "type_byte Quote = 0"
| "type_byte Trade = 1"
| "type_byte BookDelete = 2"
| "type_byte Snapshot = 3"
| "type_byte Heartbeat = 4"
| "type_byte (EventTypeRaw b) = b"

text \<open>\<open>static_cast\<close> to an enumeration keeps a byte that names no enumerator.\<close>

definition byte_type :: "u8 \<Rightarrow> event_type" where
  "byte_type b = (if b = 0 then Quote else if b = 1 then Trade else if b = 2 then BookDelete
     else if b = 3 then Snapshot else if b = 4 then Heartbeat else EventTypeRaw b)"

fun side_byte :: "side \<Rightarrow> u8" where
  "side_byte Buy = 0"
| "side_byte Sell = 1"
| "side_byte (SideRaw b) = b"

definition byte_side :: "u8 \<Rightarrow> side" where
  "byte_side b = (if b = 0 then Buy else if b = 1 then Sell else SideRaw b)"

definition char_byte :: "char \<Rightarrow> u8" where
  "char_byte c = of_nat (of_char c)"

definition byte_char :: "u8 \<Rightarrow> char" where
  "byte_char b = char_of (unat b)"

section \<open>Records\<close>

definition kEventLogMagic :: bytes where
  "kEventLogMagic = map char_byte ''LOBEVT01''"

definition kRecordSize :: nat where
  "kRecordSize = 50"

definition write_magic :: "bytes \<Rightarrow> bytes" where
  "write_magic os = os @ kEventLogMagic"

definition read_and_check_magic :: "bytes \<Rightarrow> (bool \<times> bytes)" where
  "read_and_check_magic is =
     (case get_bytes 8 is of None \<Rightarrow> (False, []) | Some (buf, rest) \<Rightarrow> (buf = kEventLogMagic, rest))"

definition write_event :: "market_event \<Rightarrow> bytes \<Rightarrow> bytes" where
  "write_event ev os =
     (let sym = map char_byte (ev_symbol ev);
          len = min (length sym) 15;
          padded = take len sym @ replicate (15 - len) 0
      in os @ put_u64 (word_of_int (ev_timestamp ev)) @ put_u64 (ev_sequence ev)
           @ put_u8 (of_nat len) @ padded @ put_u8 (type_byte (ev_type ev))
           @ put_i64 (ticks (ev_price ev)) @ put_i64 (ev_quantity ev) @ put_u8 (side_byte (ev_side ev)))"

definition read_event :: "bytes \<Rightarrow> (market_event \<times> bytes) option" where
  "read_event is0 =
     (case get_u64 is0 of None \<Rightarrow> None | Some (ts_ns, is1) \<Rightarrow>
      case get_u64 is1 of None \<Rightarrow> None | Some (seq, is2) \<Rightarrow>
      case get_u8 is2 of None \<Rightarrow> None | Some (len, is3) \<Rightarrow>
      case get_bytes 15 is3 of None \<Rightarrow> None | Some (padded, is4) \<Rightarrow>
      case get_u8 is4 of None \<Rightarrow> None | Some (type_raw, is5) \<Rightarrow>
      case get_i64 is5 of None \<Rightarrow> None | Some (price_ticks, is6) \<Rightarrow>
      case get_i64 is6 of None \<Rightarrow> None | Some (qty, is7) \<Rightarrow>
      case get_u8 is7 of None \<Rightarrow> None | Some (side_raw, is8) \<Rightarrow>
        Some (\<lparr>ev_timestamp = sint ts_ns, ev_sequence = seq,
               ev_symbol = symbol_of (map byte_char (take (unat len) padded)),
               ev_type = byte_type type_raw, ev_price = from_ticks price_ticks,
               ev_quantity = qty, ev_side = byte_side side_raw\<rparr>, is8))"

section \<open>Files\<close>

datatype codec_error = OpenForWriting string | OpenForReading string | BadMagic string

type_synonym files = "string \<rightharpoonup> bytes"

definition write_events_to_file ::
  "(string \<Rightarrow> bool) \<Rightarrow> string \<Rightarrow> market_event list \<Rightarrow> files \<Rightarrow> codec_error + files"
where
  "write_events_to_file can_write path evs fs =
     (if \<not> can_write path then Inl (OpenForWriting path)
      else Inr (fs(path \<mapsto> fold write_event evs (write_magic []))))"

lemma read_event_length: "read_event is = Some (ev, rest) \<Longrightarrow> length is = kRecordSize + length rest"
  by (auto simp: read_event_def get_u64_def get_u8_def get_i64_def get_bytes_def kRecordSize_def
      split: option.splits if_splits)

text \<open>The loop that reads records until one is incomplete.\<close>

function read_events :: "bytes \<Rightarrow> market_event list" where
  "read_events is = (case read_event is of None \<Rightarrow> [] | Some (ev, rest) \<Rightarrow> ev # read_events rest)"
  by pat_completeness auto
termination
  by (relation "measure length") (auto dest: read_event_length simp: kRecordSize_def)

declare read_events.simps [simp del]

definition read_events_from_file :: "string \<Rightarrow> files \<Rightarrow> codec_error + market_event list" where
  "read_events_from_file path fs =
     (case fs path of None \<Rightarrow> Inl (OpenForReading path)
      | Some is \<Rightarrow>
          let (ok, rest) = read_and_check_magic is
          in if \<not> ok then Inl (BadMagic path) else Inr (read_events rest))"

section \<open>Round trips of the fields\<close>

lemma from_le_slices:
  "from_le (map (\<lambda>i. ucast (drop_bit (8 * i) v)) [j..<j + k]) = take_bit (8 * k) (drop_bit (8 * j) v)"
proof (induction k arbitrary: j)
  case (Suc k)
  have "from_le (map (\<lambda>i. ucast (drop_bit (8 * i) v)) [j..<j + Suc k]) =
      ucast (ucast (drop_bit (8 * j) v) :: u8) OR push_bit 8 (take_bit (8 * k) (drop_bit (8 * Suc j) v))"
    using Suc [of "Suc j"] by (simp add: upt_conv_Cons del: upt_Suc)
  also have "\<dots> = take_bit (8 * Suc k) (drop_bit (8 * j) v)"
    by (rule bit_eqI) (auto simp: bit_simps not_less algebra_simps le_less_Suc_eq)
  finally show ?case .
qed simp

lemma from_le_put_u64 [simp]: "from_le (put_u64 v) = v"
  using from_le_slices [of v 0 8] by (simp add: put_u64_def take_bit_word_eq_self)

lemma length_put [simp]: "length (put_u64 v) = 8" "length (put_i64 i) = 8" "length (put_u8 b) = 1"
  by (simp_all add: put_u64_def put_i64_def put_u8_def)

lemma sint_word_of_int [simp]: "int64_ok i \<Longrightarrow> sint (word_of_int i :: u64) = i"
  by (simp add: int64_ok_def sint_sbintrunc' signed_take_bit_int_eq_self)

lemma get_put [simp]:
  "get_u64 (put_u64 v @ rest) = Some (v, rest)"
  "int64_ok i \<Longrightarrow> get_i64 (put_i64 i @ rest) = Some (i, rest)"
  "get_u8 (put_u8 b @ rest) = Some (b, rest)"
  "length bs = n \<Longrightarrow> get_bytes n (bs @ rest) = Some (bs, rest)"
  by (simp_all add: get_u64_def get_i64_def get_u8_def get_bytes_def put_i64_def put_u8_def)

lemma get_bytes_padded: "length a + length b = n \<Longrightarrow> get_bytes n (a @ b @ rest) = Some (a @ b, rest)"
  by (auto simp: get_bytes_def)

lemma byte_char_byte [simp]: "byte_char (char_byte c) = c"
  by (simp add: byte_char_def char_byte_def unat_of_nat)

text \<open>Values of the two enumerations as a \<open>static_cast\<close> produces them.\<close>

definition canonical_type :: "event_type \<Rightarrow> bool" where
  "canonical_type t \<longleftrightarrow> (case t of EventTypeRaw b \<Rightarrow> 4 < b | _ \<Rightarrow> True)"

definition canonical_side :: "side \<Rightarrow> bool" where
  "canonical_side s \<longleftrightarrow> (case s of SideRaw b \<Rightarrow> 1 < b | _ \<Rightarrow> True)"

definition storable :: "market_event \<Rightarrow> bool" where
  "storable ev \<longleftrightarrow> int64_ok (ev_timestamp ev) \<and> int64_ok (ticks (ev_price ev)) \<and> int64_ok (ev_quantity ev)
     \<and> length (ev_symbol ev) \<le> kMaxLen \<and> canonical_type (ev_type ev) \<and> canonical_side (ev_side ev)"

lemma byte_type_byte [simp]: "canonical_type t \<Longrightarrow> byte_type (type_byte t) = t"
  by (cases t) (auto simp: canonical_type_def byte_type_def)

lemma byte_side_byte [simp]: "canonical_side s \<Longrightarrow> byte_side (side_byte s) = s"
  by (cases s) (auto simp: canonical_side_def byte_side_def)

section \<open>Records\<close>

lemma write_event_append: "write_event ev os = os @ write_event ev []"
  by (simp add: write_event_def Let_def)

lemma length_write_event [simp]: "length (write_event ev os) = length os + kRecordSize"
  by (simp add: write_event_def Let_def kRecordSize_def)

lemma read_write_event:
  assumes "storable ev"
  shows "read_event (write_event ev [] @ rest) = Some (ev, rest)"
proof -
  have "length (ev_symbol ev) \<le> 15" using assms by (simp add: storable_def kMaxLen_def)
  then have "unat (of_nat (length (ev_symbol ev)) :: u8) = length (ev_symbol ev)"
    by (simp add: unat_of_nat)
  moreover have "map (byte_char \<circ> char_byte) (ev_symbol ev) = ev_symbol ev"
    by (simp add: map_idI)
  ultimately show ?thesis
    using assms
    by (simp add: write_event_def Let_def read_event_def storable_def symbol_of_idem kMaxLen_def
        get_bytes_padded from_ticks_def)
qed

lemma read_event_None_iff: "read_event is = None \<longleftrightarrow> length is < kRecordSize"
  by (auto simp: read_event_def get_u64_def get_u8_def get_i64_def get_bytes_def kRecordSize_def)

lemma read_events_short: "length is < kRecordSize \<Longrightarrow> read_events is = []"
  by (simp add: read_events.simps read_event_None_iff [THEN iffD2])

lemma read_events_nonempty: "read_event is = Some (ev, rest) \<Longrightarrow> hd (read_events is) = ev"
  by (simp add: read_events.simps)

lemma read_event_enums:
  assumes "50 \<le> length is"
  shows "\<exists>ev rest. read_event is = Some (ev, rest)
    \<and> ev_type ev = byte_type (is ! 32) \<and> ev_side ev = byte_side (is ! 49)"
proof -
  have "1 \<le> length is - 49" "8 \<le> length is - 41" "8 \<le> length is - 33" "1 \<le> length is - 32"
    "15 \<le> length is - 17" "1 \<le> length is - 16" "8 \<le> length is - 8" "8 \<le> length is"
    using assms by simp_all
  then show ?thesis
    by (simp add: read_event_def get_u64_def get_u8_def get_i64_def get_bytes_def hd_drop_conv_nth)
qed

lemma length_read_events: "length (read_events is) = length is div kRecordSize"
proof (induction "is" rule: read_events.induct)
  case (1 "is")
  show ?case
  proof (cases "read_event is")
    case None
    then show ?thesis by (simp add: read_events_short read_event_None_iff)
  next
    case (Some r)
    obtain ev rest where r: "r = (ev, rest)" by (cases r)
    have "length is = kRecordSize + length rest" using Some r read_event_length by simp
    then show ?thesis
      using Some r 1 by (simp add: read_events.simps kRecordSize_def)
  qed
qed

lemma read_events_records:
  assumes "\<And>ev. ev \<in> set evs \<Longrightarrow> storable ev"
  shows "read_events (concat (map (\<lambda>ev. write_event ev []) evs) @ tail) = evs @ read_events tail"
  using assms by (induction evs) (simp_all add: read_events.simps [of "_ @ _"] read_write_event)

lemma fold_write_event: "fold write_event evs os = os @ concat (map (\<lambda>ev. write_event ev []) evs)"
proof (induction evs arbitrary: os)
  case (Cons ev evs)
  then show ?case using write_event_append [of ev os] by simp
qed simp

lemma length_magic [simp]: "length kEventLogMagic = 8"
  by (simp add: kEventLogMagic_def)

lemma read_own_magic [simp]: "read_and_check_magic (kEventLogMagic @ rest) = (True, rest)"
  by (simp add: read_and_check_magic_def)

lemma read_magic_take: "8 \<le> length is \<Longrightarrow> read_and_check_magic is = (take 8 is = kEventLogMagic, drop 8 is)"
  by (simp add: read_and_check_magic_def get_bytes_def)

lemma read_written_file:
  assumes "can_write path" "\<forall>ev\<in>set evs. storable ev"
  obtains fs' where "write_events_to_file can_write path evs fs = Inr fs'" "read_events_from_file path fs' = Inr evs"
proof
  show "write_events_to_file can_write path evs fs =
      Inr (fs(path \<mapsto> kEventLogMagic @ concat (map (\<lambda>ev. write_event ev []) evs)))"
    using assms(1) by (simp add: write_events_to_file_def fold_write_event write_magic_def)
  show "read_events_from_file path (fs(path \<mapsto> kEventLogMagic @ concat (map (\<lambda>ev. write_event ev []) evs))) = Inr evs"
    using assms(2) read_events_records [of evs "[]"]
    by (simp add: read_events_from_file_def read_events_short kRecordSize_def)
qed

section \<open>Properties\<close>

text \<open>An event with a timestamp, price and quantity that fit in 64 bits, a symbol the type
  can hold and enumeration values as \<open>static_cast\<close> makes them is stored in exactly 50 bytes, and
  reading them back yields the event and leaves the rest of the stream untouched.\<close>

lemma event_record_round_trip:
  assumes "storable ev"
  shows "length (write_event ev []) = 50 \<and> read_event (write_event ev [] @ rest) = Some (ev, rest)"
  using assms by (simp_all add: read_write_event kRecordSize_def)

definition sample_event :: market_event where
  "sample_event = \<lparr>ev_timestamp = 1700000000000000000, ev_sequence = 7, ev_symbol = ''AAPL'',
     ev_type = Trade, ev_price = from_ticks (- 15025), ev_quantity = 300, ev_side = Sell\<rparr>"

lemma storable_sample [simp]: "storable sample_event"
  by (simp add: storable_def sample_event_def int64_ok_def from_ticks_def kMaxLen_def
      canonical_type_def canonical_side_def)

lemma event_record_round_trip_example:
  "storable sample_event \<and> length (write_event sample_event []) = 50
   \<and> read_event (write_event sample_event [] @ [1, 2]) = Some (sample_event, [1, 2])"
  using event_record_round_trip [OF storable_sample] by simp

text \<open>C29: Writing a list of storable events to a file that can be opened and reading the file
  gives the events back in order; a record that was cut short at the end of the file, as after a
  crash of the writer, is ignored and costs no earlier event.\<close>

theorem event_log_round_trip:
  assumes "can_write path" and "\<forall>ev\<in>set evs. storable ev" and "length torn < 50"
  shows "\<exists>fs' content. write_events_to_file can_write path evs fs = Inr fs'
    \<and> fs' path = Some content
    \<and> read_events_from_file path fs' = Inr evs
    \<and> read_events_from_file path (fs'(path \<mapsto> content @ torn)) = Inr evs"
  using assms
  by (simp add: write_events_to_file_def read_events_from_file_def fold_write_event write_magic_def
      read_events_records read_events_short kRecordSize_def read_events_records [of _ "[]", simplified])

theorem event_log_round_trip_witness:
  "\<exists>fs' content.
      write_events_to_file (\<lambda>p. p = ''log'') ''log'' [sample_event, sample_event] Map.empty = Inr fs'
    \<and> fs' ''log'' = Some content
    \<and> read_events_from_file ''log'' fs' = Inr [sample_event, sample_event]
    \<and> read_events_from_file ''log'' (fs'(''log'' \<mapsto> content @ [1, 2, 3])) = Inr [sample_event, sample_event]"
  by (rule event_log_round_trip) simp_all

text \<open>C35: What the reader does with every file.  A missing file and a file that does not start
  with the eight magic bytes are errors.  After a good magic no content is an error: the reader
  returns one event for each complete 50 bytes, whatever the bytes are, also those of the two
  enumerations, which are not checked.\<close>

theorem event_log_read_cases:
  "read_events_from_file path fs =
     (case fs path of None \<Rightarrow> Inl (OpenForReading path)
      | Some content \<Rightarrow>
          if take 8 content = kEventLogMagic then Inr (read_events (drop 8 content))
          else Inl (BadMagic path))
   \<and> length (read_events body) = length body div 50
   \<and> (50 \<le> length body \<longrightarrow>
        ev_type (hd (read_events body)) = byte_type (body ! 32)
      \<and> ev_side (hd (read_events body)) = byte_side (body ! 49))"
proof -
  have "read_events_from_file path fs =
     (case fs path of None \<Rightarrow> Inl (OpenForReading path)
      | Some content \<Rightarrow>
          if take 8 content = kEventLogMagic then Inr (read_events (drop 8 content))
          else Inl (BadMagic path))"
    by (auto simp: read_events_from_file_def read_and_check_magic_def get_bytes_def
        split: option.splits dest: arg_cong [of _ _ length])
  moreover have "50 \<le> length body \<Longrightarrow>
        ev_type (hd (read_events body)) = byte_type (body ! 32)
      \<and> ev_side (hd (read_events body)) = byte_side (body ! 49)"
    using read_event_enums [of body] read_events_nonempty by auto
  ultimately show ?thesis
    by (simp add: length_read_events kRecordSize_def)
qed

theorem event_log_read_cases_witness:
  "50 \<le> length (replicate 60 (9 :: u8))
   \<and> length (read_events (replicate 60 9)) = 1
   \<and> ev_type (hd (read_events (replicate 60 9))) = EventTypeRaw 9
   \<and> ev_side (hd (read_events (replicate 60 9))) = SideRaw 9"
  using event_log_read_cases [of "''log''" Map.empty "replicate 60 9"]
  by (simp add: byte_type_def byte_side_def)

end
