(* ===== verification/Replay.thy ===== *)
theory Replay
  imports Pipeline_Timing Event_Codec
begin

text \<open>
  The replay engine of \<open>src/replay/replay_engine.hpp\<close>: it feeds a list of events to a pipeline and,
  at a positive speed, sleeps between them.  The sleeps the code requests are recorded in the
  model.  What the steady clock returns is an input: the durations measured inside the pipeline
  come with each event, \<open>clock\<close> is the pair of readings before and after the loop.
\<close>

section \<open>The engine\<close>

record replay_summary =
  events_replayed :: nat
  wall_clock_duration :: int
  events_per_second :: double

text \<open>The state of the loop in \<open>run\<close>.\<close>

record 'g replay_loop =
  rl_pipeline :: "'g pipeline"
  rl_last_ts :: "int option"
  rl_count :: nat
  rl_sleeps :: "int list"

definition pacing_delay :: "double \<Rightarrow> int option \<Rightarrow> int \<Rightarrow> int option" where
  "pacing_delay speed prev ts =
     (if dlt (Fin 0) speed
      then case prev of
             None \<Rightarrow> None
           | Some t \<Rightarrow>
               let delta = ts - t
               in if delta > 0 then Some (d_to_int64 (ddiv (d_of_int delta) speed)) else None
      else None)"

definition replay_step :: "'g env \<Rightarrow> double \<Rightarrow> timings \<times> market_event \<Rightarrow> 'g replay_loop \<Rightarrow> 'g replay_loop" where
  "replay_step env speed x st =
     (let (tm, ev) = x;
          sleeps = (case pacing_delay speed (rl_last_ts st) (ev_timestamp ev) of
                      None \<Rightarrow> rl_sleeps st | Some d \<Rightarrow> rl_sleeps st @ [d])
      in \<lparr>rl_pipeline = process env tm ev (rl_pipeline st), rl_last_ts = Some (ev_timestamp ev),
          rl_count = rl_count st + 1, rl_sleeps = sleeps\<rparr>)"

definition replay_run ::
  "'g env \<Rightarrow> double \<Rightarrow> int \<times> int \<Rightarrow> (timings \<times> market_event) list \<Rightarrow> 'g pipeline
   \<Rightarrow> replay_summary \<times> int list \<times> 'g pipeline"
where
  "replay_run env speed clock timed p =
     (let st = fold (replay_step env speed) timed
                 \<lparr>rl_pipeline = p, rl_last_ts = None, rl_count = 0, rl_sleeps = []\<rparr>;
          dur = snd clock - fst clock;
          secs = ddiv (d_of_int dur) (Fin 1000000000)
      in (\<lparr>events_replayed = rl_count st, wall_clock_duration = dur,
           events_per_second = (if dlt (Fin 0) secs then ddiv (d_of_int (int (rl_count st))) secs else Fin 0)\<rparr>,
          rl_sleeps st, rl_pipeline st))"

section \<open>The loop\<close>

text \<open>The sleeps depend on the timestamps only.\<close>

fun delays :: "double \<Rightarrow> int option \<Rightarrow> int list \<Rightarrow> int list" where
  "delays speed prev [] = []"
| "delays speed prev (t # ts) =
     (case pacing_delay speed prev t of None \<Rightarrow> [] | Some d \<Rightarrow> [d]) @ delays speed (Some t) ts"

lemma fold_replay_step:
  "rl_pipeline (fold (replay_step env speed) xs st) = fold (\<lambda>(tm, ev). process env tm ev) xs (rl_pipeline st)"
  "rl_count (fold (replay_step env speed) xs st) = rl_count st + length xs"
  "rl_sleeps (fold (replay_step env speed) xs st) =
     rl_sleeps st @ delays speed (rl_last_ts st) (map (ev_timestamp \<circ> snd) xs)"
  by (induction xs arbitrary: st) (simp_all add: replay_step_def case_prod_beta split: option.split)

lemma replay_run_eq:
  "replay_run env speed clock xs p =
     (\<lparr>events_replayed = length xs, wall_clock_duration = snd clock - fst clock,
       events_per_second =
         (let secs = ddiv (d_of_int (snd clock - fst clock)) (Fin 1000000000)
          in if dlt (Fin 0) secs then ddiv (d_of_int (int (length xs))) secs else Fin 0)\<rparr>,
      delays speed None (map (ev_timestamp \<circ> snd) xs), fold (\<lambda>(tm, ev). process env tm ev) xs p)"
  by (simp add: replay_run_def fold_replay_step Let_def)

lemma delays_max: "\<not> dlt (Fin 0) speed \<Longrightarrow> delays speed prev ts = []"
  by (induction ts arbitrary: prev) (simp_all add: pacing_delay_def)

text \<open>The gaps between consecutive timestamps.\<close>

fun gaps :: "int list \<Rightarrow> int list" where
  "gaps (s # t # ts) = (t - s) # gaps (t # ts)"
| "gaps _ = []"

lemma delay_real_time:
  assumes "0 < d" "d \<le> 2 ^ 53"
  shows "d_to_int64 (ddiv (d_of_int d) (Fin 1)) = d"
proof -
  have "d_of_int d = Fin (of_int d)" using assms by (intro d_of_int_exact) simp
  moreover have "rnd (of_int d) = Fin (of_int d)" using assms by (intro rnd_of_int) simp
  ultimately show ?thesis using assms by (simp add: d_to_int64_exact int64_ok_def)
qed

lemma delays_real_time:
  assumes "\<forall>g\<in>set (gaps (t # ts)). g \<le> 2 ^ 53"
  shows "delays (Fin 1) (Some t) ts = filter (\<lambda>g. 0 < g) (gaps (t # ts))"
  using assms
  by (induction ts arbitrary: t) (simp_all add: pacing_delay_def Let_def delay_real_time)

section \<open>Properties\<close>

text \<open>C19: replay is deterministic: the speed, the durations that are measured and the wall clock
  have no influence on the state of the pipeline apart from its latency statistics.  Every
  event of the log is processed once, in order, and at full speed nothing sleeps.\<close>

theorem replay_is_deterministic:
  assumes "replay_run env speed clock xs p = (summary, sleeps, p1)"
    and "replay_run env speed' clock' ys p = (summary', sleeps', p2)"
    and "map snd xs = map snd ys"
  shows "forget_time p1 = forget_time p2
    \<and> p1 = fold (\<lambda>(tm, ev). process env tm ev) xs p
    \<and> events_replayed summary = length xs
    \<and> (dle speed (Fin 0) \<longrightarrow> sleeps = [])"
proof -
  have "dle speed (Fin 0) \<Longrightarrow> \<not> dlt (Fin 0) speed" by (cases speed) (auto simp: dle_def deq_def)
  then show ?thesis
    using assms fold_process_time [OF refl assms(3), of env p] by (auto simp: replay_run_eq delays_max)
qed

definition demo_timed :: "timings \<Rightarrow> (timings \<times> market_event) list" where
  "demo_timed tm = [(tm, demo_bid), (tm, demo_ask)]"

theorem replay_is_deterministic_witness:
  "forget_time (snd (snd (replay_run demo_env (Fin 2) (0, 5) (demo_timed \<lparr>book_ns = 3, exec_ns = 4, decision_ns = 5\<rparr>)
      demo_start))) = forget_time demo_two
   \<and> fst (snd (replay_run demo_env (Fin 0) (7, 9) (demo_timed demo_tm) demo_start)) = []"
proof -
  let ?tm = "\<lparr>book_ns = 3, exec_ns = 4, decision_ns = 5\<rparr> :: timings"
  obtain s l p s' l' p' where
    *: "replay_run demo_env (Fin 0) (7, 9) (demo_timed demo_tm) demo_start = (s, l, p)"
      "replay_run demo_env (Fin 2) (0, 5) (demo_timed ?tm) demo_start = (s', l', p')"
    by (metis prod.exhaust)
  have "map snd (demo_timed demo_tm) = map snd (demo_timed ?tm)" by (simp add: demo_timed_def)
  note det = replay_is_deterministic [OF * this]
  from det have "forget_time p = forget_time p'" by blast
  moreover from det have "p = demo_two" "l = []"
    by (auto simp: demo_timed_def demo_two_def demo_one_def)
  ultimately show ?thesis by (simp add: *)
qed

text \<open>At speed one, replay sleeps exactly the positive gaps between consecutive event
  timestamps, to the nanosecond, for gaps of up to \<open>2^53\<close> nanoseconds (104 days).\<close>

lemma real_time_pacing:
  assumes "replay_run env (Fin 1) clock xs p = (summary, sleeps, q)"
    and "\<forall>g\<in>set (gaps (map (ev_timestamp \<circ> snd) xs)). g \<le> 2 ^ 53"
  shows "sleeps = filter (\<lambda>g. 0 < g) (gaps (map (ev_timestamp \<circ> snd) xs))"
proof (cases xs)
  case (Cons x ys)
  have "sleeps = delays (Fin 1) None (map (ev_timestamp \<circ> snd) xs)"
    using assms(1) by (auto simp: replay_run_eq)
  also have "\<dots> = delays (Fin 1) (Some (ev_timestamp (snd x))) (map (ev_timestamp \<circ> snd) ys)"
    by (simp add: Cons pacing_delay_def)
  finally show ?thesis
    using assms(2) delays_real_time [of "ev_timestamp (snd x)" "map (ev_timestamp \<circ> snd) ys"]
    by (simp add: Cons)
qed (use assms(1) in \<open>simp add: replay_run_eq\<close>)

lemma real_time_pacing_example:
  "\<exists>q s. replay_run demo_env (Fin 1) (0, 0)
      [(demo_tm, make_heartbeat 10 1 ''A''), (demo_tm, make_heartbeat 4 2 ''A''),
       (demo_tm, make_heartbeat 9 3 ''A'')] demo_start = (s, [5], q)"
  (is "\<exists>q s. ?run = _")
proof -
  obtain s l q where run: "?run = (s, l, q)" by (metis prod.exhaust)
  have "l = [5]" using real_time_pacing [OF run] by (simp add: make_heartbeat_def)
  then show ?thesis using run by blast
qed

end
