(* ===== verification/Ring_Buffer.thy ===== *)
theory Ring_Buffer
  imports Prelude "HOL-Library.Sublist"
begin

unbundle bit_operations_syntax

text \<open>
  The single-producer single-consumer ring buffer of \<open>src/concurrency/spsc_ring_buffer.hpp\<close>.

  \<open>push\<close> and \<open>pop\<close> are first modelled as whole operations and shown to implement a bounded FIFO
  queue (locale \<open>bounded_fifo\<close>).  Then producer and consumer are split into their accesses to
  shared memory, and every interleaving of these accesses is considered.  The interleaving
  model is sequentially consistent; \<open>Ring_Memory\<close> treats the memory orders of the atomics.

  Indices are natural numbers: they never exceed the capacity, so \<open>size_t\<close> arithmetic does not
  wrap, and \<open>(head + 1) & kMask\<close> is the bitwise operation of the source.
\<close>

section \<open>The buffer\<close>

record 'a ring =
  ring_cap :: nat
  buffer :: "'a list"
  head :: nat
  cached_tail :: nat
  tail :: nat
  cached_head :: nat

definition kMask :: "'a ring \<Rightarrow> nat" where
  "kMask r = ring_cap r - 1"

definition new_ring :: "nat \<Rightarrow> 'a \<Rightarrow> 'a ring" where
  "new_ring cap dflt = \<lparr>ring_cap = cap, buffer = replicate cap dflt, head = 0, cached_tail = 0,
     tail = 0, cached_head = 0\<rparr>"

definition ring_push :: "'a \<Rightarrow> 'a ring \<Rightarrow> bool \<times> 'a ring" where
  "ring_push v r =
     (let hd' = head r; nxt = (hd' + 1) AND kMask r;
          r1 = (if nxt = cached_tail r then r\<lparr>cached_tail := tail r\<rparr> else r)
      in if nxt = cached_tail r \<and> nxt = cached_tail r1 then (False, r1)
         else (True, r1\<lparr>buffer := (buffer r1)[hd' := v], head := nxt\<rparr>))"

definition ring_pop :: "'a ring \<Rightarrow> 'a option \<times> 'a ring" where
  "ring_pop r =
     (let tl' = tail r;
          r1 = (if tl' = cached_head r then r\<lparr>cached_head := head r\<rparr> else r)
      in if tl' = cached_head r \<and> tl' = cached_head r1 then (None, r1)
         else (Some (buffer r1 ! tl'), r1\<lparr>tail := (tl' + 1) AND kMask r\<rparr>))"

definition ring_empty :: "'a ring \<Rightarrow> bool" where
  "ring_empty r \<longleftrightarrow> head r = tail r"

definition capacity :: "'a ring \<Rightarrow> nat" where
  "capacity r = ring_cap r - 1"

section \<open>The contract of a bounded queue\<close>

locale bounded_fifo =
  fixes ok :: "'q \<Rightarrow> bool"
    and contents :: "'q \<Rightarrow> 'a list"
    and limit :: "'q \<Rightarrow> nat"
    and enq :: "'a \<Rightarrow> 'q \<Rightarrow> bool \<times> 'q"
    and deq :: "'q \<Rightarrow> 'a option \<times> 'q"
  assumes contents_le: "ok q \<Longrightarrow> length (contents q) \<le> limit q"
    and enq_law: "ok q \<Longrightarrow> enq v q = (b, q') \<Longrightarrow> ok q' \<and> limit q' = limit q
      \<and> (b \<longleftrightarrow> length (contents q) < limit q)
      \<and> contents q' = (if b then contents q @ [v] else contents q)"
    and deq_law: "ok q \<Longrightarrow> deq q = (x, q') \<Longrightarrow> ok q' \<and> limit q' = limit q
      \<and> (case contents q of [] \<Rightarrow> x = None \<and> contents q' = []
         | y # ys \<Rightarrow> x = Some y \<and> contents q' = ys)"
begin

text \<open>Run a script of operations: \<open>Some v\<close> enqueues, \<open>None\<close> dequeues.  Collect what was accepted
  and what came out.\<close>

fun play :: "'a option list \<Rightarrow> 'q \<Rightarrow> 'a list \<times> 'a list \<times> 'q" where
  "play [] q = ([], [], q)"
| "play (Some v # ops) q =
     (let (b, q') = enq v q; (ins, outs, q'') = play ops q'
      in ((if b then v # ins else ins), outs, q''))"
| "play (None # ops) q =
     (let (x, q') = deq q; (ins, outs, q'') = play ops q'
      in (ins, (case x of None \<Rightarrow> outs | Some y \<Rightarrow> y # outs), q''))"

lemma play_fifo:
  assumes "ok q" "play ops q = (ins, outs, q')"
  shows "ok q' \<and> contents q @ ins = outs @ contents q' \<and> limit q' = limit q"
  using assms
proof (induction ops arbitrary: q ins outs q')
  case Nil
  then show ?case by simp
next
  case (Cons x ops)
  show ?case
  proof (cases x)
    case (Some v)
    obtain b q1 where b: "enq v q = (b, q1)" by fastforce
    obtain i1 o1 q2 where p: "play ops q1 = (i1, o1, q2)" by (cases "play ops q1") auto
    from enq_law [OF Cons.prems(1) b] Cons.IH [OF _ p] Cons.prems(2) show ?thesis
      by (auto simp: Some b p split: if_splits)
  next
    case None
    obtain y q1 where b: "deq q = (y, q1)" by fastforce
    obtain i1 o1 q2 where p: "play ops q1 = (i1, o1, q2)" by (cases "play ops q1") auto
    from deq_law [OF Cons.prems(1) b] Cons.IH [OF _ p] Cons.prems(2) show ?thesis
      by (auto simp: None b p split: list.splits)
  qed
qed

end

section \<open>Representation\<close>

text \<open>\<open>ring_at r h t ct ch\<close>: \<open>h\<close> values have been written and \<open>t\<close> read since the start, and the
  cached indices were taken when \<open>ct\<close> had been read and \<open>ch\<close> written.\<close>

definition ring_at :: "'a ring \<Rightarrow> nat \<Rightarrow> nat \<Rightarrow> nat \<Rightarrow> nat \<Rightarrow> bool" where
  "ring_at r h t ct ch \<longleftrightarrow>
     (\<exists>k. ring_cap r = 2 ^ k \<and> 0 < k) \<and> length (buffer r) = ring_cap r
     \<and> head r = h mod ring_cap r \<and> tail r = t mod ring_cap r
     \<and> cached_tail r = ct mod ring_cap r \<and> cached_head r = ch mod ring_cap r
     \<and> ct \<le> t \<and> t \<le> ch \<and> ch \<le> h \<and> h < ct + ring_cap r"

definition ring_ok :: "'a ring \<Rightarrow> bool" where
  "ring_ok r \<longleftrightarrow> (\<exists>h t ct ch. ring_at r h t ct ch)"

definition ring_contents :: "'a ring \<Rightarrow> 'a list" where
  "ring_contents r = map (\<lambda>i. buffer r ! ((tail r + i) mod ring_cap r))
     [0..<(head r + ring_cap r - tail r) mod ring_cap r]"

lemma mask_mod: "(n :: nat) AND (2 ^ k - 1) = n mod 2 ^ k"
  by (metis mask_eq_exp_minus_1 take_bit_eq_mask take_bit_eq_mod)

lemma ring_mask: "ring_at r h t ct ch \<Longrightarrow> n AND kMask r = n mod ring_cap r"
  by (auto simp: ring_at_def kMask_def mask_mod simp del: One_nat_def)

lemma ring_cap_pos: "ring_at r h t ct ch \<Longrightarrow> 1 < ring_cap r"
  using one_less_power [of "2 :: nat"] by (auto simp: ring_at_def)

text \<open>Two counters less than a round apart agree modulo the capacity only if they are equal.\<close>

lemma mod_eq_close:
  fixes a b n :: nat
  assumes "a \<le> b" "b < a + n" "a mod n = b mod n"
  shows "a = b"
proof -
  have "n dvd b - a" using assms mod_eq_dvd_iff_nat by metis
  with assms show ?thesis using dvd_imp_le [of n "b - a"] by (cases "a = b") auto
qed

lemma ring_contents_eq:
  assumes "ring_at r h t ct ch"
  shows "ring_contents r = map (\<lambda>k. buffer r ! (k mod ring_cap r)) [t..<h]"
proof -
  let ?n = "ring_cap r"
  have le: "t \<le> h" "h - t < ?n" and n: "0 < ?n" using assms ring_cap_pos [OF assms] by (auto simp: ring_at_def)
  have "(h mod ?n + ?n - t mod ?n) mod ?n = h - t"
  proof -
    have "(h mod ?n + ?n - t mod ?n) mod ?n = (h mod ?n + (?n - t mod ?n)) mod ?n"
      using n by (simp add: less_imp_le)
    also have "\<dots> = (h + (?n - t mod ?n)) mod ?n" by (simp add: mod_add_left_eq)
    also have "h + (?n - t mod ?n) = (h - t) + (t div ?n + 1) * ?n"
    proof -
      have "t = t div ?n * ?n + t mod ?n" "t mod ?n < ?n" using n by simp_all
      moreover have "(t div ?n + 1) * ?n = t div ?n * ?n + ?n" by simp
      ultimately show ?thesis using le(1) by linarith
    qed
    finally show ?thesis using le(2) by (simp only: mod_mult_self1 mod_less)
  qed
  then have "(head r + ?n - tail r) mod ?n = h - t" using assms by (simp add: ring_at_def)
  moreover have "(tail r + i) mod ?n = (t + i) mod ?n" for i
    using assms by (simp add: ring_at_def mod_add_left_eq)
  moreover have "map (\<lambda>i. f (t + i)) [0..<h - t] = map f [t..<h]" for f :: "nat \<Rightarrow> 'a"
    using le(1) by (intro nth_equalityI) auto
  ultimately show ?thesis
    unfolding ring_contents_def by simp
qed

section \<open>Push and pop implement the queue\<close>

lemma slot_free:
  fixes n :: nat
  assumes "t \<le> k" "k < h" "h < t + n"
  shows "k mod n \<noteq> h mod n"
  using mod_eq_close [of k h n] assms by auto

lemma next_is_cached:
  assumes "ring_at r h t ct ch" "ct \<le> x" "x \<le> t"
  shows "(h + 1) mod ring_cap r = x mod ring_cap r \<longleftrightarrow> h + 1 = x + ring_cap r"
proof
  assume "(h + 1) mod ring_cap r = x mod ring_cap r"
  moreover have "x \<le> h + 1" "h + 1 \<le> x + ring_cap r" using assms by (auto simp: ring_at_def)
  ultimately show "h + 1 = x + ring_cap r"
    using mod_eq_close [of x "h + 1" "ring_cap r"] assms
    by (cases "h + 1 < x + ring_cap r") (auto simp: ring_at_def)
qed simp

lemma ring_push_at:
  assumes at: "ring_at r h t ct ch" and p: "ring_push v r = (b, r')"
  shows "b \<longleftrightarrow> h + 1 < t + ring_cap r" "ring_cap r' = ring_cap r"
    "b \<Longrightarrow> \<exists>ct'. ring_at r' (h + 1) t ct' ch" "\<not> b \<Longrightarrow> \<exists>ct'. ring_at r' h t ct' ch"
    "buffer r' = (if b then (buffer r)[h mod ring_cap r := v] else buffer r)"
proof -
  let ?n = "ring_cap r"
  have nxt: "(head r + 1) AND kMask r = (h + 1) mod ?n"
    using at ring_mask [OF at] by (simp add: ring_at_def mod_Suc_eq)
  have at': "ct \<le> t" "t \<le> ch" "ch \<le> h" "h < ct + ?n" using at by (simp_all add: ring_at_def)
  have eqs: "(h + 1) mod ?n = cached_tail r \<longleftrightarrow> h + 1 = ct + ?n"
    "(h + 1) mod ?n = tail r \<longleftrightarrow> h + 1 = t + ?n"
    using next_is_cached [OF at, of ct] next_is_cached [OF at, of t] at at'
    by (simp_all add: ring_at_def)
  have "ring_push v r =
      (if (h + 1) mod ?n = cached_tail r
       then if (h + 1) mod ?n = tail r then (False, r\<lparr>cached_tail := tail r\<rparr>)
            else (True, r\<lparr>cached_tail := tail r, buffer := (buffer r)[head r := v], head := (h + 1) mod ?n\<rparr>)
       else (True, r\<lparr>buffer := (buffer r)[head r := v], head := (h + 1) mod ?n\<rparr>))"
    unfolding ring_push_def Let_def nxt by auto
  then have p': "(b, r') =
      (if h + 1 = ct + ?n
       then if h + 1 = t + ?n then (False, r\<lparr>cached_tail := tail r\<rparr>)
            else (True, r\<lparr>cached_tail := tail r, buffer := (buffer r)[head r := v], head := (h + 1) mod ?n\<rparr>)
       else (True, r\<lparr>buffer := (buffer r)[head r := v], head := (h + 1) mod ?n\<rparr>))"
    unfolding eqs p by simp
  have "(b \<longleftrightarrow> h + 1 < t + ?n) \<and> ring_cap r' = ?n
      \<and> (b \<longrightarrow> (\<exists>ct'. ring_at r' (h + 1) t ct' ch)) \<and> (\<not> b \<longrightarrow> (\<exists>ct'. ring_at r' h t ct' ch))
      \<and> buffer r' = (if b then (buffer r)[h mod ?n := v] else buffer r)"
  proof (cases "h + 1 = ct + ?n")
    case True
    show ?thesis
    proof (cases "h + 1 = t + ?n")
      case full: True
      then have "b = False" "r' = r\<lparr>cached_tail := tail r\<rparr>"
        using p' True by simp_all
      moreover from this have "ring_at r' h t t ch" using at at' full by (simp add: ring_at_def)
      ultimately show ?thesis using full by auto
    next
      case False
      then have r': "b = True" "r' = r\<lparr>cached_tail := tail r, buffer := (buffer r)[head r := v], head := (h + 1) mod ?n\<rparr>"
        using p' True by simp_all
      moreover from this have "ring_at r' (h + 1) t t ch" using at at' False by (simp add: ring_at_def)
      ultimately show ?thesis using False at at' by (auto simp: ring_at_def)
    qed
  next
    case False
    then have r': "b = True" "r' = r\<lparr>buffer := (buffer r)[head r := v], head := (h + 1) mod ?n\<rparr>"
      using p' by simp_all
    moreover from this have "ring_at r' (h + 1) t ct ch" using at at' False by (simp add: ring_at_def)
    ultimately show ?thesis using False at at' by (auto simp: ring_at_def)
  qed
  then show "b \<longleftrightarrow> h + 1 < t + ring_cap r" "ring_cap r' = ring_cap r"
    "b \<Longrightarrow> \<exists>ct'. ring_at r' (h + 1) t ct' ch" "\<not> b \<Longrightarrow> \<exists>ct'. ring_at r' h t ct' ch"
    "buffer r' = (if b then (buffer r)[h mod ring_cap r := v] else buffer r)" by blast+
qed

lemma ring_pop_at:
  assumes at: "ring_at r h t ct ch" and p: "ring_pop r = (x, r')"
  shows "ring_cap r' = ring_cap r" "buffer r' = buffer r"
    "t = h \<Longrightarrow> x = None \<and> ring_at r' h t ct h"
    "t < h \<Longrightarrow> x = Some (buffer r ! (t mod ring_cap r)) \<and> (\<exists>ch'. ring_at r' h (t + 1) ct ch')"
proof -
  let ?n = "ring_cap r"
  have nxt: "(tail r + 1) AND kMask r = (t + 1) mod ?n"
    using at ring_mask [OF at] by (simp add: ring_at_def mod_Suc_eq)
  have at': "ct \<le> t" "t \<le> ch" "ch \<le> h" "h < ct + ?n" using at by (simp_all add: ring_at_def)
  have eqs: "tail r = cached_head r \<longleftrightarrow> t = ch" "tail r = head r \<longleftrightarrow> t = h"
    using mod_eq_close [of t ch ?n] mod_eq_close [of t h ?n] at at' by (auto simp: ring_at_def)
  have "ring_pop r =
      (if tail r = cached_head r
       then if tail r = head r then (None, r\<lparr>cached_head := head r\<rparr>)
            else (Some (buffer r ! tail r), r\<lparr>cached_head := head r, tail := (t + 1) mod ?n\<rparr>)
       else (Some (buffer r ! tail r), r\<lparr>tail := (t + 1) mod ?n\<rparr>))"
    unfolding ring_pop_def Let_def nxt by auto
  then have p': "(x, r') =
      (if t = ch
       then if t = h then (None, r\<lparr>cached_head := head r\<rparr>)
            else (Some (buffer r ! tail r), r\<lparr>cached_head := head r, tail := (t + 1) mod ?n\<rparr>)
       else (Some (buffer r ! tail r), r\<lparr>tail := (t + 1) mod ?n\<rparr>))"
    unfolding eqs p by simp
  show "ring_cap r' = ring_cap r" "buffer r' = buffer r"
    using p' by (auto split: if_splits)
  show "x = None \<and> ring_at r' h t ct h" if "t = h"
    using that p' at at' by (auto simp: ring_at_def)
  show "x = Some (buffer r ! (t mod ring_cap r)) \<and> (\<exists>ch'. ring_at r' h (t + 1) ct ch')" if "t < h"
  proof (cases "t = ch")
    case True
    then have "x = Some (buffer r ! tail r)" "r' = r\<lparr>cached_head := head r, tail := (t + 1) mod ?n\<rparr>"
      using p' that by simp_all
    moreover from this have "ring_at r' h (t + 1) ct h" using at at' that by (simp add: ring_at_def)
    ultimately show ?thesis using at by (auto simp: ring_at_def)
  next
    case False
    then have "x = Some (buffer r ! tail r)" "r' = r\<lparr>tail := (t + 1) mod ?n\<rparr>"
      using p' by simp_all
    moreover from this have "ring_at r' h (t + 1) ct ch" using at at' False by (simp add: ring_at_def)
    ultimately show ?thesis using at by (auto simp: ring_at_def)
  qed
qed

lemma ring_contents_push:
  assumes "ring_at r h t ct ch" "ring_at r' (h + 1) t ct' ch"
    "buffer r' = (buffer r)[h mod ring_cap r := v]" "ring_cap r' = ring_cap r"
  shows "ring_contents r' = ring_contents r @ [v]"
proof -
  have n: "length (buffer r) = ring_cap r" "0 < ring_cap r" "t \<le> h"
    using assms(1) ring_cap_pos [OF assms(1)] by (auto simp: ring_at_def)
  have "buffer r' ! (k mod ring_cap r) = buffer r ! (k mod ring_cap r)" if "k \<in> set [t..<h]" for k
    using slot_free [of t k h "ring_cap r"] that assms(1,3) by (auto simp: ring_at_def)
  then have "map (\<lambda>k. buffer r' ! (k mod ring_cap r)) [t..<h] = map (\<lambda>k. buffer r ! (k mod ring_cap r)) [t..<h]"
    by (intro map_cong) simp_all
  then show ?thesis
    using n assms(3,4) by (simp add: ring_contents_eq [OF assms(1)] ring_contents_eq [OF assms(2)])
qed

lemma ring_push_ok:
  assumes "ring_ok r" "ring_push v r = (b, r')"
  shows "ring_ok r' \<and> capacity r' = capacity r \<and> (b \<longleftrightarrow> length (ring_contents r) < capacity r)
    \<and> ring_contents r' = (if b then ring_contents r @ [v] else ring_contents r)"
proof -
  obtain h t ct ch where at: "ring_at r h t ct ch" using assms(1) by (auto simp: ring_ok_def)
  note push = ring_push_at [OF at assms(2)]
  have b: "b \<longleftrightarrow> length (ring_contents r) < capacity r"
    using push(1) at ring_cap_pos [OF at] by (auto simp: ring_contents_eq [OF at] capacity_def ring_at_def)
  show ?thesis
  proof (cases b)
    case True
    then obtain ct' where at': "ring_at r' (h + 1) t ct' ch" using push(3) by blast
    then have "ring_contents r' = ring_contents r @ [v]"
      using ring_contents_push [OF at] True push(2,5) by simp
    then show ?thesis using True b push(2) at' by (auto simp: capacity_def ring_ok_def)
  next
    case False
    then obtain ct' where at': "ring_at r' h t ct' ch" using push(4) by blast
    have "ring_contents r' = ring_contents r"
      using False push(2,5) by (simp add: ring_contents_eq [OF at] ring_contents_eq [OF at'])
    then show ?thesis using False b push(2) at' by (auto simp: capacity_def ring_ok_def)
  qed
qed

lemma ring_pop_ok:
  assumes "ring_ok r" "ring_pop r = (x, r')"
  shows "ring_ok r' \<and> capacity r' = capacity r
    \<and> (case ring_contents r of [] \<Rightarrow> x = None \<and> ring_contents r' = []
       | y # ys \<Rightarrow> x = Some y \<and> ring_contents r' = ys)"
proof -
  obtain h t ct ch where at: "ring_at r h t ct ch" using assms(1) by (auto simp: ring_ok_def)
  note pop = ring_pop_at [OF at assms(2)]
  have "t \<le> h" using at by (simp add: ring_at_def)
  then consider "t = h" | "t < h" by linarith
  then show ?thesis
  proof cases
    case 1
    then have at': "ring_at r' h t ct h" "x = None" using pop(3) by simp_all
    then show ?thesis
      using pop(1) 1 ring_contents_eq [OF at] ring_contents_eq [OF at'(1)]
      by (auto simp: capacity_def ring_ok_def)
  next
    case 2
    then obtain ch' where at': "ring_at r' h (t + 1) ct ch'" "x = Some (buffer r ! (t mod ring_cap r))"
      using pop(4) by blast
    then show ?thesis
      using pop(1,2) 2 ring_contents_eq [OF at] ring_contents_eq [OF at'(1)]
      by (auto simp: capacity_def ring_ok_def upt_conv_Cons)
  qed
qed

lemma ring_ok_new: "0 < k \<Longrightarrow> ring_ok (new_ring (2 ^ k) d)" "ring_contents (new_ring (2 ^ k) d) = []"
proof -
  show "ring_ok (new_ring (2 ^ k) d)" if "0 < k"
    unfolding ring_ok_def using that
    by (intro exI [of _ 0]) (auto simp: ring_at_def new_ring_def)
qed (simp add: ring_contents_def new_ring_def)

interpretation ring: bounded_fifo ring_ok ring_contents capacity ring_push ring_pop
proof unfold_locales
  fix q :: "'a ring" assume "ring_ok q"
  then show "length (ring_contents q) \<le> capacity q"
    by (auto simp: ring_ok_def ring_contents_eq capacity_def ring_at_def)
qed (erule (1) ring_push_ok ring_pop_ok)+

text \<open>
  C21: a buffer of any power-of-two capacity is a bounded FIFO queue of one element less:
  starting empty, any sequence of pushes and pops returns the accepted elements in order,
  \<open>push\<close> is refused exactly when \<open>capacity()\<close> elements are waiting, \<open>pop\<close> returns nothing exactly
  when none is, and the elements accepted are the elements returned followed by those still
  waiting.
\<close>

theorem ring_is_bounded_fifo:
  assumes "0 < k" "ring.play ops (new_ring (2 ^ k) d) = (ins, outs, r)"
  shows "ins = outs @ ring_contents r \<and> length (ring_contents r) \<le> 2 ^ k - 1
    \<and> (fst (ring_push v r) \<longleftrightarrow> length (ring_contents r) < 2 ^ k - 1)
    \<and> fst (ring_pop r) = (case ring_contents r of [] \<Rightarrow> None | y # ys \<Rightarrow> Some y)
    \<and> (ring_empty r \<longleftrightarrow> ring_contents r = [])"
proof -
  have r: "ring_ok r" "ins = outs @ ring_contents r" "capacity r = 2 ^ k - 1"
    using ring.play_fifo [OF ring_ok_new(1) [OF assms(1)] assms(2)]
    by (simp_all add: ring_ok_new(2)) (simp add: capacity_def new_ring_def)
  obtain b r1 where b: "ring_push v r = (b, r1)" by fastforce
  obtain x r2 where x: "ring_pop r = (x, r2)" by fastforce
  obtain h t ct ch where at: "ring_at r h t ct ch" using r(1) by (auto simp: ring_ok_def)
  have "ring_empty r \<longleftrightarrow> ring_contents r = []"
  proof -
    have "t \<le> h" "h < t + ring_cap r" using at by (auto simp: ring_at_def)
    then have "h mod ring_cap r = t mod ring_cap r \<longleftrightarrow> h = t" using mod_eq_close [of t h "ring_cap r"] by auto
    then show ?thesis
      using at \<open>t \<le> h\<close> by (auto simp: ring_empty_def ring_contents_eq [OF at] ring_at_def)
  qed
  moreover have "fst (ring_pop r) = (case ring_contents r of [] \<Rightarrow> None | y # ys \<Rightarrow> Some y)"
    using ring.deq_law [OF r(1) x] by (simp add: x split: list.splits)
  moreover have "fst (ring_push v r) \<longleftrightarrow> length (ring_contents r) < 2 ^ k - 1"
    using ring.enq_law [OF r(1) b] r(3) by (simp add: b)
  ultimately show ?thesis using r ring.contents_le [OF r(1)] by simp
qed

theorem ring_is_bounded_fifo_witness:
  "\<exists>r. ring.play [Some 7, Some 8, None, Some 9, None] (new_ring (2 ^ 2) 0) = ([7, 8, 9], [7, 8 :: nat], r)
     \<and> ring_contents r = [9]"
proof -
  obtain ins outs r where p:
    "ring.play [Some 7, Some 8, None, Some 9, None] (new_ring (2 ^ 2) 0) = (ins, outs, r :: nat ring)"
    by (cases "ring.play [Some 7, Some 8, None, Some 9, None] (new_ring (2 ^ 2) (0 :: nat))") auto
  then have eq: "ins = [7, 8, 9]" "outs = [7, 8]"
    using mask_mod [of _ 2]
    by (simp_all add: ring.play.simps ring_push_def ring_pop_def new_ring_def kMask_def Let_def)
  have "ins = outs @ ring_contents r" using ring_is_bounded_fifo [OF zero_less_numeral p] by blast
  then have "ring_contents r = [9]" by (simp add: eq)
  with p [unfolded eq] show ?thesis by blast
qed

section \<open>Interleaved producer and consumer\<close>

text \<open>The points at which a thread is between two accesses to shared memory.  \<open>sent\<close> and \<open>received\<close>
  record, for the statements below only, what the calls have accepted and returned.\<close>

datatype 'a producer = PIdle | PRefresh 'a | PWrite 'a | PPublish 'a

datatype 'a consumer = CIdle | CRefresh | CRead | CAdvance 'a

record 'a spsc =
  rb :: "'a ring"
  producer :: "'a producer"
  consumer :: "'a consumer"
  sent :: "'a list"
  received :: "'a list"

definition next_head :: "'a ring \<Rightarrow> nat" where
  "next_head r = (head r + 1) AND kMask r"

inductive spsc_step :: "'a spsc \<Rightarrow> 'a spsc \<Rightarrow> bool" where
  push_fast: "producer s = PIdle \<Longrightarrow> next_head (rb s) \<noteq> cached_tail (rb s) \<Longrightarrow>
    spsc_step s (s\<lparr>producer := PWrite v\<rparr>)"
| push_slow: "producer s = PIdle \<Longrightarrow> next_head (rb s) = cached_tail (rb s) \<Longrightarrow>
    spsc_step s (s\<lparr>producer := PRefresh v\<rparr>)"
| push_full: "producer s = PRefresh v \<Longrightarrow> next_head (rb s) = tail (rb s) \<Longrightarrow>
    spsc_step s (s\<lparr>rb := (rb s)\<lparr>cached_tail := tail (rb s)\<rparr>, producer := PIdle\<rparr>)"
| push_refreshed: "producer s = PRefresh v \<Longrightarrow> next_head (rb s) \<noteq> tail (rb s) \<Longrightarrow>
    spsc_step s (s\<lparr>rb := (rb s)\<lparr>cached_tail := tail (rb s)\<rparr>, producer := PWrite v\<rparr>)"
| push_store: "producer s = PWrite v \<Longrightarrow>
    spsc_step s (s\<lparr>rb := (rb s)\<lparr>buffer := (buffer (rb s))[head (rb s) := v]\<rparr>, producer := PPublish v\<rparr>)"
| push_release: "producer s = PPublish v \<Longrightarrow>
    spsc_step s (s\<lparr>rb := (rb s)\<lparr>head := next_head (rb s)\<rparr>, producer := PIdle, sent := sent s @ [v]\<rparr>)"
| pop_fast: "consumer s = CIdle \<Longrightarrow> tail (rb s) \<noteq> cached_head (rb s) \<Longrightarrow>
    spsc_step s (s\<lparr>consumer := CRead\<rparr>)"
| pop_slow: "consumer s = CIdle \<Longrightarrow> tail (rb s) = cached_head (rb s) \<Longrightarrow>
    spsc_step s (s\<lparr>consumer := CRefresh\<rparr>)"
| pop_empty: "consumer s = CRefresh \<Longrightarrow> tail (rb s) = head (rb s) \<Longrightarrow>
    spsc_step s (s\<lparr>rb := (rb s)\<lparr>cached_head := head (rb s)\<rparr>, consumer := CIdle\<rparr>)"
| pop_refreshed: "consumer s = CRefresh \<Longrightarrow> tail (rb s) \<noteq> head (rb s) \<Longrightarrow>
    spsc_step s (s\<lparr>rb := (rb s)\<lparr>cached_head := head (rb s)\<rparr>, consumer := CRead\<rparr>)"
| pop_load: "consumer s = CRead \<Longrightarrow>
    spsc_step s (s\<lparr>consumer := CAdvance (buffer (rb s) ! tail (rb s))\<rparr>)"
| pop_release: "consumer s = CAdvance x \<Longrightarrow>
    spsc_step s (s\<lparr>rb := (rb s)\<lparr>tail := (tail (rb s) + 1) AND kMask (rb s)\<rparr>, consumer := CIdle,
      received := received s @ [x]\<rparr>)"

inductive_cases spsc_stepE: "spsc_step s s'"

inductive spsc_run :: "'a spsc \<Rightarrow> 'a spsc \<Rightarrow> bool" for s0 where
  spsc_start: "spsc_run s0 s0"
| spsc_next: "spsc_run s0 s \<Longrightarrow> spsc_step s s' \<Longrightarrow> spsc_run s0 s'"

definition new_spsc :: "nat \<Rightarrow> 'a \<Rightarrow> 'a spsc" where
  "new_spsc cap d = \<lparr>rb = new_ring cap d, producer = PIdle, consumer = CIdle, sent = [], received = []\<rparr>"

text \<open>The invariant: the counters are the lengths of \<open>sent\<close> and \<open>received\<close>, the waiting elements are
  in their slots, a producer about to write has a free slot, a consumer about to read has a
  full one.\<close>

definition producer_ok :: "'a spsc \<Rightarrow> nat \<Rightarrow> bool" where
  "producer_ok s ct \<longleftrightarrow> (case producer s of PIdle \<Rightarrow> True | PRefresh v \<Rightarrow> True
     | PWrite v \<Rightarrow> length (sent s) + 1 < ct + ring_cap (rb s)
     | PPublish v \<Rightarrow> length (sent s) + 1 < ct + ring_cap (rb s)
         \<and> buffer (rb s) ! (length (sent s) mod ring_cap (rb s)) = v)"

definition consumer_ok :: "'a spsc \<Rightarrow> nat \<Rightarrow> bool" where
  "consumer_ok s ch \<longleftrightarrow> (case consumer s of CIdle \<Rightarrow> True | CRefresh \<Rightarrow> True
     | CRead \<Rightarrow> length (received s) < ch
     | CAdvance x \<Rightarrow> length (received s) < ch \<and> x = sent s ! length (received s))"

definition spsc_inv :: "'a spsc \<Rightarrow> bool" where
  "spsc_inv s \<longleftrightarrow> (\<exists>ct ch. ring_at (rb s) (length (sent s)) (length (received s)) ct ch
     \<and> producer_ok s ct \<and> consumer_ok s ch
     \<and> received s = take (length (received s)) (sent s)
     \<and> (\<forall>k. length (received s) \<le> k \<and> k < length (sent s) \<longrightarrow>
          buffer (rb s) ! (k mod ring_cap (rb s)) = sent s ! k))"

lemma spsc_inv_new: "0 < k \<Longrightarrow> spsc_inv (new_spsc (2 ^ k) d)"
  unfolding spsc_inv_def
  by (intro exI [of _ 0]) (auto simp: new_spsc_def new_ring_def ring_at_def producer_ok_def consumer_ok_def)

lemma ring_tests:
  assumes at: "ring_at r h t ct ch"
  shows "next_head r = (h + 1) mod ring_cap r" "(tail r + 1) AND kMask r = (t + 1) mod ring_cap r"
    "next_head r = cached_tail r \<longleftrightarrow> h + 1 = ct + ring_cap r" "next_head r = tail r \<longleftrightarrow> h + 1 = t + ring_cap r"
    "tail r = cached_head r \<longleftrightarrow> t = ch" "tail r = head r \<longleftrightarrow> t = h"
proof -
  let ?n = "ring_cap r"
  have at': "ct \<le> t" "t \<le> ch" "ch \<le> h" "h < ct + ?n" using at by (simp_all add: ring_at_def)
  show n: "next_head r = (h + 1) mod ?n" "(tail r + 1) AND kMask r = (t + 1) mod ?n"
    using at ring_mask [OF at] by (simp_all add: ring_at_def mod_Suc_eq next_head_def)
  show "next_head r = cached_tail r \<longleftrightarrow> h + 1 = ct + ?n" "next_head r = tail r \<longleftrightarrow> h + 1 = t + ?n"
    using next_is_cached [OF at, of ct] next_is_cached [OF at, of t] at at' n(1)
    by (simp_all add: ring_at_def)
  show "tail r = cached_head r \<longleftrightarrow> t = ch" "tail r = head r \<longleftrightarrow> t = h"
    using mod_eq_close [of t ch ?n] mod_eq_close [of t h ?n] at at' by (auto simp: ring_at_def)
qed

lemma spsc_invI:
  assumes "ring_at (rb s) (length (sent s)) (length (received s)) ct ch" "producer_ok s ct"
    "consumer_ok s ch" "received s = take (length (received s)) (sent s)"
    "\<And>k. length (received s) \<le> k \<Longrightarrow> k < length (sent s) \<Longrightarrow>
       buffer (rb s) ! (k mod ring_cap (rb s)) = sent s ! k"
  shows "spsc_inv s"
  using assms unfolding spsc_inv_def by blast

lemma spsc_inv_step:
  assumes "spsc_inv s" "spsc_step s s'"
  shows "spsc_inv s'"
proof -
  let ?n = "ring_cap (rb s)" and ?h = "length (sent s)" and ?t = "length (received s)"
  obtain ct ch where at: "ring_at (rb s) ?h ?t ct ch" and pr: "producer_ok s ct" and co: "consumer_ok s ch"
    and rec: "received s = take ?t (sent s)"
    and slots: "\<And>k. ?t \<le> k \<Longrightarrow> k < ?h \<Longrightarrow> buffer (rb s) ! (k mod ?n) = sent s ! k"
    using assms(1) unfolding spsc_inv_def by blast
  note tests = ring_tests [OF at]
  have bnd: "ct \<le> ?t" "?t \<le> ch" "ch \<le> ?h" "?h < ct + ?n" "length (buffer (rb s)) = ?n"
    using at by (simp_all add: ring_at_def)
  have hd: "head (rb s) = ?h mod ?n" "tail (rb s) = ?t mod ?n" using at by (simp_all add: ring_at_def)
  have n0: "0 < ?n" using ring_cap_pos [OF at] by simp
  have free: "k mod ?n \<noteq> ?h mod ?n" if "?t \<le> k" "k < ?h" for k
    using slot_free [of ?t k ?h ?n] that bnd by simp
  from assms(2) show ?thesis
  proof cases
    case (push_fast v)
    then show ?thesis
      using at co rec slots bnd tests(3)
      by (intro spsc_invI [where ct = "ct" and ch = "ch"]) (auto simp: producer_ok_def consumer_ok_def split: consumer.splits)
  next
    case (push_slow v)
    then show ?thesis
      using at co rec slots by (intro spsc_invI [where ct = "ct" and ch = "ch"]) (auto simp: producer_ok_def consumer_ok_def split: consumer.splits)
  next
    case (push_full v)
    have "ring_at ((rb s)\<lparr>cached_tail := tail (rb s)\<rparr>) ?h ?t ?t ch" using at bnd by (simp add: ring_at_def)
    with push_full show ?thesis
      using co rec slots by (intro spsc_invI [where ct = "?t" and ch = "ch"]) (auto simp: producer_ok_def consumer_ok_def split: consumer.splits)
  next
    case (push_refreshed v)
    have "ring_at ((rb s)\<lparr>cached_tail := tail (rb s)\<rparr>) ?h ?t ?t ch" using at bnd by (simp add: ring_at_def)
    with push_refreshed show ?thesis
      using co rec slots bnd tests(4) by (intro spsc_invI [where ct = "?t" and ch = "ch"]) (auto simp: producer_ok_def consumer_ok_def split: consumer.splits)
  next
    case (push_store v)
    have "ring_at ((rb s)\<lparr>buffer := (buffer (rb s))[head (rb s) := v]\<rparr>) ?h ?t ct ch"
      using at by (simp add: ring_at_def)
    moreover have "(buffer (rb s))[head (rb s) := v] ! (k mod ?n) = sent s ! k" if "?t \<le> k" "k < ?h" for k
      using slots [OF that] free [OF that] by (simp add: hd)
    moreover have "(buffer (rb s))[head (rb s) := v] ! (?h mod ?n) = v" using n0 bnd by (simp add: hd)
    ultimately show ?thesis
      using pr co rec push_store
      by (intro spsc_invI [where ct = "ct" and ch = "ch"]) (auto simp: producer_ok_def consumer_ok_def split: consumer.splits)
  next
    case (push_release v)
    have lt: "?h + 1 < ct + ?n" and v: "buffer (rb s) ! (?h mod ?n) = v"
      using pr push_release by (simp_all add: producer_ok_def)
    have "ring_at ((rb s)\<lparr>head := next_head (rb s)\<rparr>) (?h + 1) ?t ct ch"
      using at lt tests(1) by (simp add: ring_at_def)
    moreover have "buffer (rb s) ! (k mod ?n) = (sent s @ [v]) ! k" if "?t \<le> k" "k < ?h + 1" for k
      using slots [of k] that v by (cases "k = ?h") (simp_all add: nth_append)
    moreover have "take ?t (sent s @ [v]) = received s" using rec bnd by simp
    ultimately show ?thesis
      using co push_release bnd
      by (intro spsc_invI [where ct = "ct" and ch = "ch"]) (auto simp: producer_ok_def consumer_ok_def nth_append split: consumer.splits)
  next
    case pop_fast
    then show ?thesis
      using at pr rec slots bnd tests(5)
      by (intro spsc_invI [where ct = "ct" and ch = "ch"]) (auto simp: producer_ok_def consumer_ok_def split: producer.splits)
  next
    case pop_slow
    then show ?thesis
      using at pr rec slots by (intro spsc_invI [where ct = "ct" and ch = "ch"]) (auto simp: producer_ok_def consumer_ok_def split: producer.splits)
  next
    case pop_empty
    have "ring_at ((rb s)\<lparr>cached_head := head (rb s)\<rparr>) ?h ?t ct ?h" using at bnd by (simp add: ring_at_def)
    with pop_empty show ?thesis
      using pr rec slots by (intro spsc_invI [where ct = "ct" and ch = "?h"]) (auto simp: producer_ok_def consumer_ok_def split: producer.splits)
  next
    case pop_refreshed
    have "ring_at ((rb s)\<lparr>cached_head := head (rb s)\<rparr>) ?h ?t ct ?h" using at bnd by (simp add: ring_at_def)
    with pop_refreshed show ?thesis
      using pr rec slots bnd tests(6) by (intro spsc_invI [where ct = "ct" and ch = "?h"]) (auto simp: producer_ok_def consumer_ok_def split: producer.splits)
  next
    case pop_load
    have "buffer (rb s) ! tail (rb s) = sent s ! ?t"
      using slots [of ?t] co pop_load bnd hd by (simp add: consumer_ok_def)
    with pop_load show ?thesis
      using at pr co rec slots by (intro spsc_invI [where ct = "ct" and ch = "ch"]) (auto simp: producer_ok_def consumer_ok_def split: producer.splits)
  next
    case (pop_release x)
    have lt: "?t < ch" "x = sent s ! ?t" using co pop_release by (simp_all add: consumer_ok_def)
    have "ring_at ((rb s)\<lparr>tail := (tail (rb s) + 1) AND kMask (rb s)\<rparr>) ?h (?t + 1) ct ch"
      unfolding tests(2) using at lt by (simp add: ring_at_def)
    moreover have "take (?t + 1) (sent s) = received s @ [x]"
      using rec lt bnd by (simp add: take_Suc_conv_app_nth)
    ultimately show ?thesis
      using pr pop_release slots
      by (intro spsc_invI [where ct = "ct" and ch = "ch"]) (auto simp: producer_ok_def consumer_ok_def split: producer.splits)
  qed
qed

lemma spsc_run_inv: "spsc_run s0 s \<Longrightarrow> spsc_inv s0 \<Longrightarrow> spsc_inv s"
  by (induction rule: spsc_run.induct) (auto intro: spsc_inv_step)

lemma spsc_run_cap: "spsc_run s0 s \<Longrightarrow> ring_cap (rb s) = ring_cap (rb s0)"
  by (induction rule: spsc_run.induct) (auto elim: spsc_stepE)

text \<open>
  Under every interleaving of one producer and one consumer, what has been received is a
  prefix of what has been sent (nothing lost, duplicated, reordered or torn), at most
  \<open>capacity()\<close> elements wait, the producer never writes the slot the consumer is reading, a push
  is refused only when the buffer is full at that moment and a pop only when it is empty.
\<close>

lemma spsc_transfers_in_order:
  assumes "0 < k" "spsc_run (new_spsc (2 ^ k) d) s"
  shows "prefix (received s) (sent s) \<and> length (sent s) \<le> length (received s) + (2 ^ k - 1)
    \<and> (producer s = PWrite v \<and> consumer s = CRead \<longrightarrow> head (rb s) \<noteq> tail (rb s))
    \<and> (producer s = PRefresh v \<and> next_head (rb s) = tail (rb s) \<longrightarrow>
         length (sent s) = length (received s) + (2 ^ k - 1))
    \<and> (consumer s = CRefresh \<and> tail (rb s) = head (rb s) \<longrightarrow> received s = sent s)"
proof -
  have cap: "ring_cap (rb s) = 2 ^ k"
    using spsc_run_cap [OF assms(2)] by (simp add: new_spsc_def new_ring_def)
  have "spsc_inv s" by (rule spsc_run_inv [OF assms(2) spsc_inv_new [OF assms(1)]])
  then obtain ct ch where at: "ring_at (rb s) (length (sent s)) (length (received s)) ct ch"
    and co: "consumer_ok s ch" and rec: "received s = take (length (received s)) (sent s)"
    unfolding spsc_inv_def by blast
  note tests = ring_tests [OF at]
  have b: "length (received s) \<le> ch" "ch \<le> length (sent s)"
    "length (sent s) < length (received s) + 2 ^ k"
    using at cap by (auto simp: ring_at_def)
  have "prefix (received s) (sent s)" by (metis rec take_is_prefix)
  moreover have "consumer s = CRead \<Longrightarrow> head (rb s) \<noteq> tail (rb s)"
    using co tests(6) b by (auto simp: consumer_ok_def)
  moreover have "next_head (rb s) = tail (rb s) \<Longrightarrow> length (sent s) = length (received s) + (2 ^ k - 1)"
    using tests(4) cap by simp
  moreover have "tail (rb s) = head (rb s) \<Longrightarrow> received s = sent s"
    using tests(6) rec by simp
  ultimately show ?thesis using b by auto
qed

lemma step_thenI: "spsc_step s s' \<Longrightarrow> spsc_run s' s'' \<Longrightarrow> spsc_run s s''"
proof (rotate_tac, induction rule: spsc_run.induct)
  case spsc_start
  then show ?case by (rule spsc_next [OF spsc_run.spsc_start])
next
  case (spsc_next s1 s2)
  then show ?case by (blast intro: spsc_run.spsc_next)
qed

lemma write_steps:
  assumes "producer s' = PWrite v"
  shows "spsc_run s' (s'\<lparr>rb := (rb s')\<lparr>buffer := (buffer (rb s'))[head (rb s') := v], head := next_head (rb s')\<rparr>,
      producer := PIdle, sent := sent s' @ [v]\<rparr>)"
proof -
  let ?s1 = "s'\<lparr>rb := (rb s')\<lparr>buffer := (buffer (rb s'))[head (rb s') := v]\<rparr>, producer := PPublish v\<rparr>"
  have "spsc_step s' ?s1" using assms by (rule push_store)
  moreover have "spsc_step ?s1 (?s1\<lparr>rb := (rb ?s1)\<lparr>head := next_head (rb ?s1)\<rparr>, producer := PIdle,
      sent := sent ?s1 @ [v]\<rparr>)" by (rule push_release) simp
  ultimately show ?thesis
    using step_thenI [OF _ spsc_run.spsc_next [OF spsc_run.spsc_start]]
    by (fastforce simp: next_head_def kMask_def)
qed

lemma push_steps:
  assumes idle: "producer s = PIdle"
  shows "spsc_run s (s\<lparr>rb := snd (ring_push v (rb s)), producer := PIdle,
    sent := (if fst (ring_push v (rb s)) then sent s @ [v] else sent s)\<rparr>)"
proof -
  consider "next_head (rb s) \<noteq> cached_tail (rb s)" | "next_head (rb s) = cached_tail (rb s)" "next_head (rb s) = tail (rb s)"
    | "next_head (rb s) = cached_tail (rb s)" "next_head (rb s) \<noteq> tail (rb s)" by blast
  then show ?thesis
  proof cases
    case 1
    then have "ring_push v (rb s) = (True, (rb s)\<lparr>buffer := (buffer (rb s))[head (rb s) := v], head := next_head (rb s)\<rparr>)"
      by (simp add: ring_push_def next_head_def Let_def)
    then show ?thesis
      using step_thenI [OF push_fast [OF idle 1] write_steps [where v = v]] by simp
  next
    case 2
    then have "ring_push v (rb s) = (False, (rb s)\<lparr>cached_tail := tail (rb s)\<rparr>)"
      by (simp add: ring_push_def next_head_def Let_def)
    moreover have "spsc_step (s\<lparr>producer := PRefresh v\<rparr>) (s\<lparr>rb := (rb s)\<lparr>cached_tail := tail (rb s)\<rparr>, producer := PIdle\<rparr>)"
      using push_full [of "s\<lparr>producer := PRefresh v\<rparr>" v] 2 by simp
    ultimately show ?thesis
      using step_thenI [OF push_slow [OF idle 2(1)] spsc_run.spsc_next [OF spsc_run.spsc_start]] by simp
  next
    case 3
    let ?s2 = "s\<lparr>rb := (rb s)\<lparr>cached_tail := tail (rb s)\<rparr>, producer := PWrite v\<rparr>"
    have "ring_push v (rb s) = (True, (rb s)\<lparr>cached_tail := tail (rb s),
        buffer := (buffer (rb s))[head (rb s) := v], head := next_head (rb s)\<rparr>)"
      using 3 by (simp add: ring_push_def next_head_def Let_def)
    moreover have "spsc_step (s\<lparr>producer := PRefresh v\<rparr>) ?s2"
      using push_refreshed [of "s\<lparr>producer := PRefresh v\<rparr>" v] 3 by simp
    ultimately show ?thesis
      using step_thenI [OF push_slow [OF idle 3(1)] step_thenI [OF _ write_steps [of ?s2 v]]]
      by (simp add: next_head_def kMask_def)
  qed
qed

lemma read_steps:
  assumes "consumer s = CRead"
  shows "spsc_run s (s\<lparr>rb := (rb s)\<lparr>tail := (tail (rb s) + 1) AND kMask (rb s)\<rparr>, consumer := CIdle,
    received := received s @ [buffer (rb s) ! tail (rb s)]\<rparr>)"
proof -
  let ?s1 = "s\<lparr>consumer := CAdvance (buffer (rb s) ! tail (rb s))\<rparr>"
  have "spsc_step s ?s1" using assms by (rule pop_load)
  moreover have "spsc_step ?s1 (?s1\<lparr>rb := (rb ?s1)\<lparr>tail := (tail (rb ?s1) + 1) AND kMask (rb ?s1)\<rparr>,
      consumer := CIdle, received := received ?s1 @ [buffer (rb s) ! tail (rb s)]\<rparr>)"
    by (rule pop_release) simp
  ultimately show ?thesis
    using step_thenI [OF _ spsc_run.spsc_next [OF spsc_run.spsc_start]] by fastforce
qed

lemma pop_steps:
  assumes idle: "consumer s = CIdle"
  shows "spsc_run s (s\<lparr>rb := snd (ring_pop (rb s)), consumer := CIdle,
    received := received s @ (case fst (ring_pop (rb s)) of None \<Rightarrow> [] | Some x \<Rightarrow> [x])\<rparr>)"
proof -
  consider "tail (rb s) \<noteq> cached_head (rb s)" | "tail (rb s) = cached_head (rb s)" "tail (rb s) = head (rb s)"
    | "tail (rb s) = cached_head (rb s)" "tail (rb s) \<noteq> head (rb s)" by blast
  then show ?thesis
  proof cases
    case 1
    then show ?thesis
      using step_thenI [OF pop_fast [OF idle 1] read_steps] by (simp add: ring_pop_def Let_def)
  next
    case 2
    have "spsc_step (s\<lparr>consumer := CRefresh\<rparr>) (s\<lparr>rb := (rb s)\<lparr>cached_head := head (rb s)\<rparr>, consumer := CIdle\<rparr>)"
      using pop_empty [of "s\<lparr>consumer := CRefresh\<rparr>"] 2 by simp
    then show ?thesis
      using step_thenI [OF pop_slow [OF idle 2(1)] spsc_run.spsc_next [OF spsc_run.spsc_start]] 2
      by (simp add: ring_pop_def Let_def)
  next
    case 3
    let ?s2 = "s\<lparr>rb := (rb s)\<lparr>cached_head := head (rb s)\<rparr>, consumer := CRead\<rparr>"
    have "spsc_step (s\<lparr>consumer := CRefresh\<rparr>) ?s2"
      using pop_refreshed [of "s\<lparr>consumer := CRefresh\<rparr>"] 3 by simp
    then show ?thesis
      using step_thenI [OF pop_slow [OF idle 3(1)] step_thenI [OF _ read_steps [of ?s2]]] 3
      by (simp add: ring_pop_def Let_def kMask_def)
  qed
qed

text \<open>
  A push or pop that is not interrupted takes at most four steps of the interleaving
  model and has exactly the effect and the result of the sequential operation, so the two
  models describe the same code.
\<close>

lemma steps_implement_push_pop:
  "(producer s = PIdle \<longrightarrow> spsc_run s (s\<lparr>rb := snd (ring_push v (rb s)), producer := PIdle,
      sent := (if fst (ring_push v (rb s)) then sent s @ [v] else sent s)\<rparr>))
   \<and> (consumer s = CIdle \<longrightarrow> spsc_run s (s\<lparr>rb := snd (ring_pop (rb s)), consumer := CIdle,
      received := received s @ (case fst (ring_pop (rb s)) of None \<Rightarrow> [] | Some x \<Rightarrow> [x])\<rparr>))"
  using push_steps [of s v] pop_steps [of s] by blast

lemma spsc_transfers_in_order_example:
  "\<exists>s. spsc_run (new_spsc (2 ^ 1) 0) s \<and> sent s = [5 :: nat] \<and> prefix (received s) (sent s)"
proof -
  let ?init = "new_spsc (2 ^ 1) (0 :: nat)"
  have idle: "producer ?init = PIdle" and ok: "fst (ring_push 5 (rb ?init))"
    using mask_mod [of 1 1]
    by (simp_all add: new_spsc_def new_ring_def ring_push_def kMask_def Let_def)
  let ?s = "?init\<lparr>rb := snd (ring_push 5 (rb ?init)), producer := PIdle, sent := [5]\<rparr>"
  have "spsc_run ?init ?s" using push_steps [OF idle, of 5] ok by (simp add: new_spsc_def)
  with spsc_transfers_in_order [OF zero_less_one this, of 0] show ?thesis by (intro exI [of _ ?s]) simp
qed

lemma steps_implement_push_pop_example:
  "spsc_run (new_spsc 2 (0 :: nat)) ((new_spsc 2 0)\<lparr>rb := snd (ring_pop (rb (new_spsc 2 0))), consumer := CIdle\<rparr>)"
  using steps_implement_push_pop [of "new_spsc 2 (0 :: nat)" 0]
  by (simp add: new_spsc_def new_ring_def ring_pop_def Let_def)

end
