(* ===== verification/Book_Streams.thy ===== *)
theory Book_Streams
  imports Order_Book
begin

text \<open>
  Streams of events and the books they build: which prices hold a level after an event, and
  predicates that hold of the book after every prefix of a stream.  The adapters that produce
  such streams (\<open>Trade_Tape\<close>, \<open>Synthetic_Book\<close>) are verified with these facts.
\<close>

section \<open>The prices of a side\<close>

definition bid_prices :: "order_book \<Rightarrow> price set" where
  "bid_prices b = lvl_price ` set (bids b)"

definition ask_prices :: "order_book \<Rightarrow> price set" where
  "ask_prices b = lvl_price ` set (asks b)"

lemma prices_new [simp]: "bid_prices (new_book s) = {}" "ask_prices (new_book s) = {}"
  by (simp_all add: bid_prices_def ask_prices_def new_book_def)

lemma prices_apply_event:
  assumes "book_ok b"
  shows "bid_prices (apply_event ev b) =
      (case ev_type ev of
         Quote \<Rightarrow> if ev_side ev \<noteq> Buy then bid_prices b
                  else if ev_quantity ev = 0 then bid_prices b - {ev_price ev} else insert (ev_price ev) (bid_prices b)
       | BookDelete \<Rightarrow> if ev_side ev \<noteq> Buy then bid_prices b else bid_prices b - {ev_price ev}
       | Snapshot \<Rightarrow> {} | _ \<Rightarrow> bid_prices b)"
    and "ask_prices (apply_event ev b) =
      (case ev_type ev of
         Quote \<Rightarrow> if ev_side ev = Buy then ask_prices b
                  else if ev_quantity ev = 0 then ask_prices b - {ev_price ev} else insert (ev_price ev) (ask_prices b)
       | BookDelete \<Rightarrow> if ev_side ev = Buy then ask_prices b else ask_prices b - {ev_price ev}
       | Snapshot \<Rightarrow> {} | _ \<Rightarrow> ask_prices b)"
proof -
  have ok: "levels_ok (>) (bids b)" "levels_ok (<) (asks b)"
    using assms by (simp_all add: book_ok_def)
  have bid: "bid_prices b' = dom (level_map (bids b'))" and ask: "ask_prices b' = dom (level_map (asks b'))" for b'
    by (simp_all add: bid_prices_def ask_prices_def dom_level_map)
  show "bid_prices (apply_event ev b) =
      (case ev_type ev of
         Quote \<Rightarrow> if ev_side ev \<noteq> Buy then bid_prices b
                  else if ev_quantity ev = 0 then bid_prices b - {ev_price ev} else insert (ev_price ev) (bid_prices b)
       | BookDelete \<Rightarrow> if ev_side ev \<noteq> Buy then bid_prices b else bid_prices b - {ev_price ev}
       | Snapshot \<Rightarrow> {} | _ \<Rightarrow> bid_prices b)"
    unfolding bid by (cases "ev_type ev")
      (simp_all add: apply_event_def Let_def upsert_def erase_def clear_def bid_store.lookup_upd [OF ok(1)]
        bid_store.lookup_del [OF ok(1)] bid_store.lookup_empty)
  show "ask_prices (apply_event ev b) =
      (case ev_type ev of
         Quote \<Rightarrow> if ev_side ev = Buy then ask_prices b
                  else if ev_quantity ev = 0 then ask_prices b - {ev_price ev} else insert (ev_price ev) (ask_prices b)
       | BookDelete \<Rightarrow> if ev_side ev = Buy then ask_prices b else ask_prices b - {ev_price ev}
       | Snapshot \<Rightarrow> {} | _ \<Rightarrow> ask_prices b)"
    unfolding ask by (cases "ev_type ev")
      (simp_all add: apply_event_def Let_def upsert_def erase_def clear_def levels_ops_not_Buy [of "ev_side ev"]
        ask_store.lookup_upd [OF ok(2)] ask_store.lookup_del [OF ok(2)] ask_store.lookup_empty)
qed

text \<open>The same for the events the factories of \<open>MarketEvent\<close> make.\<close>

lemma prices_make [simp]:
  assumes "book_ok b"
  shows "bid_prices (apply_event (make_trade ts n sy sd px q) b) = bid_prices b"
    "ask_prices (apply_event (make_trade ts n sy sd px q) b) = ask_prices b"
    "bid_prices (apply_event (make_heartbeat ts n sy) b) = bid_prices b"
    "ask_prices (apply_event (make_heartbeat ts n sy) b) = ask_prices b"
    "bid_prices (apply_event (make_delete ts n sy Buy px) b) = bid_prices b - {px}"
    "ask_prices (apply_event (make_delete ts n sy Buy px) b) = ask_prices b"
    "bid_prices (apply_event (make_delete ts n sy Sell px) b) = bid_prices b"
    "ask_prices (apply_event (make_delete ts n sy Sell px) b) = ask_prices b - {px}"
    "q \<noteq> 0 \<Longrightarrow> bid_prices (apply_event (make_quote ts n sy Buy px q) b) = insert px (bid_prices b)"
    "ask_prices (apply_event (make_quote ts n sy Buy px q) b) = ask_prices b"
    "bid_prices (apply_event (make_quote ts n sy Sell px q) b) = bid_prices b"
    "q \<noteq> 0 \<Longrightarrow> ask_prices (apply_event (make_quote ts n sy Sell px q) b) = insert px (ask_prices b)"
  using assms by (simp_all add: prices_apply_event make_event_defs)

lemma sorted_wrt_distinct: "sorted_wrt R xs \<Longrightarrow> (\<And>x. \<not> R x x) \<Longrightarrow> distinct xs"
  by (induction xs) auto

lemma level_count_prices:
  assumes "book_ok b"
  shows "bid_level_count b = card (bid_prices b)" "ask_level_count b = card (ask_prices b)"
proof -
  have "distinct (map lvl_price (bids b))" "distinct (map lvl_price (asks b))"
    using assms unfolding book_ok_def levels_ok_def by (auto intro: sorted_wrt_distinct)
  then have "card (lvl_price ` set (bids b)) = length (map lvl_price (bids b))"
    "card (lvl_price ` set (asks b)) = length (map lvl_price (asks b))"
    by (metis distinct_card list.set_map)+
  then show "bid_level_count b = card (bid_prices b)" "ask_level_count b = card (ask_prices b)"
    by (simp_all add: bid_level_count_def ask_level_count_def bid_prices_def ask_prices_def)
qed

lemma best_of_single_level:
  assumes "book_ok b"
  shows "bid_prices b = {p} \<Longrightarrow> best_bid b = Some p" "ask_prices b = {q} \<Longrightarrow> best_ask b = Some q"
  using best_bid_eq [OF assms] best_ask_eq [OF assms]
  by (auto simp: bid_prices_def ask_prices_def dom_level_map [symmetric])

section \<open>Separated books\<close>

definition separated :: "order_book \<Rightarrow> bool" where
  "separated b \<longleftrightarrow> book_ok b \<and> (\<forall>p \<in> bid_prices b. \<forall>q \<in> ask_prices b. p < q)"

lemma separated_new [simp]: "separated (new_book s)"
  by (simp add: separated_def)

lemma separated_not_crossed: "separated b \<Longrightarrow> \<not> crossed b"
  by (auto simp: separated_def crossed_def best_bid_def best_ask_def bid_prices_def ask_prices_def
      less_price_def split: list.splits)

lemma separated_apply:
  assumes "separated b" "bid_prices (apply_event ev b) \<subseteq> bid_prices b"
    "ask_prices (apply_event ev b) \<subseteq> ask_prices b"
  shows "separated (apply_event ev b)"
  using assms unfolding separated_def by (auto simp: book_ok_apply_event)

section \<open>Predicates along a stream\<close>

definition throughout :: "('s \<Rightarrow> bool) \<Rightarrow> ('e \<Rightarrow> 's \<Rightarrow> 's) \<Rightarrow> 'e list \<Rightarrow> 's \<Rightarrow> bool" where
  "throughout P f es s \<longleftrightarrow> (\<forall>n. P (fold f (take n es) s))"

lemma throughout_Nil [simp]: "throughout P f [] s \<longleftrightarrow> P s"
  by (simp add: throughout_def)

lemma throughout_Cons [simp]: "throughout P f (e # es) s \<longleftrightarrow> P s \<and> throughout P f es (f e s)"
proof -
  have "(\<forall>n. P (fold f (take n (e # es)) s)) \<longleftrightarrow>
      P (fold f (take 0 (e # es)) s) \<and> (\<forall>n. P (fold f (take (Suc n) (e # es)) s))"
    by (metis not0_implies_Suc)
  then show ?thesis by (simp add: throughout_def)
qed

lemma throughout_start: "throughout P f es s \<Longrightarrow> P s"
  by (cases es) simp_all

lemma throughout_append [simp]:
  "throughout P f (es @ es') s \<longleftrightarrow> throughout P f es s \<and> throughout P f es' (fold f es s)"
  by (induction es arbitrary: s) (auto dest: throughout_start)

lemma throughout_take: "throughout P f es s \<Longrightarrow> P (fold f (take n es) s)"
  by (simp add: throughout_def)

end
