(* ===== verification/Trade_Tape.thy ===== *)
theory Trade_Tape
  imports Book_Streams
begin

text \<open>
  The adapter of \<open>src/marketdata/trade_tape_adapter.hpp\<close>, which turns a tape of trades into the
  event stream of the pipeline: the trade itself, with the aggressor inferred by the tick rule,
  and a synthetic one-level book around its price.
\<close>

section \<open>The adapter\<close>

record finnhub_trade =
  ft_symbol :: string
  ft_price :: double
  ft_volume :: double
  ft_timestamp_ms :: int

text \<open>\<open>std::llround\<close>: to the nearest integer, halves away from zero; unspecified outside 64 bits.\<close>

fun llround :: "double \<Rightarrow> int" where
  "llround (Fin a) = (let r = (if 0 \<le> a then \<lfloor>a + 1 / 2\<rfloor> else \<lceil>a - 1 / 2\<rceil>)
     in if int64_ok r then r else undefined)"
| "llround _ = undefined"

record adapter =
  half_spread :: double
  ad_seq :: u64
  last_price :: "double option"
  last_side :: side
  syn_bid :: "price option"
  syn_ask :: "price option"

definition new_adapter :: "double \<Rightarrow> adapter" where
  "new_adapter synthetic_spread =
     \<lparr>half_spread = ddiv synthetic_spread (Fin 2), ad_seq = 1, last_price = None, last_side = Buy,
      syn_bid = None, syn_ask = None\<rparr>"

definition tick_rule :: "double \<Rightarrow> adapter \<Rightarrow> side" where
  "tick_rule px a =
     (case last_price a of
        None \<Rightarrow> last_side a
      | Some lp \<Rightarrow> if dlt lp px then Buy else if dlt px lp then Sell else last_side a)"

text \<open>\<open>out.push_back(... seq_++ ...)\<close>\<close>

definition emit :: "(u64 \<Rightarrow> market_event) \<Rightarrow> adapter \<times> market_event list \<Rightarrow> adapter \<times> market_event list" where
  "emit mk st = (let (a, out) = st in (a\<lparr>ad_seq := ad_seq a + 1\<rparr>, out @ [mk (ad_seq a)]))"

text \<open>\<open>if (old && *old != fresh) out.push_back(make_delete(...))\<close>\<close>

definition drop_moved ::
  "int \<Rightarrow> symbol \<Rightarrow> side \<Rightarrow> price option \<Rightarrow> price \<Rightarrow> adapter \<times> market_event list \<Rightarrow> adapter \<times> market_event list"
where
  "drop_moved ts sy s old fresh st =
     (case old of
        None \<Rightarrow> st
      | Some px \<Rightarrow> if px \<noteq> fresh then emit (\<lambda>n. make_delete ts n sy s px) st else st)"

definition tape_on_trade :: "finnhub_trade \<Rightarrow> adapter \<times> market_event list \<Rightarrow> adapter \<times> market_event list" where
  "tape_on_trade trade st =
     (let (a0, out) = st;
          sy = symbol_of (ft_symbol trade);
          ts = ft_timestamp_ms trade * 1000000;
          qty = max 1 (llround (ft_volume trade));
          sd = tick_rule (ft_price trade) a0;
          a = a0\<lparr>last_price := Some (ft_price trade), last_side := sd\<rparr>;
          st1 = emit (\<lambda>n. make_trade ts n sy sd (from_double (ft_price trade)) qty) (a, out);
          new_bid = from_double (dsub (ft_price trade) (half_spread a));
          new_ask = from_double (dadd (ft_price trade) (half_spread a));
          st2 = drop_moved ts sy Buy (syn_bid a) new_bid st1;
          st3 = drop_moved ts sy Sell (syn_ask a) new_ask st2;
          st4 = emit (\<lambda>n. make_quote ts n sy Buy new_bid qty) st3;
          (a5, out5) = emit (\<lambda>n. make_quote ts n sy Sell new_ask qty) st4
      in (a5\<lparr>syn_bid := Some new_bid, syn_ask := Some new_ask\<rparr>, out5))"

lemmas tape_defs = tape_on_trade_def drop_moved_def emit_def Let_def

section \<open>Sequence numbers\<close>

text \<open>The numbers \<open>a, a + 1, \<dots>, b - 1\<close> as the 64-bit counter runs through them.\<close>

fun consecutive :: "u64 \<Rightarrow> market_event list \<Rightarrow> bool" where
  "consecutive n [] \<longleftrightarrow> True"
| "consecutive n (ev # evs) \<longleftrightarrow> ev_sequence ev = n \<and> consecutive (n + 1) evs"

lemma consecutive_append:
  "consecutive n (es @ es') \<longleftrightarrow> consecutive n es \<and> consecutive (n + of_nat (length es)) es'"
  by (induction es arbitrary: n) (simp_all add: algebra_simps)

text \<open>What has been emitted is numbered from one, and the counter is the next number.\<close>

definition numbered :: "adapter \<times> market_event list \<Rightarrow> bool" where
  "numbered st \<longleftrightarrow> consecutive 1 (snd st) \<and> ad_seq (fst st) = 1 + of_nat (length (snd st))"

lemma numbered_emit: "numbered st \<Longrightarrow> (\<And>n. ev_sequence (f n) = n) \<Longrightarrow> numbered (emit f st)"
  by (auto simp: numbered_def emit_def consecutive_append algebra_simps split: prod.split)

lemma numbered_drop: "numbered st \<Longrightarrow> numbered (drop_moved ts sy s old fresh st)"
  by (auto simp: drop_moved_def make_event_defs intro!: numbered_emit split: option.split)

lemma numbered_cong:
  "numbered (a\<lparr>last_price := x, last_side := y\<rparr>, out) = numbered (a, out)"
  "numbered (a\<lparr>syn_bid := p, syn_ask := q\<rparr>, out) = numbered (a, out)"
  by (simp_all add: numbered_def)

lemma numbered_tape: "numbered st \<Longrightarrow> numbered (tape_on_trade t st)"
  unfolding tape_on_trade_def Let_def
  by (auto simp: numbered_cong case_prod_beta make_event_defs
      intro!: numbered_emit numbered_drop)

lemma numbered_fold: "numbered st \<Longrightarrow> numbered (fold tape_on_trade ts st)"
  by (induction ts arbitrary: st) (simp_all add: numbered_tape)

section \<open>The synthetic book\<close>

text \<open>The book that the emitted events build, and the fields of the adapter that mirror it.\<close>

definition overlay :: "price option \<Rightarrow> price option \<Rightarrow> order_book \<Rightarrow> bool" where
  "overlay bid ask b \<longleftrightarrow> separated b \<and> bid_prices b = set_option bid \<and> ask_prices b = set_option ask"

definition book_of :: "symbol \<Rightarrow> market_event list \<Rightarrow> order_book" where
  "book_of s evs = fold apply_event evs (new_book s)"

definition clean :: "symbol \<Rightarrow> price option \<Rightarrow> price option \<Rightarrow> market_event list \<Rightarrow> bool" where
  "clean s bid ask evs \<longleftrightarrow> throughout separated apply_event evs (new_book s) \<and> overlay bid ask (book_of s evs)"

lemma clean_snoc:
  assumes "clean s bid ask evs" "overlay bid' ask' (apply_event ev (book_of s evs))"
  shows "clean s bid' ask' (evs @ [ev])"
  using assms by (simp add: clean_def book_of_def overlay_def)

lemma clean_overlay: "clean s bid ask evs \<Longrightarrow> overlay bid ask (book_of s evs)"
  by (simp add: clean_def)

lemmas overlay_simps = overlay_def separated_def book_ok_apply_event

lemma clean_trade:
  assumes "clean s bid ask evs"
  shows "clean s bid ask (evs @ [make_trade ts n sy sd px q])"
  by (rule clean_snoc [OF assms]) (use clean_overlay [OF assms] in \<open>auto simp: overlay_simps\<close>)

lemma clean_delete_bid:
  assumes "clean s (Some px) ask evs"
  shows "clean s None ask (evs @ [make_delete ts n sy Buy px])"
  by (rule clean_snoc [OF assms]) (use clean_overlay [OF assms] in \<open>auto simp: overlay_simps\<close>)

lemma clean_delete_ask:
  assumes "clean s bid (Some px) evs"
  shows "clean s bid None (evs @ [make_delete ts n sy Sell px])"
  by (rule clean_snoc [OF assms]) (use clean_overlay [OF assms] in \<open>auto simp: overlay_simps\<close>)

lemma clean_quote_bid:
  assumes "clean s bid ask evs" "q \<noteq> 0" "bid \<in> {None, Some px}" "\<And>a. ask = Some a \<Longrightarrow> px < a"
  shows "clean s (Some px) ask (evs @ [make_quote ts n sy Buy px q])"
  by (rule clean_snoc [OF assms(1)])
    (use clean_overlay [OF assms(1)] assms(2-4) in \<open>auto simp: overlay_simps\<close>)

lemma clean_quote_ask:
  assumes "clean s bid ask evs" "q \<noteq> 0" "ask \<in> {None, Some px}" "\<And>b. bid = Some b \<Longrightarrow> b < px"
  shows "clean s bid (Some px) (evs @ [make_quote ts n sy Sell px q])"
  by (rule clean_snoc [OF assms(1)])
    (use clean_overlay [OF assms(1)] assms(2-4) in \<open>auto simp: overlay_simps\<close>)

text \<open>After the deletions a side is empty or already at its new price.\<close>

lemma clean_drop_moved:
  assumes "clean s bid ask (snd st)"
  shows "clean s (if bid = Some fresh then bid else None) ask (snd (drop_moved ts sy Buy bid fresh st))"
    and "clean s bid (if ask = Some fresh then ask else None) (snd (drop_moved ts sy Sell ask fresh st))"
  using assms by (auto intro: clean_delete_bid clean_delete_ask simp: drop_moved_def emit_def split: option.split prod.split)

lemma snd_emit: "snd (emit mk st) = snd st @ [mk (ad_seq (fst st))]"
  by (simp add: emit_def case_prod_beta Let_def)

lemma clean_tape_on_trade:
  assumes "clean s (syn_bid a) (syn_ask a) out"
    and "from_double (dsub (ft_price t) (half_spread a)) < from_double (dadd (ft_price t) (half_spread a))"
  defines "st \<equiv> tape_on_trade t (a, out)"
  shows "clean s (syn_bid (fst st)) (syn_ask (fst st)) (snd st)"
proof -
  let ?nb = "from_double (dsub (ft_price t) (half_spread a))"
  let ?na = "from_double (dadd (ft_price t) (half_spread a))"
  let ?sy = "symbol_of (ft_symbol t)" and ?ts = "ft_timestamp_ms t * 1000000"
    and ?q = "max 1 (llround (ft_volume t))" and ?sd = "tick_rule (ft_price t) a"
  define st1 where "st1 = emit (\<lambda>n. make_trade ?ts n ?sy ?sd (from_double (ft_price t)) ?q)
      (a\<lparr>last_price := Some (ft_price t), last_side := ?sd\<rparr>, out)"
  define st2 where "st2 = drop_moved ?ts ?sy Buy (syn_bid a) ?nb st1"
  define st3 where "st3 = drop_moved ?ts ?sy Sell (syn_ask a) ?na st2"
  define st4 where "st4 = emit (\<lambda>n. make_quote ?ts n ?sy Buy ?nb ?q) st3"
  define st5 where "st5 = emit (\<lambda>n. make_quote ?ts n ?sy Sell ?na ?q) st4"
  have q: "?q \<noteq> 0" by simp
  have "clean s (syn_bid a) (syn_ask a) (snd st1)"
    unfolding st1_def snd_emit using assms(1) by (simp add: clean_trade)
  then have "clean s (if syn_bid a = Some ?nb then syn_bid a else None) (syn_ask a) (snd st2)"
    unfolding st2_def by (rule clean_drop_moved)
  then have "clean s (if syn_bid a = Some ?nb then syn_bid a else None)
      (if syn_ask a = Some ?na then syn_ask a else None) (snd st3)"
    unfolding st3_def by (rule clean_drop_moved)
  then have "clean s (Some ?nb) (if syn_ask a = Some ?na then syn_ask a else None) (snd st4)"
    unfolding st4_def snd_emit by (rule clean_quote_bid [OF _ q]) (use assms(2) in \<open>auto split: if_splits\<close>)
  then have "clean s (Some ?nb) (Some ?na) (snd st5)"
    unfolding st5_def snd_emit by (rule clean_quote_ask [OF _ q]) (use assms(2) in \<open>auto split: if_splits\<close>)
  moreover have "syn_bid (fst st) = Some ?nb" "syn_ask (fst st) = Some ?na" "snd st = snd st5"
    unfolding st_def tape_on_trade_def Let_def st5_def st4_def st3_def st2_def st1_def
    by (simp_all add: case_prod_beta)
  ultimately show ?thesis by simp
qed

lemma half_spread_tape [simp]: "half_spread (fst (tape_on_trade t st)) = half_spread (fst st)"
  by (auto simp: tape_defs split: prod.splits option.splits)

section \<open>When the two synthetic prices differ\<close>

text \<open>With half a spread of at least one tick there are two neighbouring ticks between the exact
  bid and ask; all conversions are monotone, so the rounded prices keep apart.\<close>

lemma synthetic_prices_differ:
  assumes "1 / 10000 \<le> h" "h \<le> two_pow 33" "\<bar>p\<bar> \<le> two_pow 33"
  shows "from_double (dsub (Fin p) (Fin h)) < from_double (dadd (Fin p) (Fin h))"
proof -
  define t where "t = \<lceil>(p - h) * 10000\<rceil>"
  have t: "p - h \<le> of_int t / 10000" "of_int (t + 1) / 10000 \<le> p + h"
    using assms(1) ceiling_correct [of "(p - h) * 10000"] by (simp_all add: t_def field_simps)
  have near: "\<bar>p - h\<bar> \<le> two_pow 34" "\<bar>p + h\<bar> \<le> two_pow 34"
    using assms unfolding abs_le_iff by (auto simp: two_pow_def)
  have "of_int t < (of_int (2 ^ 48 - 1) :: rat)" "of_int (- (2 ^ 48)) < (of_int t :: rat)"
    using near t(1) ceiling_correct [of "(p - h) * 10000"] unfolding abs_le_iff t_def [symmetric]
    by (simp_all add: two_pow_def)
  then have tb: "t < 2 ^ 48 - 1" "- (2 ^ 48) < t" by (simp_all only: of_int_less_iff)
  have dbl: "to_double (Price i) = Fin (rnd_rat (of_int i / 10000))" "from_double (to_double (Price i)) = Price i"
    "\<bar>rnd_rat (of_int i / 10000)\<bar> \<le> two_pow 47" if i: "i \<in> {t, t + 1}" for i
  proof -
    have b: "\<bar>i\<bar> \<le> 2 ^ 48" using i tb by auto
    then show "to_double (Price i) = Fin (rnd_rat (of_int i / 10000))"
      by (intro to_double_exact_arg [of "Price i", simplified]) simp
    show "from_double (to_double (Price i)) = Price i"
      using b by (intro from_double_to_double) simp
    have "\<bar>of_int i :: rat\<bar> \<le> of_int (2 ^ 48)" using b by (simp only: of_int_le_iff of_int_abs [symmetric])
    then have "\<bar>of_int i / 10000 :: rat\<bar> \<le> two_pow 47" by (simp add: two_pow_def)
    then show "\<bar>rnd_rat (of_int i / 10000)\<bar> \<le> two_pow 47" by (rule rnd_rat_abs_le) simp
  qed
  have r: "dsub (Fin p) (Fin h) = Fin (rnd_rat (p - h))" "dadd (Fin p) (Fin h) = Fin (rnd_rat (p + h))"
    using rnd_Fin_le [OF near(1)] rnd_Fin_le [OF near(2)] by simp_all
  have rb: "\<bar>rnd_rat (p - h)\<bar> \<le> two_pow 47" "\<bar>rnd_rat (p + h)\<bar> \<le> two_pow 47"
    using rnd_rat_abs_le [OF near(1)] rnd_rat_abs_le [OF near(2)]
    by (auto intro: order_trans [of _ "two_pow 34"])
  have "from_double (dsub (Fin p) (Fin h)) \<le> from_double (to_double (Price t))"
    unfolding r dbl(1) [of t, simplified] by (intro from_double_mono rb dbl(3) rnd_rat_mono t(1)) simp
  also have "\<dots> < from_double (to_double (Price (t + 1)))" by (simp add: dbl(2) less_price_def)
  also have "\<dots> \<le> from_double (dadd (Fin p) (Fin h))"
    unfolding r dbl(1) [of "t + 1", OF insertI2, OF singletonI]
    by (intro from_double_mono rb dbl(3) rnd_rat_mono t(2)) simp
  finally show ?thesis .
qed

text \<open>A trade whose price is a number of moderate size.\<close>

definition sane_trade :: "finnhub_trade \<Rightarrow> bool" where
  "sane_trade t \<longleftrightarrow> (\<exists>p. ft_price t = Fin p \<and> \<bar>p\<bar> \<le> two_pow 33)"

lemma clean_fold:
  assumes "clean s (syn_bid (fst st)) (syn_ask (fst st)) (snd st)"
    "half_spread (fst st) = Fin h" "1 / 10000 \<le> h" "h \<le> two_pow 33" "\<forall>t\<in>set ts. sane_trade t"
  defines "st' \<equiv> fold tape_on_trade ts st"
  shows "clean s (syn_bid (fst st')) (syn_ask (fst st')) (snd st')"
  unfolding st'_def using assms(1,2,5)
proof (induction ts arbitrary: st)
  case (Cons t ts)
  obtain a out where st: "st = (a, out)" by (cases st)
  obtain p where p: "ft_price t = Fin p" "\<bar>p\<bar> \<le> two_pow 33" using Cons.prems(3) by (auto simp: sane_trade_def)
  have "clean s (syn_bid (fst (tape_on_trade t st))) (syn_ask (fst (tape_on_trade t st))) (snd (tape_on_trade t st))"
    unfolding st using Cons.prems(1,2) synthetic_prices_differ [OF assms(3,4) p(2)]
    by (intro clean_tape_on_trade) (simp_all add: st p(1))
  then show ?case using Cons by simp
qed simp

lemma numbered_new [simp]: "numbered (new_adapter sp, [])"
  by (simp add: numbered_def new_adapter_def)

lemma clean_new [simp]: "clean s (syn_bid (new_adapter sp)) (syn_ask (new_adapter sp)) []"
  by (simp add: clean_def overlay_def book_of_def new_adapter_def)

lemma syn_prices_tape:
  "syn_bid (fst (tape_on_trade t st)) = Some (from_double (dsub (ft_price t) (half_spread (fst st))))"
  "syn_ask (fst (tape_on_trade t st)) = Some (from_double (dadd (ft_price t) (half_spread (fst st))))"
  by (auto simp: tape_on_trade_def Let_def split: prod.splits)

lemma half_spread_fold [simp]: "half_spread (fst (fold tape_on_trade ts st)) = half_spread (fst st)"
  by (induction ts arbitrary: st) simp_all

lemma overlay_best:
  assumes "overlay (Some p) (Some q) b"
  shows "best_bid b = Some p \<and> best_ask b = Some q \<and> bid_level_count b = 1 \<and> ask_level_count b = 1"
proof -
  have ok: "book_ok b" and d: "bid_prices b = {p}" "ask_prices b = {q}"
    using assms by (simp_all add: overlay_def separated_def)
  from best_of_single_level [OF ok] level_count_prices [OF ok] d show ?thesis by simp
qed

section \<open>Properties\<close>

text \<open>C23: With half a spread of at least one tick and prices of moderate size, the stream that the
  adapter makes of a tape of trades is numbered consecutively from one, the book it builds is
  crossed after none of its events, and after every batch the book has exactly one bid and one
  ask, half a spread below and above the last trade.\<close>

theorem tape_stream_sound:
  assumes "ddiv sp (Fin 2) = Fin h" "1 / 10000 \<le> h" "h \<le> two_pow 33" "\<forall>t\<in>set (ts @ [t]). sane_trade t"
    and "fold tape_on_trade (ts @ [t]) (new_adapter sp, []) = (a, evs)"
  shows "consecutive 1 evs
    \<and> (\<forall>n. \<not> crossed (fold apply_event (take n evs) (new_book s)))
    \<and> best_bid (fold apply_event evs (new_book s)) = Some (from_double (dsub (ft_price t) (Fin h)))
    \<and> best_ask (fold apply_event evs (new_book s)) = Some (from_double (dadd (ft_price t) (Fin h)))
    \<and> bid_level_count (fold apply_event evs (new_book s)) = 1
    \<and> ask_level_count (fold apply_event evs (new_book s)) = 1"
proof -
  have h: "half_spread (new_adapter sp) = Fin h" using assms(1) by (simp add: new_adapter_def)
  have "numbered (fold tape_on_trade (ts @ [t]) (new_adapter sp, []))" by (rule numbered_fold) simp
  then have "consecutive 1 evs" unfolding assms(5) by (simp add: numbered_def)
  moreover have c: "clean s (syn_bid a) (syn_ask a) evs"
    using clean_fold [of s "(new_adapter sp, [])" h "ts @ [t]"] h assms(2-5) by simp
  then have "throughout separated apply_event evs (new_book s)" by (simp add: clean_def)
  then have "\<forall>n. \<not> crossed (fold apply_event (take n evs) (new_book s))"
    using separated_not_crossed by (simp add: throughout_def)
  moreover have "syn_bid a = Some (from_double (dsub (ft_price t) (Fin h)))"
    "syn_ask a = Some (from_double (dadd (ft_price t) (Fin h)))"
    using assms(5) syn_prices_tape [of t "fold tape_on_trade ts (new_adapter sp, [])"] by (simp_all add: h)
  then have "overlay (Some (from_double (dsub (ft_price t) (Fin h)))) (Some (from_double (dadd (ft_price t) (Fin h))))
      (book_of s evs)" using clean_overlay [OF c] by simp
  ultimately show ?thesis using overlay_best unfolding book_of_def by blast
qed

definition tape_sample :: "rat \<Rightarrow> finnhub_trade" where
  "tape_sample p = \<lparr>ft_symbol = ''AAPL'', ft_price = Fin p, ft_volume = Fin 5, ft_timestamp_ms = 1\<rparr>"

theorem tape_stream_sound_witness:
  "\<exists>a evs. fold tape_on_trade [tape_sample 100, tape_sample 101] (new_adapter (Fin 2), []) = (a, evs)
    \<and> consecutive 1 evs
    \<and> best_bid (fold apply_event evs (new_book ''AAPL'')) = Some (from_double (Fin 100))
    \<and> best_ask (fold apply_event evs (new_book ''AAPL'')) = Some (from_double (Fin 102))"
proof -
  obtain a evs where e: "fold tape_on_trade [tape_sample 100, tape_sample 101] (new_adapter (Fin 2), []) = (a, evs)"
    by (metis prod.exhaust)
  have "sane_trade (tape_sample 100)" "sane_trade (tape_sample 101)"
    by (simp_all add: sane_trade_def tape_sample_def two_pow_def)
  then have "consecutive 1 evs
      \<and> best_bid (fold apply_event evs (new_book ''AAPL'')) = Some (from_double (Fin 100))
      \<and> best_ask (fold apply_event evs (new_book ''AAPL'')) = Some (from_double (Fin 102))"
    using tape_stream_sound [of "Fin 2" 1 "[tape_sample 100]" "tape_sample 101" a evs "''AAPL''"] e
    by (simp add: fp_eval two_pow_def tape_sample_def)
  then show ?thesis using e by blast
qed

text \<open>A spread of zero makes the adapter build a locked book, which counts as crossed, with
  the first trade already.\<close>

lemma zero_spread_locks_book:
  "crossed (fold apply_event (snd (tape_on_trade t (new_adapter (Fin 0), []))) (new_book s))"
proof -
  obtain px where px: "from_double (dsub (ft_price t) (half_spread (new_adapter (Fin 0)))) = px"
      "from_double (dadd (ft_price t) (half_spread (new_adapter (Fin 0)))) = px"
    by (cases "ft_price t") (simp_all add: new_adapter_def dsub_def)
  let ?b = "fold apply_event (snd (tape_on_trade t (new_adapter (Fin 0), []))) (new_book s)"
  have "book_ok ?b" by (simp add: book_ok_fold)
  moreover have "bid_prices ?b = {px}" "ask_prices ?b = {px}"
    using px by (simp_all add: tape_defs book_ok_apply_event) (simp_all add: new_adapter_def book_ok_apply_event)
  ultimately have "best_bid ?b = Some px" "best_ask ?b = Some px" by (simp_all add: best_of_single_level)
  then show ?thesis by (simp add: crossed_def)
qed

end
