(* ===== verification/Finnhub.thy ===== *)
theory Finnhub
  imports Trade_Tape
begin

text \<open>
  The Finnhub feed: the message parser of \<open>src/marketdata/finnhub_parser.cpp\<close> and the client of
  \<open>src/marketdata/finnhub_client.cpp\<close>.

  The JSON library is not part of the repository: its values are a type variable and the
  operations the parser calls are the fields of \<open>json_api\<close>.  The web socket is likewise
  represented by the messages its callback receives and the texts it is asked to send.
\<close>

section \<open>The parser\<close>

record 'j json_api =
  js_parse :: "string \<Rightarrow> 'j option"
  is_object :: "'j \<Rightarrow> bool"
  find_key :: "'j \<Rightarrow> string \<Rightarrow> 'j option"
  is_string :: "'j \<Rightarrow> bool"
  get_string :: "'j \<Rightarrow> string"
  is_array :: "'j \<Rightarrow> bool"
  elements :: "'j \<Rightarrow> 'j list"
  is_number :: "'j \<Rightarrow> bool"
  get_double :: "'j \<Rightarrow> double"
  is_number_integer :: "'j \<Rightarrow> bool"
  get_int64 :: "'j \<Rightarrow> int"

datatype parse_status = Trades | Ignored | Malformed

record parse_result =
  pr_status :: parse_status
  pr_trades :: "finnhub_trade list"
  malformed_ticks :: nat

text \<open>\<open>tick.contains(key) && ok(tick[key])\<close>\<close>

definition has_field :: "'j json_api \<Rightarrow> ('j \<Rightarrow> bool) \<Rightarrow> 'j \<Rightarrow> string \<Rightarrow> bool" where
  "has_field api ok tick key = (case find_key api tick key of None \<Rightarrow> False | Some v \<Rightarrow> ok v)"

definition field :: "'j json_api \<Rightarrow> 'j \<Rightarrow> string \<Rightarrow> 'j" where
  "field api tick key = the (find_key api tick key)"

definition well_typed_tick :: "'j json_api \<Rightarrow> 'j \<Rightarrow> bool" where
  "well_typed_tick api tick \<longleftrightarrow> is_object api tick
     \<and> has_field api (is_string api) tick ''s'' \<and> has_field api (is_number api) tick ''p''
     \<and> has_field api (is_number api) tick ''v'' \<and> has_field api (is_number_integer api) tick ''t''"

text \<open>One round of the loop over the ticks of a message.\<close>

definition parse_tick :: "'j json_api \<Rightarrow> 'j \<Rightarrow> parse_result \<Rightarrow> parse_result" where
  "parse_tick api tick r =
     (if \<not> well_typed_tick api tick then r\<lparr>malformed_ticks := malformed_ticks r + 1\<rparr>
      else
        let price = get_double api (field api tick ''p'')
        in if \<not> dlt (Fin 0) price then r\<lparr>malformed_ticks := malformed_ticks r + 1\<rparr>
           else r\<lparr>pr_trades := pr_trades r @
                  [\<lparr>ft_symbol = get_string api (field api tick ''s''), ft_price = price,
                    ft_volume = get_double api (field api tick ''v''),
                    ft_timestamp_ms = get_int64 api (field api tick ''t'')\<rparr>]\<rparr>)"

definition empty_result :: parse_result where
  "empty_result = \<lparr>pr_status = Malformed, pr_trades = [], malformed_ticks = 0\<rparr>"

definition parse_finnhub_message :: "'j json_api \<Rightarrow> string \<Rightarrow> parse_result" where
  "parse_finnhub_message api payload =
     (case js_parse api payload of
        None \<Rightarrow> empty_result
      | Some doc \<Rightarrow>
          if \<not> is_object api doc then empty_result
          else case find_key api doc ''type'' of
            None \<Rightarrow> empty_result
          | Some ty \<Rightarrow>
              if \<not> is_string api ty then empty_result
              else if get_string api ty \<noteq> ''trade'' then empty_result\<lparr>pr_status := Ignored\<rparr>
              else case find_key api doc ''data'' of
                None \<Rightarrow> empty_result
              | Some data \<Rightarrow>
                  if \<not> is_array api data then empty_result
                  else fold (parse_tick api) (elements api data) (empty_result\<lparr>pr_status := Trades\<rparr>))"

section \<open>The client\<close>

datatype ws_message = Opened | Closed | Failed string | Received string

record client =
  cl_symbol :: string
  connected :: bool
  ever_connected :: bool
  reconnect_count :: nat
  messages_received :: nat
  malformed_messages :: nat
  cl_adapter :: adapter
  sent_texts :: "string list"
  delivered :: "market_event list"

definition new_client :: "string \<Rightarrow> double \<Rightarrow> client" where
  "new_client sy synthetic_spread =
     \<lparr>cl_symbol = sy, connected = False, ever_connected = False, reconnect_count = 0,
      messages_received = 0, malformed_messages = 0, cl_adapter = new_adapter synthetic_spread,
      sent_texts = [], delivered = []\<rparr>"

definition handle_text_message :: "'j json_api \<Rightarrow> string \<Rightarrow> client \<Rightarrow> client" where
  "handle_text_message api payload c =
     (let parsed = parse_finnhub_message api payload
      in if pr_status parsed = Malformed then c\<lparr>malformed_messages := malformed_messages c + 1\<rparr>
         else let (a, batch) = fold tape_on_trade (pr_trades parsed) (cl_adapter c, [])
              in c\<lparr>malformed_messages := malformed_messages c + malformed_ticks parsed,
                   cl_adapter := a, delivered := delivered c @ batch\<rparr>)"

text \<open>The callback that \<open>start\<close> installs; \<open>subscribe\<close> renders the subscription of a symbol.\<close>

definition on_message :: "'j json_api \<Rightarrow> (string \<Rightarrow> string) \<Rightarrow> ws_message \<Rightarrow> client \<Rightarrow> client" where
  "on_message api subscribe msg c =
     (case msg of
        Opened \<Rightarrow>
          c\<lparr>reconnect_count := (if ever_connected c then reconnect_count c + 1 else reconnect_count c),
            ever_connected := True, connected := True,
            sent_texts := sent_texts c @ [subscribe (cl_symbol c)]\<rparr>
      | Closed \<Rightarrow> c\<lparr>connected := False\<rparr>
      | Failed reason \<Rightarrow> c\<lparr>connected := False\<rparr>
      | Received payload \<Rightarrow>
          handle_text_message api payload (c\<lparr>messages_received := messages_received c + 1\<rparr>))"

definition stop_client :: "client \<Rightarrow> client" where
  "stop_client c = c\<lparr>connected := False\<rparr>"

section \<open>What the parser accepts\<close>

definition good_tick :: "'j json_api \<Rightarrow> 'j \<Rightarrow> bool" where
  "good_tick api tick \<longleftrightarrow> well_typed_tick api tick \<and> dlt (Fin 0) (get_double api (field api tick ''p''))"

definition trade_of_tick :: "'j json_api \<Rightarrow> 'j \<Rightarrow> finnhub_trade" where
  "trade_of_tick api tick =
     \<lparr>ft_symbol = get_string api (field api tick ''s''), ft_price = get_double api (field api tick ''p''),
      ft_volume = get_double api (field api tick ''v''), ft_timestamp_ms = get_int64 api (field api tick ''t'')\<rparr>"

lemma parse_ticks:
  "fold (parse_tick api) tks r = r\<lparr>
     pr_trades := pr_trades r @ map (trade_of_tick api) (filter (good_tick api) tks),
     malformed_ticks := malformed_ticks r + length (filter (\<lambda>t. \<not> good_tick api t) tks)\<rparr>"
  by (induction tks arbitrary: r)
    (simp_all add: parse_tick_def good_tick_def trade_of_tick_def Let_def)

text \<open>A message is a trade message when it parses to an object of type \<open>trade\<close> with an array.\<close>

definition trade_ticks :: "'j json_api \<Rightarrow> string \<Rightarrow> 'j list option" where
  "trade_ticks api payload =
     (case js_parse api payload of
        None \<Rightarrow> None
      | Some doc \<Rightarrow>
          if is_object api doc \<and> has_field api (\<lambda>ty. is_string api ty \<and> get_string api ty = ''trade'') doc ''type''
             \<and> has_field api (is_array api) doc ''data''
          then Some (elements api (field api doc ''data'')) else None)"

lemma parse_trade_message:
  "trade_ticks api payload = Some tks \<Longrightarrow>
   parse_finnhub_message api payload =
     \<lparr>pr_status = Trades, pr_trades = map (trade_of_tick api) (filter (good_tick api) tks),
      malformed_ticks = length (filter (\<lambda>t. \<not> good_tick api t) tks)\<rparr>"
  by (auto simp: trade_ticks_def parse_finnhub_message_def has_field_def field_def parse_ticks empty_result_def
      split: option.splits if_splits)

lemma parse_other_message:
  "trade_ticks api payload = None \<Longrightarrow> pr_status (parse_finnhub_message api payload) \<noteq> Trades
   \<and> pr_trades (parse_finnhub_message api payload) = [] \<and> malformed_ticks (parse_finnhub_message api payload) = 0"
  by (auto simp: trade_ticks_def parse_finnhub_message_def has_field_def empty_result_def
      split: option.splits if_splits)

section \<open>Properties\<close>

text \<open>C37: Every tick of a trade message is accounted for: the result holds the well-typed ticks with
  a positive price, in order, and counts all others; a price of a trade is never zero, negative
  or NaN.  Any other text gives no trades.\<close>

theorem parser_accounts_for_ticks:
  "case trade_ticks api payload of
     None \<Rightarrow> pr_status (parse_finnhub_message api payload) \<noteq> Trades
       \<and> pr_trades (parse_finnhub_message api payload) = []
   | Some tks \<Rightarrow>
       pr_status (parse_finnhub_message api payload) = Trades
       \<and> pr_trades (parse_finnhub_message api payload) = map (trade_of_tick api) (filter (good_tick api) tks)
       \<and> length (pr_trades (parse_finnhub_message api payload)) + malformed_ticks (parse_finnhub_message api payload)
           = length tks
       \<and> list_all (\<lambda>t. dlt (Fin 0) (ft_price t)) (pr_trades (parse_finnhub_message api payload))"
proof (cases "trade_ticks api payload")
  case None
  then show ?thesis using parse_other_message by auto
next
  case (Some tks)
  then show ?thesis
    using sum_length_filter_compl [of "good_tick api" tks]
    by (simp add: parse_trade_message) (auto simp: list_all_iff trade_of_tick_def good_tick_def)
qed

section \<open>Runs of the client\<close>

definition message_trades :: "'j json_api \<Rightarrow> ws_message \<Rightarrow> finnhub_trade list" where
  "message_trades api msg = (case msg of Received p \<Rightarrow> pr_trades (parse_finnhub_message api p) | _ \<Rightarrow> [])"

lemma tape_append:
  "tape_on_trade t (a, out @ out') = (let (a', o') = tape_on_trade t (a, out') in (a', out @ o'))"
  by (auto simp: tape_defs split: prod.splits option.splits)

lemma fold_tape_append:
  "fold tape_on_trade ts (a, out) = (let (a', o') = fold tape_on_trade ts (a, []) in (a', out @ o'))"
proof (induction ts arbitrary: a out)
  case (Cons t ts)
  obtain a1 o1 where t: "tape_on_trade t (a, []) = (a1, o1)" by fastforce
  then have "tape_on_trade t (a, out) = (a1, out @ o1)" using tape_append [of t a out "[]"] by simp
  then show ?case using Cons.IH [of a1 "out @ o1"] Cons.IH [of a1 o1] t by (simp add: split: prod.splits)
qed simp

lemma client_tape_step:
  "(cl_adapter (on_message api sub msg c), delivered (on_message api sub msg c)) =
     fold tape_on_trade (message_trades api msg) (cl_adapter c, delivered c)"
proof (cases msg)
  case (Received p)
  have "pr_trades (parse_finnhub_message api p) = []" if "pr_status (parse_finnhub_message api p) = Malformed"
    using that parse_trade_message [of api p] parse_other_message [of api p] by (cases "trade_ticks api p") auto
  then show ?thesis
    using fold_tape_append [of "pr_trades (parse_finnhub_message api p)" "cl_adapter c" "delivered c"]
    by (auto simp: Received on_message_def handle_text_message_def message_trades_def Let_def split: prod.splits)
qed (simp_all add: on_message_def message_trades_def)

lemma client_tape:
  "(cl_adapter (fold (on_message api sub) msgs c), delivered (fold (on_message api sub) msgs c)) =
     fold tape_on_trade (concat (map (message_trades api) msgs)) (cl_adapter c, delivered c)"
  by (induction msgs arbitrary: c) (simp_all add: client_tape_step)

lemma delivered_consecutive: "consecutive 1 (delivered (fold (on_message api sub) msgs (new_client sy sp)))"
proof -
  let ?ts = "concat (map (message_trades api) msgs)"
  have "numbered (fold tape_on_trade ?ts (new_adapter sp, []))" by (rule numbered_fold) simp
  then show ?thesis
    using client_tape [of api sub msgs "new_client sy sp"] by (simp add: new_client_def numbered_def) (metis snd_conv)
qed

definition opens :: "ws_message list \<Rightarrow> nat" where
  "opens msgs = length (filter (\<lambda>m. m = Opened) msgs)"

lemma handle_keeps [simp]:
  "connected (handle_text_message api p c) = connected c"
  "ever_connected (handle_text_message api p c) = ever_connected c"
  "reconnect_count (handle_text_message api p c) = reconnect_count c"
  "sent_texts (handle_text_message api p c) = sent_texts c"
  "cl_symbol (handle_text_message api p c) = cl_symbol c"
  by (simp_all add: handle_text_message_def Let_def split: prod.split)

lemma client_counters:
  "reconnect_count (fold (on_message api sub) msgs c) =
     reconnect_count c + (if ever_connected c then opens msgs else opens msgs - 1)
   \<and> sent_texts (fold (on_message api sub) msgs c) = sent_texts c @ replicate (opens msgs) (sub (cl_symbol c))"
proof (induction msgs arbitrary: c)
  case (Cons m msgs)
  then show ?case
    by (cases m) (auto simp: on_message_def opens_def replicate_app_Cons_same)
qed (simp add: opens_def)

text \<open>C38: Whatever messages the socket delivers, across any number of disconnections: the events
  handed to the callback are exactly the adapter's stream for all trades of all messages in
  order, numbered consecutively from one; the client subscribes once per connection; and the
  reconnections it reports are the connections after the first.\<close>

theorem client_delivers_the_tape:
  fixes msgs :: "ws_message list" and sy :: string and sp :: double
    and api :: "'j json_api" and subscribe :: "string \<Rightarrow> string"
  defines "c \<equiv> fold (on_message api subscribe) msgs (new_client sy sp)"
  shows "delivered c = snd (fold tape_on_trade (concat (map (message_trades api) msgs)) (new_adapter sp, []))
    \<and> consecutive 1 (delivered c)
    \<and> reconnect_count c = opens msgs - 1
    \<and> sent_texts c = replicate (opens msgs) (subscribe sy)"
proof -
  let ?ts = "concat (map (message_trades api) msgs)"
  have d: "(cl_adapter c, delivered c) = fold tape_on_trade ?ts (new_adapter sp, [])"
    using client_tape [of api subscribe msgs "new_client sy sp"] by (simp add: c_def new_client_def)
  have "consecutive 1 (delivered c)" unfolding c_def by (rule delivered_consecutive)
  moreover have "delivered c = snd (fold tape_on_trade ?ts (new_adapter sp, []))" using d by (metis snd_conv)
  ultimately show ?thesis
    using client_counters [of api subscribe msgs "new_client sy sp"] by (simp add: c_def new_client_def)
qed

end
