(* ===== verification/Live_Run.thy ===== *)
theory Live_Run
  imports Replay Ring_Buffer Finnhub
begin

text \<open>
  The live mode of \<open>src/apps/market_engine.cpp\<close>: the callback of the feed client pushes events
  into the ring buffer and counts those that do not fit; the main loop pops events, hands them
  to the pipeline and calls \<open>on_clock\<close>.  The two threads meet only in the ring buffer, whose
  operations are atomic here (\<open>Ring_Buffer\<close> shows that their memory accesses may be interleaved).
  \<open>Ring_Memory\<close> shows what weak memory adds: a push or pop that reads an old index may fail although
  there is room or an element.  Every schedule of the two threads is a run of \<open>live_step\<close>.
\<close>

section \<open>The live loop\<close>

record 'g live =
  lv_ring :: "market_event ring"
  lv_dropped :: nat
  lv_pipeline :: "'g pipeline"
  offered :: "market_event list"
  taken :: "market_event list"

text \<open>The fields \<open>offered\<close> and \<open>taken\<close> record the history of callback and loop for the statements.\<close>

definition new_live :: "nat \<Rightarrow> market_event \<Rightarrow> 'g pipeline \<Rightarrow> 'g live" where
  "new_live cap dflt p = \<lparr>lv_ring = new_ring cap dflt, lv_dropped = 0, lv_pipeline = p, offered = [], taken = []\<rparr>"

definition live_callback :: "market_event \<Rightarrow> 'g live \<Rightarrow> 'g live" where
  "live_callback ev s =
     (let (ok, r) = ring_push ev (lv_ring s)
      in s\<lparr>lv_ring := r, lv_dropped := (if ok then lv_dropped s else lv_dropped s + 1),
           offered := offered s @ [ev]\<rparr>)"

text \<open>The callback when \<open>push\<close> is refused because it has read an old tail.\<close>

definition live_refused :: "market_event \<Rightarrow> 'g live \<Rightarrow> 'g live" where
  "live_refused ev s = s\<lparr>lv_dropped := lv_dropped s + 1, offered := offered s @ [ev]\<rparr>"

text \<open>One round of \<open>while (auto ev = ring.pop()) pipeline.process(*ev);\<close>\<close>

definition live_pop :: "'g env \<Rightarrow> timings \<Rightarrow> 'g live \<Rightarrow> 'g live" where
  "live_pop env tm s =
     (let (x, r) = ring_pop (lv_ring s)
      in case x of
           None \<Rightarrow> s\<lparr>lv_ring := r\<rparr>
         | Some ev \<Rightarrow> s\<lparr>lv_ring := r, lv_pipeline := process env tm ev (lv_pipeline s), taken := taken s @ [ev]\<rparr>)"

definition live_clock :: "int \<Rightarrow> 'g live \<Rightarrow> 'g live" where
  "live_clock now s = s\<lparr>lv_pipeline := on_clock now (lv_pipeline s)\<rparr>"

inductive live_step :: "'g env \<Rightarrow> 'g live \<Rightarrow> 'g live \<Rightarrow> bool" for env where
  callback: "live_step env s (live_callback ev s)"
| refused: "live_step env s (live_refused ev s)"
| pop: "live_step env s (live_pop env tm s)"
| tick: "live_step env s (live_clock now s)"

inductive live_run :: "'g env \<Rightarrow> 'g live \<Rightarrow> 'g live \<Rightarrow> bool" for env s0 where
  live_start: "live_run env s0 s0"
| live_next: "live_run env s0 s \<Longrightarrow> live_step env s s' \<Longrightarrow> live_run env s0 s'"

inductive_cases live_stepE: "live_step env s s'"

section \<open>What happens to the events\<close>

definition conveyed :: "'g env \<Rightarrow> 'g pipeline \<Rightarrow> 'g live \<Rightarrow> bool" where
  "conveyed env p0 s \<longleftrightarrow> ring_ok (lv_ring s)
     \<and> subseq (taken s @ ring_contents (lv_ring s)) (offered s)
     \<and> length (taken s) + length (ring_contents (lv_ring s)) + lv_dropped s = length (offered s)
     \<and> reachable env p0 (lv_pipeline s)"

lemma conveyed_new: "0 < k \<Longrightarrow> conveyed env p (new_live (2 ^ k) d p)"
  by (simp add: conveyed_def new_live_def ring_ok_new reachable.start)

lemma conveyed_callback: "conveyed env p0 s \<Longrightarrow> conveyed env p0 (live_callback ev s)"
proof -
  assume c: "conveyed env p0 s"
  obtain ok r where p: "ring_push ev (lv_ring s) = (ok, r)" by fastforce
  have "ring_ok (lv_ring s)" using c by (simp add: conveyed_def)
  from ring.enq_law [OF this p] c show ?thesis
    by (auto simp: conveyed_def live_callback_def p subseq_append' simp flip: append_assoc
        intro: subseq_rev_drop_many)
qed

lemma conveyed_refused: "conveyed env p0 s \<Longrightarrow> conveyed env p0 (live_refused ev s)"
  by (auto simp: conveyed_def live_refused_def intro: subseq_rev_drop_many)

lemma conveyed_pop: "conveyed env p0 s \<Longrightarrow> conveyed env p0 (live_pop env tm s)"
proof -
  assume c: "conveyed env p0 s"
  obtain x r where p: "ring_pop (lv_ring s) = (x, r)" by fastforce
  have "ring_ok (lv_ring s)" using c by (simp add: conveyed_def)
  from ring.deq_law [OF this p] c show ?thesis
    by (auto simp: conveyed_def live_pop_def p split: list.splits intro: reachable.step pipe_step.event)
qed

lemma conveyed_run: "live_run env s0 s \<Longrightarrow> conveyed env p0 s0 \<Longrightarrow> conveyed env p0 s"
proof (induction rule: live_run.induct)
  case (live_next s s')
  then have "conveyed env p0 s" by simp
  with live_next.hyps(2) show ?case
    by (auto elim!: live_stepE simp: conveyed_callback conveyed_refused conveyed_pop)
      (auto simp: conveyed_def live_clock_def intro: reachable.step pipe_step.clock)
qed

section \<open>The feed counters of the pipeline\<close>

text \<open>The counters that \<open>process\<close> updates from sequence number and book alone.\<close>

definition feed_counters :: "'g pipeline \<Rightarrow> nat \<times> nat \<times> nat \<times> nat" where
  "feed_counters p = (events_processed (stats p), out_of_order_dropped (stats p), sequence_gaps (stats p),
     crossed_book_events (stats p))"

lemma feed_counters_keeps [simp]:
  "feed_counters (cancel_side s now p) = feed_counters p"
  "feed_counters (submit s px sz ref now p) = feed_counters p"
  "feed_counters (apply_report r p) = feed_counters p"
  "feed_counters (update_market env ev p) = feed_counters p"
  "feed_counters (mark_portfolio p) = feed_counters p"
  by (auto simp: feed_counters_def cancel_side_def set_slot_def submit_def apply_report_def update_market_def
      mark_portfolio_def Let_def split: option.split)

lemma feed_counters_more [simp]:
  "feed_counters (cancel_resting_quotes now p) = feed_counters p"
  "feed_counters (resync now p) = feed_counters p"
  "feed_counters (replace_side s w px sz th ref now p) = feed_counters p"
  "feed_counters (fold apply_report rs p) = feed_counters p"
proof -
  show c: "feed_counters (cancel_resting_quotes now p) = feed_counters p" by (simp add: cancel_resting_quotes_def)
  then show "feed_counters (resync now p) = feed_counters p" by (simp add: resync_def Let_def feed_counters_def)
  show "feed_counters (replace_side s w px sz th ref now p) = feed_counters p" by (simp add: replace_side_def)
  show "feed_counters (fold apply_report rs p) = feed_counters p" by (induction rs arbitrary: p) simp_all
qed

lemma feed_counters_requote [simp]: "feed_counters (requote env el now p) = feed_counters p"
proof -
  have "feed_counters (q\<lparr>stats := (stats q)\<lparr>decision_latency := l\<rparr>\<rparr>) = feed_counters q" for q :: "'a pipeline" and l
    by (simp add: feed_counters_def)
  then show ?thesis by (simp add: requote_def Let_def)
qed

lemma feed_counters_ingest:
  "feed_counters (ingest env tm ev p) =
     (events_processed (stats p), out_of_order_dropped (stats p),
      sequence_gaps (stats p) + (if is_gap ev p then 1 else 0), crossed_book_events (stats p))"
proof -
  have a: "feed_counters (accept_event ev p) = (events_processed (stats p), out_of_order_dropped (stats p),
      sequence_gaps (stats p) + (if is_gap ev p then 1 else 0), crossed_book_events (stats p))"
    by (simp add: accept_event_def Let_def) (simp add: feed_counters_def)
  have r: "feed_counters (run_execution env ev q) = feed_counters q" for q
  proof -
    have "feed_counters (q\<lparr>p_exec := e\<rparr>) = feed_counters q" for e by (simp add: feed_counters_def)
    then show ?thesis by (simp add: run_execution_def split: prod.split)
  qed
  have "feed_counters (q\<lparr>stats := (stats q)\<lparr>book_update_latency := l, execution_latency := l'\<rparr>\<rparr>) = feed_counters q"
    for q :: "'a pipeline" and l l' by (simp add: feed_counters_def)
  then show ?thesis by (simp add: ingest_def Let_def r a)
qed

lemma feed_counters_process:
  "feed_counters (process env tm ev p) =
     (events_processed (stats p) + 1,
      out_of_order_dropped (stats p) + (if is_duplicate ev p then 1 else 0),
      sequence_gaps (stats p) + (if \<not> is_duplicate ev p \<and> is_gap ev p then 1 else 0),
      crossed_book_events (stats p) + (if \<not> is_duplicate ev p \<and> crossed (p_book (process env tm ev p)) then 1 else 0))"
proof (cases "is_duplicate ev p")
  case True
  then show ?thesis by (simp add: process_def Let_def feed_counters_def) (simp add: count_event_def)
next
  case False
  define q where "q = ingest env tm ev (count_event p)"
  have q: "feed_counters q = (events_processed (stats p) + 1, out_of_order_dropped (stats p),
      sequence_gaps (stats p) + (if is_gap ev p then 1 else 0), crossed_book_events (stats p))"
    by (simp add: q_def feed_counters_ingest) (simp add: count_event_def)
  have c: "feed_counters (q\<lparr>stats := (stats q)\<lparr>crossed_book_events := n\<rparr>\<rparr>) =
      (events_processed (stats q), out_of_order_dropped (stats q), sequence_gaps (stats q), n)"
    for n by (simp add: feed_counters_def)
  have "crossed (p_book (process env tm ev p)) = crossed (p_book q)"
    using False by (simp add: process_def Let_def q_def)
  moreover have "feed_counters (process env tm ev p) =
      (if crossed (p_book q) then feed_counters (q\<lparr>stats := (stats q)\<lparr>crossed_book_events :=
         crossed_book_events (stats q) + 1\<rparr>\<rparr>) else feed_counters q)"
    using False by (simp add: process_def Let_def q_def [symmetric])
  ultimately show ?thesis using q False by (simp add: c) (simp add: feed_counters_def)
qed

lemma feed_counters_clock [simp]: "feed_counters (on_clock now p) = feed_counters p"
proof -
  have "feed_counters (p\<lparr>market_data_stale := b, stats := (stats p)\<lparr>clock_stale_events := n\<rparr>\<rparr>) = feed_counters p"
    for b n by (simp add: feed_counters_def)
  then show ?thesis by (simp add: on_clock_def)
qed

section \<open>Losses are noticed\<close>

text \<open>How often the sequence number of a list of events does not go up by exactly one.\<close>

fun breaks :: "market_event list \<Rightarrow> nat" where
  "breaks (a # b # evs) = (if ev_sequence b = ev_sequence a + 1 then 0 else 1) + breaks (b # evs)"
| "breaks _ = 0"

lemma breaks_snoc:
  "evs \<noteq> [] \<Longrightarrow> breaks (evs @ [ev]) = breaks evs + (if ev_sequence ev = ev_sequence (last evs) + 1 then 0 else 1)"
  by (induction evs rule: breaks.induct) auto

text \<open>Events with strictly increasing sequence numbers.\<close>

abbreviation ascending :: "market_event list \<Rightarrow> bool" where
  "ascending evs \<equiv> sorted_wrt (\<lambda>a b. ev_sequence a < ev_sequence b) evs"

lemma consecutive_nth: "consecutive n evs \<Longrightarrow> i < length evs \<Longrightarrow> ev_sequence (evs ! i) = n + of_nat i"
  by (induction evs arbitrary: n i) (auto simp: nth_Cons' algebra_simps of_nat_diff)

lemma consecutive_ascending:
  assumes "consecutive 1 evs" "length evs < 2 ^ 64"
  shows "ascending evs"
proof -
  have "unat (ev_sequence (evs ! i)) = i + 1" if "i < length evs" for i
  proof -
    have "ev_sequence (evs ! i) = of_nat (i + 1)" using consecutive_nth [OF assms(1) that] by simp
    then show ?thesis using that assms(2) by (simp only: unat_of_nat) simp
  qed
  then show ?thesis by (simp add: sorted_wrt_iff_nth_less word_less_nat_alt)
qed

lemma ascending_subseq: "subseq xs ys \<Longrightarrow> ascending ys \<Longrightarrow> ascending xs"
proof (induction rule: list_emb.induct)
  case (list_emb_Cons2 x y xs ys)
  then have "set xs \<subseteq> set ys" using list_emb_set [of "(=)" xs ys] by blast
  with list_emb_Cons2 show ?case by auto
qed simp_all

text \<open>The state of the pipeline mirrors the list of events it has taken.\<close>

definition accounted :: "'g live \<Rightarrow> bool" where
  "accounted s \<longleftrightarrow>
     p_last_sequence (lv_pipeline s) = (if taken s = [] then None else Some (ev_sequence (last (taken s))))
   \<and> (\<exists>x. feed_counters (lv_pipeline s) = (length (taken s), 0, breaks (taken s), x))"

lemma accounted_new: "accounted (new_live cap d (new_pipeline sd sy cfg))"
  by (simp add: accounted_def new_live_def new_pipeline_def feed_counters_def zero_stats_def)

lemma accounted_callback: "accounted (live_callback ev s) = accounted s"
  by (simp add: accounted_def live_callback_def split: prod.split)

lemma accounted_refused: "accounted (live_refused ev s) = accounted s"
  by (simp add: accounted_def live_refused_def)

lemma accounted_clock: "accounted (live_clock now s) = accounted s"
  by (simp add: accounted_def live_clock_def)

lemma accounted_take:
  assumes "accounted s" "ascending (taken s @ [ev])"
  shows "accounted (s\<lparr>lv_ring := r, lv_pipeline := process env tm ev (lv_pipeline s), taken := taken s @ [ev]\<rparr>)"
proof (cases "taken s = []")
  case True
  then have "\<not> is_duplicate ev (lv_pipeline s)" "\<not> is_gap ev (lv_pipeline s)"
    using assms(1) by (simp_all add: accounted_def is_duplicate_def is_gap_def)
  then show ?thesis
    using assms(1) True by (simp add: accounted_def feed_counters_process process_feed) (simp add: feed_counters_def)
next
  case False
  then have last: "p_last_sequence (lv_pipeline s) = Some (ev_sequence (last (taken s)))"
    using assms(1) by (simp add: accounted_def)
  have "ev_sequence (last (taken s)) < ev_sequence ev"
    using assms(2) False by (simp add: sorted_wrt_append)
  then have "\<not> is_duplicate ev (lv_pipeline s)" by (simp add: is_duplicate_def last)
  moreover have "is_gap ev (lv_pipeline s) \<longleftrightarrow> ev_sequence ev \<noteq> ev_sequence (last (taken s)) + 1"
    by (simp add: is_gap_def last)
  ultimately show ?thesis
    using assms(1) False by (simp add: accounted_def feed_counters_process process_feed breaks_snoc)
      (simp add: feed_counters_def)
qed

lemma accounted_run:
  assumes "live_run env s0 s" "conveyed env p0 s0" "accounted s0" "ascending (offered s)"
  shows "accounted s"
  using assms(1,4)
proof (induction rule: live_run.induct)
  case (live_next s s')
  have c: "conveyed env p0 s'"
    using conveyed_run [OF live_run.live_next [OF live_next.hyps] assms(2)] .
  from live_next.hyps(2) show ?case
  proof (cases rule: live_step.cases)
    case (callback ev)
    then have "ascending (offered s)"
      using live_next.prems by (auto simp: live_callback_def sorted_wrt_append split: prod.splits)
    then show ?thesis using live_next.IH callback by (simp add: accounted_callback)
  next
    case (refused ev)
    then have "ascending (offered s)"
      using live_next.prems by (simp add: live_refused_def sorted_wrt_append)
    then show ?thesis using live_next.IH refused by (simp add: accounted_refused)
  next
    case (pop tm)
    obtain x r where x: "ring_pop (lv_ring s) = (x, r)" by fastforce
    have o: "offered s' = offered s" by (simp add: pop live_pop_def x split: option.split)
    then have a: "accounted s" using live_next by simp
    show ?thesis
    proof (cases x)
      case None
      then show ?thesis using a by (simp add: pop live_pop_def x accounted_def)
    next
      case (Some ev)
      then have s': "s' = s\<lparr>lv_ring := r, lv_pipeline := process env tm ev (lv_pipeline s), taken := taken s @ [ev]\<rparr>"
        by (simp add: pop live_pop_def x)
      have "subseq (taken s' @ ring_contents (lv_ring s')) (offered s')" using c by (simp add: conveyed_def)
      then have "ascending (taken s' @ ring_contents (lv_ring s'))" by (rule ascending_subseq [OF _ live_next.prems])
      then have "ascending (taken s')" by (simp add: sorted_wrt_append)
      then show ?thesis using accounted_take [OF a, of ev] by (simp add: s')
    qed
  next
    case (tick now)
    then have "offered s' = offered s" by (simp add: live_clock_def)
    then show ?thesis using live_next tick accounted_clock by metis
  qed
qed (simp add: assms(3))

text \<open>Events without a break, all from a stream numbered from one, are a stretch of it.\<close>

lemma sequence_position:
  assumes "consecutive 1 evs" "length evs < 2 ^ 64" "i < length evs"
  shows "unat (ev_sequence (evs ! i)) = i + 1"
proof -
  have "ev_sequence (evs ! i) = of_nat (i + 1)" using consecutive_nth [OF assms(1,3)] by simp
  then show ?thesis using assms(2,3) by (simp only: unat_of_nat) simp
qed

lemma next_position:
  assumes "consecutive 1 evs" "length evs < 2 ^ 64" "i < length evs" "j < length evs"
    "ev_sequence (evs ! j) = ev_sequence (evs ! i) + 1"
  shows "j = i + 1"
proof -
  have "unat (ev_sequence (evs ! i) + 1) = (i + 2) mod 2 ^ 64"
    using sequence_position [OF assms(1-3)] by (simp add: unat_word_ariths)
  then have "j + 1 = (i + 2) mod 2 ^ 64"
    using sequence_position [OF assms(1,2,4)] assms(5) by simp
  moreover have "i + 2 \<le> 2 ^ 64" using assms(2,3) by simp
  ultimately show ?thesis by (cases "i + 2 = 2 ^ 64") auto
qed

lemma unbroken_stretch:
  assumes "consecutive 1 all" "length all < 2 ^ 64"
  shows "set (a # evs) \<subseteq> set all \<Longrightarrow> breaks (a # evs) = 0 \<Longrightarrow> i < length all \<Longrightarrow> a = all ! i \<Longrightarrow>
    a # evs = take (length (a # evs)) (drop i all)"
proof (induction evs arbitrary: a i)
  case Nil
  then show ?case by (simp add: take_Suc hd_drop_conv_nth)
next
  case (Cons b evs)
  then obtain j where j: "j < length all" "b = all ! j" by (metis in_set_conv_nth list.set_intros(1,2) subsetD)
  have "ev_sequence b = ev_sequence a + 1" using Cons.prems(2) by (simp split: if_splits)
  then have "j = i + 1" using next_position [OF assms, of i j] Cons.prems(3,4) j by simp
  moreover have "b # evs = take (length (b # evs)) (drop j all)"
    by (rule Cons.IH) (use Cons.prems j in \<open>auto split: if_splits\<close>)
  ultimately have "b # evs = take (length (b # evs)) (drop (Suc i) all)" by (simp only: Suc_eq_plus1)
  moreover have "drop i all = a # drop (Suc i) all" using Cons.prems(3,4) by (simp add: Cons_nth_drop_Suc)
  then have "take (length (a # b # evs)) (drop i all) = a # take (length (b # evs)) (drop (Suc i) all)" by simp
  ultimately show ?case by metis
qed

lemma unbroken_sublist:
  assumes "consecutive 1 all" "length all < 2 ^ 64" "set evs \<subseteq> set all" "breaks evs = 0"
  shows "\<exists>as bs. all = as @ evs @ bs"
proof (cases evs)
  case Nil
  then show ?thesis by (metis append_Nil)
next
  case (Cons a evs')
  then obtain i where i: "i < length all" "a = all ! i" using assms(3) by (metis in_set_conv_nth list.set_intros(1) subsetD)
  have "a # evs' = take (length (a # evs')) (drop i all)"
    using assms(3,4) unfolding Cons by (rule unbroken_stretch [OF assms(1,2) _ _ i])
  then have "evs = take (length evs) (drop i all)" unfolding Cons .
  then have "all = take i all @ evs @ drop (length evs) (drop i all)" by (metis append_take_drop_id)
  then show ?thesis by blast
qed

section \<open>Properties\<close>

text \<open>In every schedule of feed thread and main loop, the pipeline gets a subsequence of the
  events the feed offered, in order; those it got, those waiting and those counted as dropped
  are all that were offered, and without drops nothing is missing.  The pipeline is in a state
  its own operations can reach, so its invariants hold in live mode.\<close>

lemma live_loop_conveys:
  assumes "live_run env (new_live (2 ^ 16) d (new_pipeline sd sy cfg)) s"
  shows "subseq (taken s @ ring_contents (lv_ring s)) (offered s)
    \<and> length (taken s) + length (ring_contents (lv_ring s)) + lv_dropped s = length (offered s)
    \<and> (lv_dropped s = 0 \<longrightarrow> taken s @ ring_contents (lv_ring s) = offered s)
    \<and> reachable env (new_pipeline sd sy cfg) (lv_pipeline s)"
proof -
  have c: "conveyed env (new_pipeline sd sy cfg) s" by (rule conveyed_run [OF assms conveyed_new]) simp
  then have "lv_dropped s = 0 \<longrightarrow> taken s @ ring_contents (lv_ring s) = offered s"
    by (auto simp: conveyed_def intro: subseq_same_length)
  with c show ?thesis by (simp add: conveyed_def)
qed

lemma breaks_consecutive: "consecutive n evs \<Longrightarrow> breaks evs = 0"
  by (induction evs arbitrary: n rule: breaks.induct) auto

lemma losses_noticed:
  assumes "live_run env (new_live (2 ^ 16) d (new_pipeline sd sy cfg)) s"
    and cons: "consecutive 1 (offered s)" and "length (offered s) < 2 ^ 64"
  shows "out_of_order_dropped (stats (lv_pipeline s)) = 0
    \<and> events_processed (stats (lv_pipeline s)) = length (taken s)
    \<and> (lv_dropped s = 0 \<longrightarrow> sequence_gaps (stats (lv_pipeline s)) = 0)
    \<and> (sequence_gaps (stats (lv_pipeline s)) = 0 \<longrightarrow> (\<exists>as bs. offered s = as @ taken s @ bs))"
proof -
  have c: "conveyed env (new_pipeline sd sy cfg) s" by (rule conveyed_run [OF assms(1) conveyed_new]) simp
  have "accounted s"
    using accounted_run [OF assms(1) conveyed_new accounted_new consecutive_ascending [OF cons assms(3)]] by simp
  then obtain x where f: "feed_counters (lv_pipeline s) = (length (taken s), 0, breaks (taken s), x)"
    by (auto simp: accounted_def)
  have sub: "subseq (taken s @ ring_contents (lv_ring s)) (offered s)" using c by (simp add: conveyed_def)
  have "breaks (taken s) = 0" if "lv_dropped s = 0"
  proof -
    have "taken s @ ring_contents (lv_ring s) = offered s"
      using that c by (auto simp: conveyed_def intro: subseq_same_length)
    then have "consecutive 1 (taken s)" using cons by (metis consecutive_append)
    then show ?thesis by (rule breaks_consecutive)
  qed
  moreover have "set (taken s) \<subseteq> set (offered s)" using list_emb_set [OF sub] by auto
  then have "breaks (taken s) = 0 \<Longrightarrow> \<exists>as bs. offered s = as @ taken s @ bs"
    using unbroken_sublist [OF cons assms(3)] by blast
  ultimately show ?thesis using f by (simp add: feed_counters_def)
qed

text \<open>No loss goes unnoticed on the way from the socket to the book.  Whatever messages the
  client received, with what it delivered being offered to the live loop: the pipeline drops
  nothing as a duplicate, without ring-buffer drops it sees no gap, and if it has seen no gap,
  what it processed is an unbroken stretch of what the client delivered.\<close>

lemma losses_are_noticed:
  assumes "live_run env (new_live (2 ^ 16) d (new_pipeline sd sy cfg)) s"
    and "offered s = delivered (fold (on_message api subscribe) msgs (new_client csy sp))"
    and "length (offered s) < 2 ^ 64"
  shows "out_of_order_dropped (stats (lv_pipeline s)) = 0
    \<and> events_processed (stats (lv_pipeline s)) = length (taken s)
    \<and> (lv_dropped s = 0 \<longrightarrow> sequence_gaps (stats (lv_pipeline s)) = 0)
    \<and> (sequence_gaps (stats (lv_pipeline s)) = 0 \<longrightarrow> (\<exists>as bs. offered s = as @ taken s @ bs))"
  by (rule losses_noticed [OF assms(1) _ assms(3)]) (simp add: assms(2) delivered_consecutive)

section \<open>A run\<close>

text \<open>A small JSON library for the witnesses, whose only document is a message with one trade.\<close>

datatype demo_json = DObj "(string \<times> demo_json) list" | DArr "demo_json list" | DStr string | DNum int

definition demo_api :: "demo_json json_api" where
  "demo_api =
     \<lparr>js_parse = (\<lambda>_. Some (DObj [(''type'', DStr ''trade''),
        (''data'', DArr [DObj [(''s'', DStr ''AAPL''), (''p'', DNum 100), (''v'', DNum 5), (''t'', DNum 1)]])])),
      is_object = (\<lambda>j. case j of DObj _ \<Rightarrow> True | _ \<Rightarrow> False),
      find_key = (\<lambda>j. case j of DObj kvs \<Rightarrow> map_of kvs | _ \<Rightarrow> Map.empty),
      is_string = (\<lambda>j. case j of DStr _ \<Rightarrow> True | _ \<Rightarrow> False),
      get_string = (\<lambda>j. case j of DStr s \<Rightarrow> s | _ \<Rightarrow> []),
      is_array = (\<lambda>j. case j of DArr _ \<Rightarrow> True | _ \<Rightarrow> False),
      elements = (\<lambda>j. case j of DArr js \<Rightarrow> js | _ \<Rightarrow> []),
      is_number = (\<lambda>j. case j of DNum _ \<Rightarrow> True | _ \<Rightarrow> False),
      get_double = (\<lambda>j. case j of DNum i \<Rightarrow> d_of_int i | _ \<Rightarrow> NaN),
      is_number_integer = (\<lambda>j. case j of DNum _ \<Rightarrow> True | _ \<Rightarrow> False),
      get_int64 = (\<lambda>j. case j of DNum i \<Rightarrow> i | _ \<Rightarrow> 0)\<rparr>"

definition demo_delivered :: "market_event list" where
  "demo_delivered = delivered (fold (on_message demo_api id) [Opened, Received ''x''] (new_client ''AAPL'' (Fin 2)))"

lemma demo_delivered_length: "length demo_delivered = 3"
  by (simp add: demo_delivered_def on_message_def new_client_def handle_text_message_def parse_finnhub_message_def
      demo_api_def parse_tick_def well_typed_tick_def has_field_def field_def empty_result_def tape_defs
      new_adapter_def fp_eval)

definition demo_live :: "unit live" where
  "demo_live = live_pop demo_env demo_tm (fold live_callback demo_delivered (new_live (2 ^ 16) demo_bid demo_start))"

lemma live_run_callbacks: "live_run env s0 s \<Longrightarrow> live_run env s0 (fold live_callback evs s)"
  by (induction evs arbitrary: s) (auto intro: live_run.live_next live_step.callback)

lemma offered_callbacks: "offered (fold live_callback evs s) = offered s @ evs"
  by (induction evs arbitrary: s) (auto simp: live_callback_def split: prod.split)

lemma demo_live_run: "live_run demo_env (new_live (2 ^ 16) demo_bid demo_start) demo_live"
  unfolding demo_live_def by (rule live_run.live_next [OF live_run_callbacks [OF live_run.live_start] live_step.pop])

lemma demo_live_offered: "offered demo_live = demo_delivered"
  by (auto simp: demo_live_def live_pop_def offered_callbacks new_live_def split: prod.split option.split)

lemma live_loop_conveys_example:
  "length (taken demo_live) + length (ring_contents (lv_ring demo_live)) + lv_dropped demo_live = 3
   \<and> reachable demo_env demo_start (lv_pipeline demo_live)"
  using live_loop_conveys [OF demo_live_run [unfolded demo_start_def]] demo_live_offered demo_delivered_length
  by (simp add: demo_start_def)

lemma losses_are_noticed_example:
  "length (offered demo_live) = 3 \<and> out_of_order_dropped (stats (lv_pipeline demo_live)) = 0
   \<and> events_processed (stats (lv_pipeline demo_live)) = length (taken demo_live)"
  using losses_are_noticed [OF demo_live_run [unfolded demo_start_def] demo_live_offered [unfolded demo_delivered_def]]
    demo_live_offered demo_delivered_length by (simp add: demo_start_def)

end
