(* ===== verification/Cli_Args.thy ===== *)
theory Cli_Args
  imports Doubles "HOL-Library.Sublist"
begin

text \<open>
  The command-line parser of \<open>src/common/cli_args.hpp\<close>, which every executable uses.  The arguments
  are those after the program name.  \<open>std::stod\<close> and \<open>std::stol\<close> are parameters that return \<open>None\<close>
  where the functions throw.
\<close>

section \<open>The parser\<close>

type_synonym cli_args = "string \<rightharpoonup> string"

abbreviation is_flag :: "string \<Rightarrow> bool" where
  "is_flag arg \<equiv> prefix ''--'' arg"

fun parse_args :: "string list \<Rightarrow> cli_args \<Rightarrow> cli_args" where
  "parse_args [] values = values"
| "parse_args (arg0 # rest) values =
     (if \<not> is_flag arg0 then parse_args rest values
      else
        let arg = drop 2 arg0; key = takeWhile (\<lambda>c. c \<noteq> CHR ''='') arg
        in if CHR ''='' \<in> set arg then parse_args rest (values(key \<mapsto> drop (length key + 1) arg))
           else case rest of
                  nxt # rest' \<Rightarrow>
                    if \<not> is_flag nxt then parse_args rest' (values(arg \<mapsto> nxt))
                    else parse_args rest (values(arg \<mapsto> ''true''))
                | [] \<Rightarrow> values(arg \<mapsto> ''true''))"

definition cli_parse :: "string list \<Rightarrow> cli_args" where
  "cli_parse argv = parse_args argv Map.empty"

definition cli_get :: "cli_args \<Rightarrow> string \<Rightarrow> string option" where
  "cli_get args key = args key"

definition get_or :: "cli_args \<Rightarrow> string \<Rightarrow> string \<Rightarrow> string" where
  "get_or args key default_value = (case cli_get args key of None \<Rightarrow> default_value | Some v \<Rightarrow> v)"

definition has_arg :: "cli_args \<Rightarrow> string \<Rightarrow> bool" where
  "has_arg args key \<longleftrightarrow> key \<in> dom args"

datatype cli_error = BadNumber string

definition get_double_or ::
  "(string \<Rightarrow> double option) \<Rightarrow> cli_args \<Rightarrow> string \<Rightarrow> double \<Rightarrow> cli_error + double"
where
  "get_double_or stod args key default_value =
     (case cli_get args key of
        None \<Rightarrow> Inr default_value
      | Some v \<Rightarrow> (case stod v of None \<Rightarrow> Inl (BadNumber v) | Some d \<Rightarrow> Inr d))"

definition get_long_or :: "(string \<Rightarrow> int option) \<Rightarrow> cli_args \<Rightarrow> string \<Rightarrow> int \<Rightarrow> cli_error + int" where
  "get_long_or stol args key default_value =
     (case cli_get args key of
        None \<Rightarrow> Inr default_value
      | Some v \<Rightarrow> (case stol v of None \<Rightarrow> Inl (BadNumber v) | Some i \<Rightarrow> Inr i))"

section \<open>Command lines\<close>

text \<open>The ways to write an option, and words the parser skips.\<close>

datatype cli_word = Joined string string | Spaced string string | Switch string

fun word_args :: "cli_word \<Rightarrow> string list" where
  "word_args (Joined k v) = [''--'' @ k @ ''='' @ v]"
| "word_args (Spaced k v) = [''--'' @ k, v]"
| "word_args (Switch k) = [''--'' @ k]"

fun word_value :: "cli_word \<Rightarrow> string \<times> string" where
  "word_value (Joined k v) = (k, v)"
| "word_value (Spaced k v) = (k, v)"
| "word_value (Switch k) = (k, ''true'')"

fun word_ok :: "cli_word \<Rightarrow> bool" where
  "word_ok (Joined k v) \<longleftrightarrow> CHR ''='' \<notin> set k"
| "word_ok (Spaced k v) \<longleftrightarrow> CHR ''='' \<notin> set k \<and> \<not> is_flag v"
| "word_ok (Switch k) \<longleftrightarrow> CHR ''='' \<notin> set k"

lemma takeWhile_key: "CHR ''='' \<notin> set k \<Longrightarrow> takeWhile (\<lambda>c. c \<noteq> CHR ''='') (k @ CHR ''='' # v) = k"
  by (induction k) auto

lemma words_start_with_flag:
  "concat (map word_args ws) = [] \<or> is_flag (hd (concat (map word_args ws)))"
  by (cases ws) (simp, case_tac a, simp_all)

lemma parse_words:
  assumes "\<forall>w \<in> set ws. word_ok w"
  shows "parse_args (concat (map word_args ws)) values = values ++ map_of (rev (map word_value ws))"
  using assms
proof (induction ws arbitrary: "values")
  case (Cons w ws)
  define rest where "rest = concat (map word_args ws)"
  note IH = Cons.IH [OF ballI, of "values(fst (word_value w) \<mapsto> snd (word_value w))", folded rest_def]
  have "rest = [] \<or> is_flag (hd rest)" unfolding rest_def by (rule words_start_with_flag)
  then have "parse_args (word_args w @ rest) values =
      parse_args rest (values(fst (word_value w) \<mapsto> snd (word_value w)))"
    using Cons.prems by (cases w; cases rest) (auto simp: takeWhile_key Let_def)
  then show ?case
    using IH Cons.prems by (simp add: rest_def [symmetric] map_add_def fun_eq_iff split: option.split)
qed simp

text \<open>C39: A command line written with any mixture of the three forms \<open>--key=value\<close>, \<open>--key value\<close>
  and \<open>--key\<close> is read as the options it was written from, the last occurrence of a key
  winning: a value may contain \<open>=\<close>, start with a single dash or be empty, a switch reads as
  \<open>true\<close> also in front of another option or at the end.\<close>

theorem cli_round_trip:
  assumes "\<forall>w \<in> set ws. word_ok w"
  shows "cli_get (cli_parse (concat (map word_args ws))) key = map_of (rev (map word_value ws)) key"
  using parse_words [OF assms] by (simp add: cli_parse_def cli_get_def)

theorem cli_round_trip_witness:
  "cli_get (cli_parse [''--mode=replay'', ''--profile-stages'', ''--speed'', ''-2x'', ''--mode=live=1'']) ''mode''
     = Some ''live=1''"
  using cli_round_trip [of "[Joined ''mode'' ''replay'', Switch ''profile-stages'', Spaced ''speed'' ''-2x'',
      Joined ''mode'' ''live=1'']" "''mode''"] by simp

end
