(* ===== verification/Reports.thy ===== *)
theory Reports
  imports Live_Run Cli_Args
begin

text \<open>
  The reports of \<open>src/apps/market_engine.cpp\<close>: the text on the console and the JSON document.  The
  console is the list of items inserted into \<open>std::cout\<close>; how the stream library formats a number
  is left to it.  The JSON document is the tree the code builds; \<open>dump\<close>, which renders it, belongs to
  the JSON library and is a parameter.
\<close>

section \<open>Output\<close>

datatype item = OText string | ONat nat | OInt int | ODouble double | OFixed double | OBool bool

datatype json_tree =
    JString string
  | JNat nat
  | JInt int
  | JDouble double
  | JObject "(string \<times> json_tree) list"

text \<open>Nanoseconds to microseconds: \<open>x / 1000.0\<close>.\<close>

definition to_us :: "double \<Rightarrow> double" where
  "to_us x = ddiv x (Fin 1000)"

definition print_latency :: "string \<Rightarrow> latency_stats \<Rightarrow> item list" where
  "print_latency label lat =
     (if ls_count lat = 0 then []
      else [OText ''  '', OText label, OText '' (n='', ONat (ls_count lat), OText ''): p50 '',
            ODouble (to_us (percentile (Fin 50) lat)), OText '' us, p95 '',
            ODouble (to_us (percentile (Fin 95) lat)), OText '' us, p99 '',
            ODouble (to_us (percentile (Fin 99) lat)), OText '' us, max '',
            ODouble (to_us (max_ns lat)), OText '' us\<newline>''])"

definition latency_json :: "latency_stats \<Rightarrow> json_tree" where
  "latency_json lat = JObject
     [(''samples'', JNat (ls_count lat)),
      (''p50_us'', JDouble (to_us (percentile (Fin 50) lat))),
      (''p95_us'', JDouble (to_us (percentile (Fin 95) lat))),
      (''p99_us'', JDouble (to_us (percentile (Fin 99) lat))),
      (''max_us'', JDouble (to_us (max_ns lat)))]"

definition report_json :: "'g pipeline \<Rightarrow> string \<Rightarrow> nat \<Rightarrow> json_tree" where
  "report_json p mode_label ring_dropped =
     (let st = stats p; pnl = pf_state (p_portfolio p)
      in JObject
        [(''mode'', JString mode_label),
         (''events_processed'', JNat (events_processed st)),
         (''events_dropped_ring_overflow'', JNat ring_dropped),
         (''out_of_order_dropped'', JNat (out_of_order_dropped st)),
         (''sequence_gaps'', JNat (sequence_gaps st)),
         (''stale_resets'', JNat (stale_resets st)),
         (''clock_stale_events'', JNat (clock_stale_events st)),
         (''crossed_book_events'', JNat (crossed_book_events st)),
         (''orders_submitted'', JNat (total_submitted (p_exec p))),
         (''orders_canceled'', JNat (total_canceled (p_exec p))),
         (''fills'', JNat (fills st)),
         (''partial_fills'', JNat (partial_fills st)),
         (''risk_rejects'', JNat (risk_rejects st)),
         (''position'', JInt (position pnl)),
         (''realized_pnl'', JDouble (realized_pnl pnl)),
         (''unrealized_pnl'', JDouble (unrealized_pnl pnl)),
         (''total_pnl'', JDouble (total_pnl pnl)),
         (''decision_latency'', latency_json (decision_latency st)),
         (''book_update_latency'', latency_json (book_update_latency st)),
         (''execution_latency'', latency_json (execution_latency st))])"

definition print_report :: "'g pipeline \<Rightarrow> string \<Rightarrow> nat \<Rightarrow> item list" where
  "print_report p mode_label ring_dropped =
     (let st = stats p; pnl = pf_state (p_portfolio p); ex = p_exec p
      in [OText ''\<newline>=== '', OText mode_label, OText '' run report ===\<newline>'',
          OText ''events processed:     '', ONat (events_processed st), OText ''\<newline>'',
          OText ''ring-buffer drops:    '', ONat ring_dropped, OText ''\<newline>'',
          OText ''out-of-order dropped: '', ONat (out_of_order_dropped st), OText ''\<newline>'',
          OText ''sequence gaps:        '', ONat (sequence_gaps st), OText ''\<newline>'',
          OText ''stale resets:         '', ONat (stale_resets st), OText '' (+'', ONat (clock_stale_events st),
          OText '' wall-clock stale)\<newline>'',
          OText ''crossed-book events:  '', ONat (crossed_book_events st), OText ''\<newline>'',
          OText ''orders submitted:     '', ONat (total_submitted ex), OText ''\<newline>'',
          OText ''orders canceled:      '', ONat (total_canceled ex), OText ''\<newline>'',
          OText ''fills:                '', ONat (fills st), OText '' (partial: '', ONat (partial_fills st), OText '')\<newline>'',
          OText ''risk rejects:         '', ONat (risk_rejects st), OText ''\<newline>'',
          OText ''open orders:          '', ONat (open_order_count ex), OText ''\<newline>'',
          OText ''-- latency (histogram buckets, lower bound) --\<newline>'']
         @ print_latency ''decision (strategy->risk->order)'' (decision_latency st)
         @ print_latency ''book update + microstructure'' (book_update_latency st)
         @ print_latency ''execution + mark-to-market'' (execution_latency st)
         @ [OText ''-- position / P&L (simulated) --\<newline>'',
          OText ''  position:        '', OInt (position pnl), OText ''\<newline>'',
          OText ''  avg entry price: '', ODouble (avg_entry_price pnl), OText ''\<newline>'',
          OText ''  realized P&L:    '', ODouble (realized_pnl pnl), OText ''\<newline>'',
          OText ''  unrealized P&L:  '', ODouble (unrealized_pnl pnl), OText ''\<newline>'',
          OText ''  total P&L:       '', ODouble (total_pnl pnl), OText ''\<newline>'',
          OText ''  volume traded:   '', OInt (total_volume_traded pnl), OText ''\<newline>'',
          OText ''  turnover ($):    '', ODouble (turnover pnl), OText ''\<newline>''])"

text \<open>The report file.  The output stream is not checked after opening, so on a path that cannot be
  written nothing is stored, and the line on the console is printed all the same.\<close>

definition maybe_write_json ::
  "(json_tree \<Rightarrow> string) \<Rightarrow> (string \<Rightarrow> bool) \<Rightarrow> cli_args \<Rightarrow> json_tree \<Rightarrow> files \<Rightarrow> item list \<times> files"
where
  "maybe_write_json dump can_write args report fs =
     (case cli_get args ''report-json'' of
        None \<Rightarrow> ([], fs)
      | Some path \<Rightarrow>
          ([OText ''JSON report written to '', OText path, OText ''\<newline>''],
           if can_write path then fs(path \<mapsto> map char_byte (dump report @ ''\<newline>'')) else fs))"

lemma unwritable_report_is_announced:
  "cli_get args ''report-json'' = Some path \<Longrightarrow> \<not> can_write path \<Longrightarrow>
   maybe_write_json dump can_write args report fs =
     ([OText ''JSON report written to '', OText path, OText ''\<newline>''], fs)"
  by (simp add: maybe_write_json_def)

section \<open>What the latency statistics hold\<close>

definition latencies :: "'g pipeline \<Rightarrow> latency_stats list" where
  "latencies p = [decision_latency (stats p), book_update_latency (stats p), execution_latency (stats p)]"

lemma latencies_keeps [simp]:
  "latencies (cancel_side s now p) = latencies p"
  "latencies (submit s px sz ref now p) = latencies p"
  "latencies (apply_report r p) = latencies p"
  "latencies (update_market env ev p) = latencies p"
  "latencies (mark_portfolio p) = latencies p"
  by (auto simp: latencies_def cancel_side_def set_slot_def submit_def apply_report_def update_market_def
      mark_portfolio_def Let_def split: option.split)

lemma latencies_more [simp]:
  "latencies (cancel_resting_quotes now p) = latencies p"
  "latencies (resync now p) = latencies p"
  "latencies (replace_side s w px sz th ref now p) = latencies p"
  "latencies (fold apply_report rs p) = latencies p"
proof -
  show c: "latencies (cancel_resting_quotes now p) = latencies p" by (simp add: cancel_resting_quotes_def)
  then show "latencies (resync now p) = latencies p" by (simp add: resync_def Let_def latencies_def)
  show "latencies (replace_side s w px sz th ref now p) = latencies p" by (simp add: replace_side_def)
  show "latencies (fold apply_report rs p) = latencies p" by (induction rs arbitrary: p) simp_all
qed

lemma latencies_requote:
  "latencies (requote env el now p) = [add_ns el (latencies p ! 0), latencies p ! 1, latencies p ! 2]"
proof -
  have "latencies (q\<lparr>stats := (stats q)\<lparr>decision_latency := add_ns el (decision_latency (stats q))\<rparr>\<rparr>) =
      [add_ns el (latencies q ! 0), latencies q ! 1, latencies q ! 2]" for q :: "'a pipeline"
    by (simp add: latencies_def)
  then show ?thesis by (simp add: requote_def Let_def)
qed

lemma latencies_ingest:
  "latencies (ingest env tm ev p) \<in> {latencies p,
     [latencies p ! 0, add_ns (book_ns tm) (latencies p ! 1), add_ns (exec_ns tm) (latencies p ! 2)]}"
proof -
  have a: "latencies (accept_event ev p) = latencies p"
    by (simp add: accept_event_def Let_def) (simp add: latencies_def)
  have r: "latencies (run_execution env ev q) = latencies q" for q
  proof -
    have "latencies (q\<lparr>p_exec := e\<rparr>) = latencies q" for e by (simp add: latencies_def)
    then show ?thesis by (simp add: run_execution_def split: prod.split)
  qed
  have "latencies (q\<lparr>stats := (stats q)\<lparr>book_update_latency := add_ns b (book_update_latency (stats q)),
      execution_latency := add_ns e (execution_latency (stats q))\<rparr>\<rparr>) =
      [latencies q ! 0, add_ns b (latencies q ! 1), add_ns e (latencies q ! 2)]" for q :: "'a pipeline" and b e
    by (simp add: latencies_def)
  then show ?thesis by (simp add: ingest_def Let_def r a)
qed

text \<open>Every histogram was filled by \<open>add_ns\<close>, at most once for each processed event.\<close>

definition timed :: "nat \<Rightarrow> latency_stats \<Rightarrow> bool" where
  "timed n lat \<longleftrightarrow> (\<exists>nss. lat = fold add_ns nss new_stats \<and> length nss \<le> n)"

lemma timed_new: "timed n new_stats"
  unfolding timed_def by (rule exI [of _ "[]"]) simp

lemma timed_mono: "timed n lat \<Longrightarrow> n \<le> m \<Longrightarrow> timed m lat"
  by (auto simp: timed_def)

lemma timed_add: "timed n lat \<Longrightarrow> timed (Suc n) (add_ns ns lat)"
  unfolding timed_def by (elim exE conjE, rule_tac x = "nss @ [ns]" in exI) simp

definition samples_ok :: "'g pipeline \<Rightarrow> bool" where
  "samples_ok p \<longleftrightarrow> list_all (timed (events_processed (stats p))) (latencies p)"

lemma samples_ok_process:
  assumes "samples_ok p"
  shows "samples_ok (process env tm ev p)"
proof -
  let ?n = "events_processed (stats p)"
  have n: "events_processed (stats (process env tm ev p)) = ?n + 1"
    using feed_counters_process [of env tm ev p] by (simp add: feed_counters_def)
  have old: "list_all (timed ?n) (latencies p)" using assms by (simp add: samples_ok_def)
  define q where "q = ingest env tm ev (count_event p)"
  have c: "latencies (count_event p) = latencies p" by (simp add: count_event_def latencies_def)
  from latencies_ingest [of env tm ev "count_event p"]
  have q: "timed ?n (latencies q ! 0)" "timed (?n + 1) (latencies q ! 1)" "timed (?n + 1) (latencies q ! 2)" "length (latencies q) = 3"
    using old unfolding q_def [symmetric] c
    by (auto simp: latencies_def intro: timed_add timed_mono)
  have x: "latencies (r\<lparr>stats := (stats r)\<lparr>crossed_book_events := k\<rparr>\<rparr>) = latencies r"
    "latencies (r\<lparr>stats := (stats r)\<lparr>out_of_order_dropped := k\<rparr>\<rparr>) = latencies r" for r :: "'a pipeline" and k
    by (simp_all add: latencies_def)
  have three: "latencies r = [latencies r ! 0, latencies r ! 1, latencies r ! 2]" for r :: "'a pipeline"
    by (simp add: latencies_def)
  have "latencies (process env tm ev p) \<in> {latencies p, latencies q,
      [add_ns (decision_ns tm) (latencies q ! 0), latencies q ! 1, latencies q ! 2]}"
    by (simp add: process_def Let_def c x latencies_requote q_def [symmetric])
  then consider "latencies (process env tm ev p) = latencies p"
    | "latencies (process env tm ev p) = [latencies q ! 0, latencies q ! 1, latencies q ! 2]"
    | "latencies (process env tm ev p) = [add_ns (decision_ns tm) (latencies q ! 0), latencies q ! 1, latencies q ! 2]"
    using three [of q] by auto
  then have "list_all (timed (?n + 1)) (latencies (process env tm ev p))"
  proof cases
    case 1
    then show ?thesis using old by (auto simp: list_all_iff intro: timed_mono)
  next
    case 2
    then show ?thesis using q timed_mono [of ?n _ "?n + 1"] by simp
  next
    case 3
    then show ?thesis using q timed_add [of ?n] by simp
  qed
  then show ?thesis by (simp add: samples_ok_def n)
qed

lemma samples_ok_clock: "samples_ok p \<Longrightarrow> samples_ok (on_clock now p)"
proof -
  have "latencies (p\<lparr>market_data_stale := b, stats := (stats p)\<lparr>clock_stale_events := n\<rparr>\<rparr>) = latencies p" for b n
    by (simp add: latencies_def)
  then have "latencies (on_clock now p) = latencies p" by (simp add: on_clock_def)
  moreover have "events_processed (stats (on_clock now p)) = events_processed (stats p)"
    using feed_counters_clock [of now p] by (simp add: feed_counters_def)
  ultimately show "samples_ok p \<Longrightarrow> samples_ok (on_clock now p)" by (simp add: samples_ok_def)
qed

lemma samples_ok_reachable:
  assumes "reachable env (new_pipeline sd sy cfg) p"
  shows "samples_ok p"
  using assms
proof (induction rule: reachable.induct)
  case start
  show ?case by (simp add: samples_ok_def latencies_def new_pipeline_def zero_stats_def timed_new)
next
  case (step p p')
  then show ?case by (auto elim!: pipe_stepE simp: samples_ok_process samples_ok_clock)
qed

section \<open>The latency figures\<close>

lemma latency_figure:
  "\<exists>x. percentile p lat = Fin x" "\<exists>x. max_ns lat = Fin x"
proof -
  have "\<exists>x. d_of_int (uint (w :: u64)) = Fin x" for w
    using d_of_int_Fin [of "uint w"] uint_lt2p [of w] by simp
  then show "\<exists>x. percentile p lat = Fin x" "\<exists>x. max_ns lat = Fin x"
    by (simp_all add: percentile_def max_ns_def split: option.split)
qed

lemma to_us_mono: "dle (Fin x) (Fin y) \<Longrightarrow> dle (to_us (Fin x)) (to_us (Fin y))"
  by (simp add: to_us_def rnd_mono divide_right_mono)

definition rising :: "json_tree \<Rightarrow> bool" where
  "rising j \<longleftrightarrow> (\<exists>n a b c m. j = JObject [(''samples'', JNat n), (''p50_us'', JDouble a), (''p95_us'', JDouble b),
     (''p99_us'', JDouble c), (''max_us'', JDouble m)] \<and> dle a b \<and> dle b c \<and> dle c m)"

lemma latency_json_rising:
  assumes "timed n lat" "n \<le> 2 ^ 53"
  shows "rising (latency_json lat)"
proof -
  obtain nss where nss: "lat = fold add_ns nss new_stats" "length nss \<le> 2 ^ 53"
    using assms by (auto simp: timed_def intro: order_trans)
  obtain a b c m where f: "percentile (Fin 50) lat = Fin a" "percentile (Fin 95) lat = Fin b"
      "percentile (Fin 99) lat = Fin c" "max_ns lat = Fin m"
    using latency_figure by metis
  have "dle (Fin a) (Fin b)" "dle (Fin b) (Fin c)" "dle (Fin c) (Fin m)"
    using percentile_mono [of 50 95 nss] percentile_mono [of 95 99 nss] percentile_below_max [of "Fin 99" nss] nss f
    by simp_all
  then show ?thesis unfolding rising_def latency_json_def f by (auto intro!: to_us_mono)
qed

section \<open>Property\<close>

text \<open>The value of a key of a JSON object.\<close>

fun json_get :: "json_tree \<Rightarrow> string \<Rightarrow> json_tree option" where
  "json_get (JObject kvs) key = map_of kvs key"
| "json_get _ key = None"



end
