(* ===== verification/Live_Session.thy ===== *)
theory Live_Session
  imports Reports
begin

text \<open>
  A whole session of live mode, \<open>run_live\<close> of \<open>src/apps/market_engine.cpp\<close> from the start of the client to
  the report: the socket thread with its callbacks, the main loop with its deadline and the signal
  handler, the shutdown and the final drain.  \<open>Live_Run\<close> holds the two threads' use of ring buffer
  and pipeline; here they get their program points, and the client becomes part of the state.

  The web-socket library delivers one message at a time and \<open>stop()\<close> of its client returns when the
  socket thread has ended: no callback is running then and none starts later.
\<close>

section \<open>The final drain\<close>

text \<open>\<open>while (auto ev = ring.pop()) pipeline.process(*ev);\<close> after the feed has stopped.  The \<open>n\<close>-th round
  measures the durations \<open>tms n\<close>.\<close>

partial_function (option) drain_from :: "'g env \<Rightarrow> (nat \<Rightarrow> timings) \<Rightarrow> nat \<Rightarrow> 'g live \<Rightarrow> 'g live option" where
  "drain_from env tms n s =
     (if fst (ring_pop (lv_ring s)) = None then Some (live_pop env (tms n) s)
      else drain_from env tms (n + 1) (live_pop env (tms n) s))"

definition drain :: "'g env \<Rightarrow> (nat \<Rightarrow> timings) \<Rightarrow> 'g live \<Rightarrow> 'g live option" where
  "drain env tms s = drain_from env tms 0 s"

section \<open>The session\<close>

datatype main_at = Testing | Popping | Ticking | Reporting | Stopping | Draining | Done

record 'g session =
  ss_client :: client
  ss_batch :: "market_event list"
  ss_live :: "'g live"
  g_stop :: bool
  ss_main :: main_at
  ss_deadline :: int
  ss_last_report :: int
  ss_out :: "item list"
  ss_files :: files

text \<open>What surrounds a session: the JSON library, the subscription text, the environment of the
  pipeline, the rendering of the report, the writable paths and the arguments.\<close>

record ('g, 'j) surroundings =
  sr_api :: "'j json_api"
  sr_subscribe :: "string \<Rightarrow> string"
  sr_env :: "'g env"
  sr_dump :: "json_tree \<Rightarrow> string"
  sr_can_write :: "string \<Rightarrow> bool"
  sr_args :: cli_args

definition seconds :: "int \<Rightarrow> int" where
  "seconds n = n * 1000000000"

definition new_session ::
  "string \<Rightarrow> double \<Rightarrow> market_event \<Rightarrow> 'g pipeline \<Rightarrow> int \<Rightarrow> int \<Rightarrow> int \<Rightarrow> item list \<Rightarrow> files \<Rightarrow> 'g session"
where
  "new_session sy synthetic_spread dflt p now duration_sec now' out fs =
     \<lparr>ss_client = new_client sy synthetic_spread, ss_batch = [], ss_live = new_live (2 ^ 16) dflt p,
      g_stop = False, ss_main = Testing, ss_deadline = now + seconds duration_sec, ss_last_report = now',
      ss_out = out, ss_files = fs\<rparr>"

text \<open>A message from the socket: the client handles it up to the loop over the batch.\<close>

definition socket_message :: "('g, 'j) surroundings \<Rightarrow> ws_message \<Rightarrow> 'g session \<Rightarrow> 'g session" where
  "socket_message w msg s =
     (let c = on_message (sr_api w) (sr_subscribe w) msg (ss_client s)
      in s\<lparr>ss_client := c, ss_batch := drop (length (delivered (ss_client s))) (delivered c)\<rparr>)"

definition handle_sigint :: "'g session \<Rightarrow> 'g session" where
  "handle_sigint s = s\<lparr>g_stop := True\<rparr>"

text \<open>The line that the main loop rewrites every two seconds.\<close>

definition status_line :: "'g session \<Rightarrow> item list" where
  "status_line s =
     (let c = ss_client s; p = lv_pipeline (ss_live s); st = pf_state (p_portfolio p)
      in [OText (CHR 0x0D # ''  connected=''), OBool (connected c), OText '' msgs='', ONat (messages_received c),
          OText '' processed='', ONat (events_processed (stats p)), OText '' dropped='', ONat (lv_dropped (ss_live s)),
          OText '' reconnects='', ONat (reconnect_count c), OText '' position='', OInt (position st),
          OText '' pnl='', ODouble (total_pnl st)])"

text \<open>The end of \<open>run_live\<close>: console report and JSON file.\<close>

definition finish_live :: "('g, 'j) surroundings \<Rightarrow> 'g live \<Rightarrow> 'g session \<Rightarrow> 'g session" where
  "finish_live w lv s =
     (let p = lv_pipeline lv; dropped = lv_dropped lv;
          (note, fs) = maybe_write_json (sr_dump w) (sr_can_write w) (sr_args w) (report_json p ''live'' dropped) (ss_files s)
      in s\<lparr>ss_live := lv, ss_main := Done, ss_out := ss_out s @ print_report p ''LIVE'' dropped @ note, ss_files := fs\<rparr>)"

inductive session_step :: "('g, 'j) surroundings \<Rightarrow> 'g session \<Rightarrow> 'g session \<Rightarrow> bool" for w where
  socket: "ss_main s \<notin> {Draining, Done} \<Longrightarrow> ss_batch s = [] \<Longrightarrow> session_step w s (socket_message w msg s)"
| deliver: "ss_batch s = ev # evs \<Longrightarrow>
    session_step w s (s\<lparr>ss_live := live_callback ev (ss_live s), ss_batch := evs\<rparr>)"
| deliver_refused: "ss_batch s = ev # evs \<Longrightarrow>
    session_step w s (s\<lparr>ss_live := live_refused ev (ss_live s), ss_batch := evs\<rparr>)"
| sigint: "session_step w s (handle_sigint s)"
| enter: "ss_main s = Testing \<Longrightarrow> \<not> g_stop s \<Longrightarrow> now < ss_deadline s \<Longrightarrow> session_step w s (s\<lparr>ss_main := Popping\<rparr>)"
| leave: "ss_main s = Testing \<Longrightarrow> g_stop s \<or> ss_deadline s \<le> now \<Longrightarrow>
    session_step w s (s\<lparr>ss_main := Stopping, ss_out := ss_out s @ [OText ''\<newline>'']\<rparr>)"
| take_one: "ss_main s = Popping \<Longrightarrow> fst (ring_pop (lv_ring (ss_live s))) \<noteq> None \<Longrightarrow>
    session_step w s (s\<lparr>ss_live := live_pop (sr_env w) tm (ss_live s)\<rparr>)"
| take_none: "ss_main s = Popping \<Longrightarrow> fst (ring_pop (lv_ring (ss_live s))) = None \<Longrightarrow>
    session_step w s (s\<lparr>ss_live := live_pop (sr_env w) tm (ss_live s), ss_main := Ticking\<rparr>)"
| take_stale: "ss_main s = Popping \<Longrightarrow> session_step w s (s\<lparr>ss_main := Ticking\<rparr>)"
| watch: "ss_main s = Ticking \<Longrightarrow> session_step w s (s\<lparr>ss_live := live_clock now (ss_live s), ss_main := Reporting\<rparr>)"
| status: "ss_main s = Reporting \<Longrightarrow> now - ss_last_report s > seconds 2 \<Longrightarrow>
    session_step w s (s\<lparr>ss_out := ss_out s @ status_line s, ss_last_report := now', ss_main := Testing\<rparr>)"
| no_status: "ss_main s = Reporting \<Longrightarrow> \<not> now - ss_last_report s > seconds 2 \<Longrightarrow>
    session_step w s (s\<lparr>ss_main := Testing\<rparr>)"
| shut_down: "ss_main s = Stopping \<Longrightarrow> ss_batch s = [] \<Longrightarrow>
    session_step w s (s\<lparr>ss_client := stop_client (ss_client s), ss_main := Draining\<rparr>)"
| finish: "ss_main s = Draining \<Longrightarrow> drain (sr_env w) tms (ss_live s) = Some lv \<Longrightarrow> session_step w s (finish_live w lv s)"

inductive session_run :: "('g, 'j) surroundings \<Rightarrow> 'g session \<Rightarrow> 'g session \<Rightarrow> bool" for w s0 where
  session_start: "session_run w s0 s0"
| session_next: "session_run w s0 s \<Longrightarrow> session_step w s s' \<Longrightarrow> session_run w s0 s'"

section \<open>The drain ends\<close>

lemma live_run_trans: "live_run env s1 s2 \<Longrightarrow> live_run env s0 s1 \<Longrightarrow> live_run env s0 s2"
  by (induction rule: live_run.induct) (auto intro: live_run.live_next)

lemma drain_from_done:
  assumes "ring_ok (lv_ring s)"
  shows "\<exists>s'. drain_from env tms n s = Some s' \<and> ring_contents (lv_ring s') = [] \<and> live_run env s s'
    \<and> taken s' = taken s @ ring_contents (lv_ring s) \<and> offered s' = offered s \<and> lv_dropped s' = lv_dropped s
    \<and> lv_pipeline s' = fold (\<lambda>(tm, ev). process env tm ev)
        (zip (map tms [n..<n + length (ring_contents (lv_ring s))]) (ring_contents (lv_ring s))) (lv_pipeline s)"
  using assms
proof (induction "ring_contents (lv_ring s)" arbitrary: s n)
  case Nil
  obtain x r where x: "ring_pop (lv_ring s) = (x, r)" by fastforce
  have e: "x = None" "ring_contents r = []" "ring_contents (lv_ring s) = []"
    using ring.deq_law [OF Nil.prems x] Nil.hyps by (simp_all flip: Nil.hyps)
  have "live_run env s (live_pop env (tms n) s)"
    by (rule live_run.live_next [OF live_run.live_start live_step.pop])
  moreover have "drain_from env tms n s = Some (live_pop env (tms n) s)"
    by (subst drain_from.simps) (simp add: x e)
  ultimately show ?case using e by (simp add: live_pop_def x)
next
  case (Cons ev evs)
  obtain x r where x: "ring_pop (lv_ring s) = (x, r)" by fastforce
  have e: "x = Some ev" "ring_contents r = evs" "ring_ok r"
    using ring.deq_law [OF Cons.prems x] by (simp_all flip: Cons.hyps(2))
  define s1 where "s1 = live_pop env (tms n) s"
  have s1: "lv_ring s1 = r" "taken s1 = taken s @ [ev]" "offered s1 = offered s" "lv_dropped s1 = lv_dropped s"
    "lv_pipeline s1 = process env (tms n) ev (lv_pipeline s)"
    by (simp_all add: s1_def live_pop_def x e)
  have d: "drain_from env tms n s = drain_from env tms (n + 1) s1"
    by (subst drain_from.simps) (simp add: x e s1_def)
  have one: "live_run env s s1" unfolding s1_def by (rule live_run.live_next [OF live_run.live_start live_step.pop])
  have "evs = ring_contents (lv_ring s1)" "ring_ok (lv_ring s1)" using s1 e by simp_all
  from Cons.hyps(1) [OF this, of "n + 1"] obtain s' where s': "drain_from env tms (n + 1) s1 = Some s'"
      "ring_contents (lv_ring s') = []" "live_run env s1 s'" "taken s' = taken s1 @ evs" "offered s' = offered s1"
      "lv_dropped s' = lv_dropped s1"
      "lv_pipeline s' = fold (\<lambda>(tm, ev). process env tm ev) (zip (map tms [n + 1..<n + 1 + length evs]) evs) (lv_pipeline s1)"
    using s1(1) e(2) by auto
  have "map tms [n..<n + length (ev # evs)] = tms n # map tms [n + 1..<n + 1 + length evs]"
    by (simp add: upt_conv_Cons del: upt_Suc)
  then show ?case
    using s' s1 d live_run_trans [OF s'(3) one] by (simp flip: Cons.hyps(2) del: upt_Suc)
qed

lemma drain_done:
  assumes "ring_ok (lv_ring s)"
  shows "\<exists>s'. drain env tms s = Some s' \<and> ring_contents (lv_ring s') = [] \<and> live_run env s s'
    \<and> taken s' = taken s @ ring_contents (lv_ring s) \<and> offered s' = offered s \<and> lv_dropped s' = lv_dropped s
    \<and> lv_pipeline s' = fold (\<lambda>(tm, ev). process env tm ev)
        (zip (map tms [0..<length (ring_contents (lv_ring s))]) (ring_contents (lv_ring s))) (lv_pipeline s)"
  using drain_from_done [OF assms, of env tms 0] by (simp add: drain_def)

section \<open>A session is a schedule of the live loop\<close>

lemma session_step_live:
  assumes "session_step w s s'" "ring_ok (lv_ring (ss_live s))"
  shows "live_run (sr_env w) (ss_live s) (ss_live s')"
  using assms(1)
proof cases
  case (finish tms lv)
  then obtain lv' where "drain (sr_env w) tms (ss_live s) = Some lv'" "live_run (sr_env w) (ss_live s) lv'"
    using drain_done [OF assms(2)] by blast
  then show ?thesis using finish by (simp add: finish_live_def Let_def split: prod.split)
qed (auto simp: socket_message_def handle_sigint_def Let_def
    intro: live_run.live_start live_run.live_next [OF live_run.live_start] live_step.intros)

text \<open>What a session keeps: its live part is reached by the live loop, the client has handled some
  messages, everything it delivered was offered to the ring buffer or waits for its callback, no
  callback is left once the client has stopped, and a finished session has an empty ring buffer
  and has printed its report.\<close>

definition session_ok :: "('g, 'j) surroundings \<Rightarrow> 'g pipeline \<Rightarrow> market_event \<Rightarrow> string \<Rightarrow> double \<Rightarrow> 'g session \<Rightarrow> bool" where
  "session_ok w p0 dflt sy sp s \<longleftrightarrow>
     live_run (sr_env w) (new_live (2 ^ 16) dflt p0) (ss_live s)
   \<and> (\<exists>msgs. delivered (ss_client s) = delivered (fold (on_message (sr_api w) (sr_subscribe w)) msgs (new_client sy sp))
        \<and> (ss_main s \<notin> {Draining, Done} \<longrightarrow>
             ss_client s = fold (on_message (sr_api w) (sr_subscribe w)) msgs (new_client sy sp)))
   \<and> offered (ss_live s) @ ss_batch s = delivered (ss_client s)
   \<and> (ss_main s \<in> {Draining, Done} \<longrightarrow> ss_batch s = [])
   \<and> (ss_main s = Done \<longrightarrow> ring_contents (lv_ring (ss_live s)) = []
        \<and> suffix (print_report (lv_pipeline (ss_live s)) ''LIVE'' (lv_dropped (ss_live s))
            @ fst (maybe_write_json (sr_dump w) (sr_can_write w) (sr_args w)
                 (report_json (lv_pipeline (ss_live s)) ''live'' (lv_dropped (ss_live s))) (ss_files s))) (ss_out s)
        \<and> (\<forall>path. cli_get (sr_args w) ''report-json'' = Some path \<and> sr_can_write w path \<longrightarrow>
             ss_files s path = Some (map char_byte (sr_dump w (report_json (lv_pipeline (ss_live s)) ''live''
               (lv_dropped (ss_live s))) @ ''\<newline>''))))"

lemma session_ok_new: "session_ok w p0 dflt sy sp (new_session sy sp dflt p0 now dur now' out fs)"
  unfolding session_ok_def new_session_def
  by (simp add: live_run.live_start new_live_def new_client_def) (rule exI [of _ "[]"], simp add: new_client_def)

lemma session_live: "session_ok w p0 dflt sy sp s \<Longrightarrow> live_run (sr_env w) (new_live (2 ^ 16) dflt p0) (ss_live s)"
  unfolding session_ok_def by blast

lemma session_conveyed: "session_ok w p0 dflt sy sp s \<Longrightarrow> conveyed (sr_env w) p0 (ss_live s)"
  by (rule conveyed_run [OF session_live conveyed_new]) simp_all

lemma session_ring_ok: "session_ok w p0 dflt sy sp s \<Longrightarrow> ring_ok (lv_ring (ss_live s))"
  using session_conveyed [of w p0 dflt sy sp s] by (auto simp: conveyed_def)

lemma delivered_grows: "\<exists>batch. delivered (on_message api sub msg c) = delivered c @ batch"
proof (cases msg)
  case (Received payload)
  then show ?thesis
    by (auto simp: on_message_def handle_text_message_def Let_def split: prod.split)
qed (auto simp: on_message_def)

lemma note_files: "fst (maybe_write_json dump cw args r fs) = fst (maybe_write_json dump cw args r fs')"
  by (simp add: maybe_write_json_def split: option.split)

lemma live_parts [simp]:
  "offered (live_callback ev lv) = offered lv @ [ev]" "offered (live_refused ev lv) = offered lv @ [ev]"
  "offered (live_pop env tm lv) = offered lv" "offered (live_clock now lv) = offered lv"
  by (auto simp: live_callback_def live_refused_def live_pop_def live_clock_def Let_def split: prod.split option.split)

lemma session_ok_step:
  assumes step: "session_step w s s'" and ok: "session_ok w p0 dflt sy sp s"
  shows "session_ok w p0 dflt sy sp s'"
proof -
  have live: "live_run (sr_env w) (new_live (2 ^ 16) dflt p0) (ss_live s')"
    using live_run_trans [OF session_step_live [OF step session_ring_ok [OF ok]]] ok by (simp add: session_ok_def)
  from step show ?thesis
  proof cases
    case (socket msg)
    let ?f = "on_message (sr_api w) (sr_subscribe w)"
    obtain msgs where m: "ss_client s = fold ?f msgs (new_client sy sp)"
      using ok socket by (auto simp: session_ok_def)
    define c where "c = ?f msg (ss_client s)"
    have "c = fold ?f (msgs @ [msg]) (new_client sy sp)" by (simp add: c_def m)
    then have "\<exists>msgs. delivered c = delivered (fold ?f msgs (new_client sy sp)) \<and> c = fold ?f msgs (new_client sy sp)" by metis
    moreover obtain batch where "delivered c = delivered (ss_client s) @ batch"
      unfolding c_def using delivered_grows by blast
    moreover have "s' = s\<lparr>ss_client := c, ss_batch := drop (length (delivered (ss_client s))) (delivered c)\<rparr>"
      using socket by (simp add: socket_message_def c_def Let_def)
    ultimately show ?thesis
      using ok live socket(2,3) unfolding session_ok_def by simp
  next
    case (finish tms lv)
    obtain lv' where d: "drain (sr_env w) tms (ss_live s) = Some lv'" "ring_contents (lv_ring lv') = []"
        "offered lv' = offered (ss_live s)"
      using drain_done [OF session_ring_ok [OF ok]] by blast
    let ?r = "report_json (lv_pipeline lv) ''live'' (lv_dropped lv)"
    obtain said fs where n: "maybe_write_json (sr_dump w) (sr_can_write w) (sr_args w) ?r (ss_files s) = (said, fs)"
      by fastforce
    have "fst (maybe_write_json (sr_dump w) (sr_can_write w) (sr_args w) ?r fs) = said"
      using n note_files by (metis fst_conv)
    moreover have "fs path = Some (map char_byte (sr_dump w ?r @ ''\<newline>''))"
      if "cli_get (sr_args w) ''report-json'' = Some path" "sr_can_write w path" for path
      using n that by (auto simp: maybe_write_json_def)
    moreover have "offered (ss_live s) = delivered (ss_client s)"
      using ok finish(2) by (auto simp: session_ok_def)
    ultimately show ?thesis
      using ok live finish d unfolding session_ok_def
      by (simp add: finish_live_def Let_def n suffix_def)
  qed (use ok live in \<open>auto simp: session_ok_def handle_sigint_def stop_client_def\<close>)
qed

lemma session_run_ok:
  "session_run w s0 s \<Longrightarrow> session_ok w p0 dflt sy sp s0 \<Longrightarrow> session_ok w p0 dflt sy sp s"
  by (induction rule: session_run.induct) (auto intro: session_ok_step)

section \<open>Properties\<close>

text \<open>The account of a session, proved here for any start.\<close>

lemma session_accounts:
  assumes "session_run w (new_session csy sp dflt (new_pipeline sd sy cfg) now dur now' out fs) s" "ss_main s = Done"
    and "length (delivered (ss_client s)) < 2 ^ 64"
  defines "p \<equiv> lv_pipeline (ss_live s)" and "dropped \<equiv> lv_dropped (ss_live s)"
  shows "events_processed (stats p) + dropped = length (delivered (ss_client s))
    \<and> out_of_order_dropped (stats p) = 0
    \<and> (dropped = 0 \<longrightarrow> taken (ss_live s) = delivered (ss_client s) \<and> sequence_gaps (stats p) = 0)
    \<and> (sequence_gaps (stats p) = 0 \<longrightarrow> (\<exists>as bs. delivered (ss_client s) = as @ taken (ss_live s) @ bs))
    \<and> suffix (print_report p ''LIVE'' dropped
         @ fst (maybe_write_json (sr_dump w) (sr_can_write w) (sr_args w) (report_json p ''live'' dropped) (ss_files s)))
         (ss_out s)
    \<and> (\<forall>path. cli_get (sr_args w) ''report-json'' = Some path \<and> sr_can_write w path \<longrightarrow>
         ss_files s path = Some (map char_byte (sr_dump w (report_json p ''live'' dropped) @ ''\<newline>'')))"
proof -
  let ?lv = "ss_live s" and ?p0 = "new_pipeline sd sy cfg"
  have ok: "session_ok w ?p0 dflt csy sp s" by (rule session_run_ok [OF assms(1) session_ok_new])
  then have parts: "\<exists>msgs. delivered (ss_client s) =
      delivered (fold (on_message (sr_api w) (sr_subscribe w)) msgs (new_client csy sp))"
    "offered ?lv = delivered (ss_client s)" "ring_contents (lv_ring ?lv) = []"
    using assms(2) unfolding session_ok_def by auto
  have cons: "consecutive 1 (offered ?lv)"
    using parts(1) delivered_consecutive unfolding parts(2) by metis
  have "out_of_order_dropped (stats p) = 0 \<and> events_processed (stats p) = length (taken ?lv)
      \<and> (dropped = 0 \<longrightarrow> sequence_gaps (stats p) = 0)
      \<and> (sequence_gaps (stats p) = 0 \<longrightarrow> (\<exists>as bs. offered ?lv = as @ taken ?lv @ bs))"
    unfolding p_def dropped_def
    by (rule losses_noticed [OF session_live [OF ok] cons]) (use assms(3) in \<open>simp add: parts(2)\<close>)
  moreover have "length (taken ?lv) + dropped = length (offered ?lv)" "subseq (taken ?lv) (offered ?lv)"
    using session_conveyed [OF ok] parts(3) by (simp_all add: conveyed_def dropped_def)
  then have "dropped = 0 \<longrightarrow> taken ?lv = offered ?lv" by (auto intro: subseq_same_length)
  moreover note ok [unfolded session_ok_def] assms(2)
  ultimately show ?thesis
    using \<open>length (taken ?lv) + dropped = length (offered ?lv)\<close> unfolding parts(2) p_def dropped_def by simp
qed

text \<open>C18: The shutdown ends.  Once the client has stopped, the drain loop returns: it processes
  exactly the events that wait in the ring buffer, oldest first, leaves the buffer empty and lets
  the session finish with its report.\<close>

theorem shutdown_drain_terminates:
  assumes "session_run w (new_session csy sp dflt p0 now dur now' out fs) s" "ss_main s = Draining"
  shows "\<exists>lv. drain (sr_env w) tms (ss_live s) = Some lv \<and> session_step w s (finish_live w lv s)
    \<and> ring_contents (lv_ring lv) = [] \<and> lv_dropped lv = lv_dropped (ss_live s)
    \<and> taken lv = taken (ss_live s) @ ring_contents (lv_ring (ss_live s))
    \<and> lv_pipeline lv = fold (\<lambda>(tm, ev). process (sr_env w) tm ev)
        (zip (map tms [0..<length (ring_contents (lv_ring (ss_live s)))]) (ring_contents (lv_ring (ss_live s))))
        (lv_pipeline (ss_live s))"
proof -
  have "ring_ok (lv_ring (ss_live s))" by (rule session_ring_ok [OF session_run_ok [OF assms(1) session_ok_new]])
  from drain_done [OF this, of "sr_env w" tms] show ?thesis using finish [OF assms(2)] by auto
qed

section \<open>A session\<close>

text \<open>A message with one trade arrives, Ctrl+C is pressed before the main loop has looked at the ring
  buffer, and the session shuts down.\<close>

definition demo_surroundings :: "(unit, demo_json) surroundings" where
  "demo_surroundings = \<lparr>sr_api = demo_api, sr_subscribe = id, sr_env = demo_env, sr_dump = (\<lambda>_. ''{}''),
     sr_can_write = (\<lambda>_. True), sr_args = Map.empty\<rparr>"

definition demo_session :: "unit session" where
  "demo_session = new_session ''AAPL'' (Fin 2) demo_bid demo_start 0 60 0 [] Map.empty"

lemma deliver_all:
  "session_run w s0 s \<Longrightarrow> ss_batch s = evs \<Longrightarrow>
   session_run w s0 (s\<lparr>ss_live := fold live_callback evs (ss_live s), ss_batch := []\<rparr>)"
proof (induction evs arbitrary: s)
  case Nil
  then have "s\<lparr>ss_live := fold live_callback [] (ss_live s), ss_batch := []\<rparr> = s" by (cases s) simp
  with Nil(1) show ?case by simp
next
  case (Cons ev evs)
  from Cons.IH [OF session_next [OF Cons.prems(1) deliver [OF Cons.prems(2)]]] show ?case by simp
qed

lemma quick_shutdown:
  assumes "ss_main s0 = Testing" "ss_batch s0 = []"
  obtains s where "session_run w s0 s" "ss_main s = Draining"
    "delivered (ss_client s) = delivered (fold (on_message (sr_api w) (sr_subscribe w)) [Opened, Received payload] (ss_client s0))"
proof -
  define s1 where "s1 = socket_message w Opened s0"
  define s2 where "s2 = socket_message w (Received payload) s1"
  define s3 where "s3 = s2\<lparr>ss_live := fold live_callback (ss_batch s2) (ss_live s2), ss_batch := []\<rparr>"
  define s4 where "s4 = handle_sigint s3"
  define s5 where "s5 = s4\<lparr>ss_main := Stopping, ss_out := ss_out s4 @ [OText ''\<newline>'']\<rparr>"
  define s6 where "s6 = s5\<lparr>ss_client := stop_client (ss_client s5), ss_main := Draining\<rparr>"
  have r1: "session_run w s0 s1"
    unfolding s1_def by (rule session_next [OF session_start socket]) (simp_all add: assms)
  have m1: "ss_main s1 = Testing" "ss_batch s1 = []"
    by (simp_all add: s1_def socket_message_def on_message_def assms)
  have r2: "session_run w s0 s2"
    unfolding s2_def by (rule session_next [OF r1 socket]) (simp_all add: m1)
  have r3: "session_run w s0 s3" unfolding s3_def by (rule deliver_all [OF r2 refl])
  have m3: "ss_main s3 = Testing" using m1 by (simp add: s3_def s2_def socket_message_def Let_def)
  have r4: "session_run w s0 s4" unfolding s4_def by (rule session_next [OF r3 sigint])
  have r5: "session_run w s0 s5"
    unfolding s5_def by (rule session_next [OF r4 leave [of _ 0]]) (simp_all add: s4_def handle_sigint_def m3)
  have r6: "session_run w s0 s6"
    unfolding s6_def by (rule session_next [OF r5 shut_down]) (simp_all add: s5_def s4_def s3_def handle_sigint_def)
  have "delivered (ss_client s6) = delivered (fold (on_message (sr_api w) (sr_subscribe w)) [Opened, Received payload] (ss_client s0))"
    by (simp add: s6_def s5_def s4_def s3_def s2_def s1_def handle_sigint_def stop_client_def socket_message_def Let_def)
  with r6 show thesis by (intro that [of s6]) (simp_all add: s6_def)
qed

text \<open>Such a session also finishes.\<close>

lemma quick_session:
  assumes "s0 = new_session csy sp dflt p0 now dur now' out fs"
  obtains s where "session_run w s0 s" "ss_main s = Done"
    "delivered (ss_client s) = delivered (fold (on_message (sr_api w) (sr_subscribe w)) [Opened, Received payload] (new_client csy sp))"
proof -
  have start: "ss_main s0 = Testing" "ss_batch s0 = []" "ss_client s0 = new_client csy sp"
    by (simp_all add: assms new_session_def)
  obtain s where s: "session_run w s0 s" "ss_main s = Draining"
      "delivered (ss_client s) = delivered (fold (on_message (sr_api w) (sr_subscribe w)) [Opened, Received payload] (new_client csy sp))"
    using quick_shutdown [OF start(1,2), of w payload] start(3) by metis
  have "ring_ok (lv_ring (ss_live s))"
    by (rule session_ring_ok [OF session_run_ok [OF s(1) [unfolded assms] session_ok_new]])
  then obtain lv where lv: "drain (sr_env w) (\<lambda>_. demo_tm) (ss_live s) = Some lv"
    using drain_done by blast
  have "ss_main (finish_live w lv s) = Done" "ss_client (finish_live w lv s) = ss_client s"
    by (simp_all add: finish_live_def Let_def split: prod.split)
  then show thesis using session_next [OF s(1) finish [OF s(2) lv]] s(3)
    by (intro that [of "finish_live w lv s"]) simp_all
qed

lemma demo_shutdown:
  obtains s where "session_run demo_surroundings demo_session s" "ss_main s = Draining" "delivered (ss_client s) = demo_delivered"
proof (rule quick_shutdown [of demo_session demo_surroundings "''x''"])
  fix s
  assume "session_run demo_surroundings demo_session s" "ss_main s = Draining"
    "delivered (ss_client s) = delivered (fold (on_message (sr_api demo_surroundings) (sr_subscribe demo_surroundings))
       [Opened, Received ''x''] (ss_client demo_session))"
  then show thesis
    by (intro that) (simp_all add: demo_delivered_def demo_surroundings_def demo_session_def new_session_def)
qed (simp_all add: demo_session_def new_session_def)

theorem shutdown_drain_terminates_witness:
  "\<exists>(s :: unit session) (lv :: unit live). ss_main s = Draining \<and> delivered (ss_client s) = demo_delivered
     \<and> drain demo_env (\<lambda>_. demo_tm) (ss_live s) = Some lv \<and> ring_contents (lv_ring lv) = []"
proof -
  obtain s where s: "session_run demo_surroundings demo_session s" "ss_main s = Draining" "delivered (ss_client s) = demo_delivered"
    by (rule demo_shutdown)
  have env: "sr_env demo_surroundings = demo_env" by (simp add: demo_surroundings_def)
  obtain lv where "drain (sr_env demo_surroundings) (\<lambda>_. demo_tm) (ss_live s) = Some lv" "ring_contents (lv_ring lv) = []"
    using shutdown_drain_terminates [OF s(1) [unfolded demo_session_def] s(2), of "\<lambda>_. demo_tm"] by blast
  with s(2,3) show ?thesis unfolding env by blast
qed

end
