(* ===== verification/Market_Engine.thy ===== *)
theory Market_Engine
  imports Live_Session
begin

text \<open>
  The application \<open>src/apps/market_engine.cpp\<close>: speed and configuration parsing, replay mode, the
  choice of the mode and of the API key, and the start of live mode.  The session that live mode
  runs is in \<open>Live_Session\<close>, the reports are in \<open>Reports\<close>.  Files are those of \<open>Event_Codec\<close>; the JSON
  library, \<open>std::stod\<close> and the clocks are parameters.
\<close>

section \<open>Arguments and configuration\<close>

definition parse_speed :: "(string \<Rightarrow> double option) \<Rightarrow> string \<Rightarrow> double" where
  "parse_speed stod s =
     (if s = ''max'' then Fin 0
      else let trimmed = (if s \<noteq> [] \<and> (last s = CHR ''x'' \<or> last s = CHR ''X'') then butlast s else s)
           in case stod trimmed of None \<Rightarrow> Fin 1 | Some d \<Rightarrow> d)"

datatype engine_error = ConfigType string | ConfigSyntax string | EventLog codec_error | Argument cli_error

text \<open>The part of the JSON library that only the application uses.  \<open>read_json\<close> is \<open>operator>>\<close>, which
  stops after the first value of the text, unlike the parser of a whole message.\<close>

record 'j config_api =
  read_json :: "string \<Rightarrow> 'j option"
  get_size :: "'j \<Rightarrow> nat"
  empty_object :: 'j
  is_empty :: "'j \<Rightarrow> bool"

definition load_config ::
  "'j config_api \<Rightarrow> files \<Rightarrow> string \<Rightarrow> engine_error + 'j"
where
  "load_config capi fs path =
     (case fs path of
        None \<Rightarrow> Inr (empty_object capi)
      | Some bytes \<Rightarrow>
          (case read_json capi (map byte_char bytes) of None \<Rightarrow> Inl (ConfigSyntax path) | Some j \<Rightarrow> Inr j))"

definition default_pipeline_config :: pipeline_config where
  "default_pipeline_config =
     \<lparr>cfg_risk_limits = default_risk_limits, cfg_strategy = default_strategy_config,
      cfg_fill_assumptions = default_fill_assumptions, cfg_profile_stages = False\<rparr>"

type_synonym 'j setting = "string \<times> ('j \<Rightarrow> pipeline_config \<Rightarrow> pipeline_config)"

definition set_risk :: "(risk_limits \<Rightarrow> risk_limits) \<Rightarrow> pipeline_config \<Rightarrow> pipeline_config" where
  "set_risk f c = c\<lparr>cfg_risk_limits := f (cfg_risk_limits c)\<rparr>"

definition set_strategy :: "(strategy_config \<Rightarrow> strategy_config) \<Rightarrow> pipeline_config \<Rightarrow> pipeline_config" where
  "set_strategy f c = c\<lparr>cfg_strategy := f (cfg_strategy c)\<rparr>"

definition risk_settings :: "'j json_api \<Rightarrow> 'j config_api \<Rightarrow> 'j setting list" where
  "risk_settings api capi =
     [(''max_position'', \<lambda>v. set_risk (\<lambda>r. r\<lparr>max_position := get_int64 api v\<rparr>)),
      (''max_order_size'', \<lambda>v. set_risk (\<lambda>r. r\<lparr>max_order_size := get_int64 api v\<rparr>)),
      (''max_notional'', \<lambda>v. set_risk (\<lambda>r. r\<lparr>max_notional := get_double api v\<rparr>)),
      (''max_daily_loss'', \<lambda>v. set_risk (\<lambda>r. r\<lparr>max_daily_loss := get_double api v\<rparr>)),
      (''max_open_orders'', \<lambda>v. set_risk (\<lambda>r. r\<lparr>max_open_orders := get_size capi v\<rparr>))]"

definition strategy_settings :: "'j json_api \<Rightarrow> 'j setting list" where
  "strategy_settings api =
     [(''base_half_spread_bps'', \<lambda>v. set_strategy (\<lambda>s. s\<lparr>base_half_spread_bps := get_double api v\<rparr>)),
      (''quote_size'', \<lambda>v. set_strategy (\<lambda>s. s\<lparr>quote_size := get_int64 api v\<rparr>)),
      (''inventory_skew_bps_per_unit'', \<lambda>v. set_strategy (\<lambda>s. s\<lparr>inventory_skew_bps_per_unit := get_double api v\<rparr>)),
      (''max_inventory_for_skew'', \<lambda>v. set_strategy (\<lambda>s. s\<lparr>max_inventory_for_skew := get_int64 api v\<rparr>)),
      (''requote_threshold_bps'', \<lambda>v. set_strategy (\<lambda>s. s\<lparr>requote_threshold_bps := get_double api v\<rparr>)),
      (''volatility_spread_multiplier'', \<lambda>v. set_strategy (\<lambda>s. s\<lparr>volatility_spread_multiplier := get_double api v\<rparr>))]"

text \<open>\<open>if (obj.contains(key)) field = obj[key].get<T>();\<close> for a list of keys; \<open>get\<close> throws on a value
  that is not a number.\<close>

fun apply_settings :: "'j json_api \<Rightarrow> 'j \<Rightarrow> 'j setting list \<Rightarrow> pipeline_config \<Rightarrow> engine_error + pipeline_config" where
  "apply_settings api obj [] c = Inr c"
| "apply_settings api obj ((key, assign) # rest) c =
     (case find_key api obj key of
        None \<Rightarrow> apply_settings api obj rest c
      | Some v \<Rightarrow>
          if is_number api v then apply_settings api obj rest (assign v c) else Inl (ConfigType key))"

definition build_pipeline_config ::
  "'j json_api \<Rightarrow> 'j config_api \<Rightarrow> 'j \<Rightarrow> engine_error + pipeline_config"
where
  "build_pipeline_config api capi cfg =
     (let with_risk =
        (case find_key api cfg ''risk'' of
           None \<Rightarrow> Inr default_pipeline_config
         | Some r \<Rightarrow> apply_settings api r (risk_settings api capi) default_pipeline_config)
      in case with_risk of
           Inl e \<Rightarrow> Inl e
         | Inr c \<Rightarrow>
             (case find_key api cfg ''strategy'' of
                None \<Rightarrow> Inr c
              | Some s \<Rightarrow> apply_settings api s (strategy_settings api) c))"

definition make_config ::
  "'j json_api \<Rightarrow> 'j config_api \<Rightarrow> cli_args \<Rightarrow> 'j \<Rightarrow> engine_error + pipeline_config"
where
  "make_config api capi args cfg =
     (case build_pipeline_config api capi cfg of
        Inl e \<Rightarrow> Inl e
      | Inr c \<Rightarrow> Inr (c\<lparr>cfg_profile_stages := has_arg args ''profile-stages''\<rparr>))"

section \<open>Replay mode and main\<close>

text \<open>What a run depends on apart from arguments and files; \<open>ri_live_feed\<close> is the build option
  \<open>LOB_BUILD_LIVE_FEED\<close>.\<close>

record 'g run_inputs =
  ri_live_feed :: bool
  ri_env :: "'g env"
  ri_seeded :: "u64 \<Rightarrow> 'g"
  ri_timings :: "nat \<Rightarrow> timings"
  ri_clock :: "int \<times> int"
  ri_start :: "int \<times> int"
  ri_dump :: "json_tree \<Rightarrow> string"
  ri_can_write :: "string \<Rightarrow> bool"

text \<open>How the program ends: an exit code before any run, a finished replay with console and files, or a
  live session about to start with the address its client connects to.\<close>

datatype 'g run_result =
    ExitCode nat
  | Replayed replay_summary "'g pipeline" "item list" files
  | Live string "'g session"

definition replay_banner :: "string \<Rightarrow> nat \<Rightarrow> double \<Rightarrow> item list" where
  "replay_banner data_path n speed =
     [OText ''Loading events from '', OText data_path, OText ''...\<newline>'',
      OText ''Loaded '', ONat n, OText '' events. Replaying at speed='']
     @ (if dle speed (Fin 0) then [OText ''max''] else [OFixed speed, OText ''x'']) @ [OText ''...\<newline>'']"

definition replay_result :: "replay_summary \<Rightarrow> item list" where
  "replay_result summary =
     [OText ''\<newline>Replay complete: '', ONat (events_replayed summary), OText '' events in '',
      ODouble (ddiv (d_of_int (wall_clock_duration summary)) (Fin 1000000)), OText '' ms ('',
      ODouble (ddiv (events_per_second summary) (Fin 1000000)), OText '' million events/sec)\<newline>'']"

definition run_replay ::
  "'j json_api \<Rightarrow> 'j config_api \<Rightarrow> (string \<Rightarrow> double option) \<Rightarrow> 'g run_inputs \<Rightarrow> files \<Rightarrow> cli_args \<Rightarrow> 'j \<Rightarrow> string
   \<Rightarrow> engine_error + 'g run_result"
where
  "run_replay api capi stod ri fs args cfg sy =
     (let data_path = get_or args ''data'' []
      in if data_path = [] then Inr (ExitCode 1)
         else
           let speed = parse_speed stod (get_or args ''speed'' ''max'')
           in case read_events_from_file data_path fs of
                Inl e \<Rightarrow> Inl (EventLog e)
              | Inr events \<Rightarrow>
                  (case make_config api capi args cfg of
                     Inl e \<Rightarrow> Inl e
                   | Inr pc \<Rightarrow>
                       let (summary, sleeps, p) = replay_run (ri_env ri) speed (ri_clock ri)
                             (zip (map (ri_timings ri) [0..<length events]) events)
                             (new_pipeline (ri_seeded ri) (symbol_of sy) pc);
                           (note, fs') = maybe_write_json (ri_dump ri) (ri_can_write ri) args (report_json p ''replay'' 0) fs
                       in Inr (Replayed summary p
                            (replay_banner data_path (length events) speed @ replay_result summary
                               @ print_report p ''REPLAY'' 0 @ note) fs')))"

text \<open>The start of live mode: the API key from configuration or environment, where \<open>SET_VIA\<close> marks the
  placeholder of the example configuration, the arguments and the pipeline.  A document that is not
  an object makes \<open>value()\<close> throw.\<close>

definition live_api_key :: "'j json_api \<Rightarrow> 'j \<Rightarrow> string option \<Rightarrow> engine_error + string" where
  "live_api_key api cfg env_key =
     (let from_cfg = (if \<not> is_object api cfg then Inl (ConfigType ''finnhub_api_key'')
                      else case find_key api cfg ''finnhub_api_key'' of
                        None \<Rightarrow> Inr []
                      | Some v \<Rightarrow> if is_string api v then Inr (get_string api v) else Inl (ConfigType ''finnhub_api_key''))
      in case from_cfg of
           Inl e \<Rightarrow> Inl e
         | Inr k \<Rightarrow>
             if k = [] \<or> prefix ''SET_VIA'' k then Inr (case env_key of None \<Rightarrow> k | Some e \<Rightarrow> e) else Inr k)"

text \<open>The address \<open>start()\<close> of the client connects to.\<close>

definition client_url :: "string \<Rightarrow> string" where
  "client_url api_key = ''wss://ws.finnhub.io/?token='' @ api_key"

text \<open>A default \<open>MarketEvent\<close>, which fills the ring buffer at first.\<close>

definition blank_event :: market_event where
  "blank_event = make_heartbeat 0 0 []"

definition live_banner :: "string \<Rightarrow> int \<Rightarrow> item list" where
  "live_banner sy duration_sec =
     [OText ''Starting live Finnhub feed for '', OText sy, OText '' (Ctrl+C to stop early, '', OText ''or waits '',
      OInt duration_sec, OText ''s)...\<newline>'',
      OText (''NOTE: Finnhub's free tier streams trade prints only; top-of-book quotes are ''
        @ ''synthesized around each trade (see marketdata/finnhub_client.hpp).\<newline>'')]"

definition run_live ::
  "'j json_api \<Rightarrow> 'j config_api \<Rightarrow> (string \<Rightarrow> double option) \<Rightarrow> (string \<Rightarrow> int option) \<Rightarrow> 'g run_inputs
   \<Rightarrow> string option \<Rightarrow> files \<Rightarrow> cli_args \<Rightarrow> 'j \<Rightarrow> string \<Rightarrow> engine_error + 'g run_result"
where
  "run_live api capi stod stol ri env_key fs args cfg sy =
     (if \<not> ri_live_feed ri then Inr (ExitCode 1)
      else case live_api_key api cfg env_key of
        Inl e \<Rightarrow> Inl e
      | Inr api_key \<Rightarrow>
          if api_key = [] then Inr (ExitCode 1)
          else case get_long_or stol args ''duration-sec'' 60 of
            Inl e \<Rightarrow> Inl (Argument e)
          | Inr duration_sec \<Rightarrow>
              (case get_double_or stod args ''synthetic-spread'' (rnd (2 / 100)) of
                 Inl e \<Rightarrow> Inl (Argument e)
               | Inr synthetic_spread \<Rightarrow>
                   (case make_config api capi args cfg of
                      Inl e \<Rightarrow> Inl e
                    | Inr pc \<Rightarrow> Inr (Live (client_url api_key)
                        (new_session sy synthetic_spread blank_event
                           (new_pipeline (ri_seeded ri) (symbol_of sy) pc) (fst (ri_start ri)) duration_sec
                           (snd (ri_start ri)) (live_banner sy duration_sec) fs)))))"

text \<open>What surrounds the session of a live run.\<close>

definition live_surroundings ::
  "'j json_api \<Rightarrow> (string \<Rightarrow> string) \<Rightarrow> 'g run_inputs \<Rightarrow> cli_args \<Rightarrow> ('g, 'j) surroundings"
where
  "live_surroundings api subscribe ri args =
     \<lparr>sr_api = api, sr_subscribe = subscribe, sr_env = ri_env ri, sr_dump = ri_dump ri,
      sr_can_write = ri_can_write ri, sr_args = args\<rparr>"

definition config_for :: "'j config_api \<Rightarrow> files \<Rightarrow> string \<Rightarrow> engine_error + 'j" where
  "config_for capi fs config_path =
     (case load_config capi fs config_path of
        Inl e \<Rightarrow> Inl e
      | Inr cfg \<Rightarrow>
          if is_empty capi cfg then load_config capi fs ''config/config.example.json'' else Inr cfg)"

definition engine_main ::
  "'j json_api \<Rightarrow> 'j config_api \<Rightarrow> (string \<Rightarrow> double option) \<Rightarrow> (string \<Rightarrow> int option) \<Rightarrow> 'g run_inputs
   \<Rightarrow> string option \<Rightarrow> files \<Rightarrow> string list \<Rightarrow> engine_error + 'g run_result"
where
  "engine_main api capi stod stol ri env_key fs argv =
     (let args = cli_parse argv;
          mode = get_or args ''mode'' ''replay'';
          sy = get_or args ''symbol'' ''AAPL'';
          config_path = get_or args ''config'' ''config/config.local.json''
      in case config_for capi fs config_path of
           Inl e \<Rightarrow> Inl e
         | Inr cfg \<Rightarrow>
             if mode = ''replay'' then run_replay api capi stod ri fs args cfg sy
             else if mode = ''live'' then run_live api capi stod stol ri env_key fs args cfg sy
             else Inr (ExitCode 1))"

section \<open>Configuration\<close>

text \<open>The value of a key of a section, or a default.\<close>

definition setting_or :: "'j json_api \<Rightarrow> 'j \<Rightarrow> string \<Rightarrow> string \<Rightarrow> ('j \<Rightarrow> 'v) \<Rightarrow> 'v \<Rightarrow> 'v" where
  "setting_or api cfg sec key get dflt =
     (case find_key api cfg sec of
        None \<Rightarrow> dflt
      | Some obj \<Rightarrow> (case find_key api obj key of None \<Rightarrow> dflt | Some v \<Rightarrow> get v))"

definition assign_opt :: "('v \<Rightarrow> 'c \<Rightarrow> 'c) \<Rightarrow> 'v option \<Rightarrow> 'c \<Rightarrow> 'c" where
  "assign_opt f x c = (case x of None \<Rightarrow> c | Some v \<Rightarrow> f v c)"

lemma apply_settings_fold:
  "apply_settings api obj settings c = Inr c' \<Longrightarrow>
   c' = fold (\<lambda>(key, assign). assign_opt assign (find_key api obj key)) settings c"
  by (induction settings arbitrary: c) (auto simp: assign_opt_def split: option.splits if_splits)

lemma assign_opt_section:
  "cfg_risk_limits (assign_opt (\<lambda>v. set_risk (g v)) x c) = assign_opt g x (cfg_risk_limits c)"
  "cfg_strategy (assign_opt (\<lambda>v. set_strategy (h v)) x c) = assign_opt h x (cfg_strategy c)"
  by (cases x; simp add: assign_opt_def set_risk_def set_strategy_def)+

text \<open>An assignment to another field, and to the field itself.\<close>

lemma assign_opt_frame: "(\<And>v s. F (g v s) = F s) \<Longrightarrow> F (assign_opt g x s) = F s"
  by (cases x) (simp_all add: assign_opt_def)

lemmas section_frames =
  assign_opt_frame [of cfg_risk_limits] assign_opt_frame [of cfg_strategy]
  assign_opt_frame [of cfg_fill_assumptions] assign_opt_frame [of cfg_profile_stages]
  assign_opt_frame [of max_position] assign_opt_frame [of max_order_size] assign_opt_frame [of max_notional]
  assign_opt_frame [of max_daily_loss] assign_opt_frame [of max_open_orders]
  assign_opt_frame [of base_half_spread_bps] assign_opt_frame [of quote_size]
  assign_opt_frame [of inventory_skew_bps_per_unit] assign_opt_frame [of max_inventory_for_skew]
  assign_opt_frame [of requote_threshold_bps] assign_opt_frame [of volatility_spread_multiplier]
  assign_opt_frame [of max_staleness_sec]

lemma assign_opt_hits:
  "max_position (assign_opt (\<lambda>v r. r\<lparr>max_position := i v\<rparr>) x r) = (case x of None \<Rightarrow> max_position r | Some v \<Rightarrow> i v)"
  "max_order_size (assign_opt (\<lambda>v r. r\<lparr>max_order_size := i v\<rparr>) x r) = (case x of None \<Rightarrow> max_order_size r | Some v \<Rightarrow> i v)"
  "max_notional (assign_opt (\<lambda>v r. r\<lparr>max_notional := d v\<rparr>) x r) = (case x of None \<Rightarrow> max_notional r | Some v \<Rightarrow> d v)"
  "max_daily_loss (assign_opt (\<lambda>v r. r\<lparr>max_daily_loss := d v\<rparr>) x r) = (case x of None \<Rightarrow> max_daily_loss r | Some v \<Rightarrow> d v)"
  "max_open_orders (assign_opt (\<lambda>v r. r\<lparr>max_open_orders := n v\<rparr>) x r) = (case x of None \<Rightarrow> max_open_orders r | Some v \<Rightarrow> n v)"
  "base_half_spread_bps (assign_opt (\<lambda>v s. s\<lparr>base_half_spread_bps := d v\<rparr>) x s) =
     (case x of None \<Rightarrow> base_half_spread_bps s | Some v \<Rightarrow> d v)"
  "quote_size (assign_opt (\<lambda>v s. s\<lparr>quote_size := i v\<rparr>) x s) = (case x of None \<Rightarrow> quote_size s | Some v \<Rightarrow> i v)"
  "inventory_skew_bps_per_unit (assign_opt (\<lambda>v s. s\<lparr>inventory_skew_bps_per_unit := d v\<rparr>) x s) =
     (case x of None \<Rightarrow> inventory_skew_bps_per_unit s | Some v \<Rightarrow> d v)"
  "max_inventory_for_skew (assign_opt (\<lambda>v s. s\<lparr>max_inventory_for_skew := i v\<rparr>) x s) =
     (case x of None \<Rightarrow> max_inventory_for_skew s | Some v \<Rightarrow> i v)"
  "requote_threshold_bps (assign_opt (\<lambda>v s. s\<lparr>requote_threshold_bps := d v\<rparr>) x s) =
     (case x of None \<Rightarrow> requote_threshold_bps s | Some v \<Rightarrow> d v)"
  "volatility_spread_multiplier (assign_opt (\<lambda>v s. s\<lparr>volatility_spread_multiplier := d v\<rparr>) x s) =
     (case x of None \<Rightarrow> volatility_spread_multiplier s | Some v \<Rightarrow> d v)"
  by (cases x; simp add: assign_opt_def)+

lemma risk_section:
  assumes "apply_settings api obj (risk_settings api capi) c = Inr c'"
  shows "max_position (cfg_risk_limits c') =
      (case find_key api obj ''max_position'' of None \<Rightarrow> max_position (cfg_risk_limits c) | Some v \<Rightarrow> get_int64 api v)"
    "max_order_size (cfg_risk_limits c') =
      (case find_key api obj ''max_order_size'' of None \<Rightarrow> max_order_size (cfg_risk_limits c) | Some v \<Rightarrow> get_int64 api v)"
    "max_notional (cfg_risk_limits c') =
      (case find_key api obj ''max_notional'' of None \<Rightarrow> max_notional (cfg_risk_limits c) | Some v \<Rightarrow> get_double api v)"
    "max_daily_loss (cfg_risk_limits c') =
      (case find_key api obj ''max_daily_loss'' of None \<Rightarrow> max_daily_loss (cfg_risk_limits c) | Some v \<Rightarrow> get_double api v)"
    "max_open_orders (cfg_risk_limits c') =
      (case find_key api obj ''max_open_orders'' of None \<Rightarrow> max_open_orders (cfg_risk_limits c) | Some v \<Rightarrow> get_size capi v)"
    "cfg_strategy c' = cfg_strategy c" "cfg_fill_assumptions c' = cfg_fill_assumptions c"
    "cfg_profile_stages c' = cfg_profile_stages c"
  using apply_settings_fold [OF assms]
  by (simp_all add: risk_settings_def assign_opt_section assign_opt_hits section_frames cong: option.case_cong)
    (simp_all add: set_risk_def section_frames cong: option.case_cong)

lemma strategy_section:
  assumes "apply_settings api obj (strategy_settings api) c = Inr c'"
  shows "base_half_spread_bps (cfg_strategy c') = (case find_key api obj ''base_half_spread_bps'' of
      None \<Rightarrow> base_half_spread_bps (cfg_strategy c) | Some v \<Rightarrow> get_double api v)"
    "quote_size (cfg_strategy c') = (case find_key api obj ''quote_size'' of
      None \<Rightarrow> quote_size (cfg_strategy c) | Some v \<Rightarrow> get_int64 api v)"
    "inventory_skew_bps_per_unit (cfg_strategy c') = (case find_key api obj ''inventory_skew_bps_per_unit'' of
      None \<Rightarrow> inventory_skew_bps_per_unit (cfg_strategy c) | Some v \<Rightarrow> get_double api v)"
    "max_inventory_for_skew (cfg_strategy c') = (case find_key api obj ''max_inventory_for_skew'' of
      None \<Rightarrow> max_inventory_for_skew (cfg_strategy c) | Some v \<Rightarrow> get_int64 api v)"
    "requote_threshold_bps (cfg_strategy c') = (case find_key api obj ''requote_threshold_bps'' of
      None \<Rightarrow> requote_threshold_bps (cfg_strategy c) | Some v \<Rightarrow> get_double api v)"
    "volatility_spread_multiplier (cfg_strategy c') = (case find_key api obj ''volatility_spread_multiplier'' of
      None \<Rightarrow> volatility_spread_multiplier (cfg_strategy c) | Some v \<Rightarrow> get_double api v)"
    "max_staleness_sec (cfg_strategy c') = max_staleness_sec (cfg_strategy c)"
    "cfg_risk_limits c' = cfg_risk_limits c" "cfg_fill_assumptions c' = cfg_fill_assumptions c"
    "cfg_profile_stages c' = cfg_profile_stages c"
  using apply_settings_fold [OF assms]
  by (simp_all add: strategy_settings_def assign_opt_section assign_opt_hits section_frames cong: option.case_cong)
    (simp_all add: set_strategy_def section_frames cong: option.case_cong)

text \<open>What the configuration means: the specification of \<open>build_pipeline_config\<close>.\<close>

definition config_of :: "'j json_api \<Rightarrow> 'j config_api \<Rightarrow> 'j \<Rightarrow> pipeline_config" where
  "config_of api capi cfg =
     (let d = default_risk_limits; e = default_strategy_config
      in \<lparr>cfg_risk_limits =
            \<lparr>max_position = setting_or api cfg ''risk'' ''max_position'' (get_int64 api) (max_position d),
             max_order_size = setting_or api cfg ''risk'' ''max_order_size'' (get_int64 api) (max_order_size d),
             max_notional = setting_or api cfg ''risk'' ''max_notional'' (get_double api) (max_notional d),
             max_daily_loss = setting_or api cfg ''risk'' ''max_daily_loss'' (get_double api) (max_daily_loss d),
             max_open_orders = setting_or api cfg ''risk'' ''max_open_orders'' (get_size capi) (max_open_orders d)\<rparr>,
          cfg_strategy =
            \<lparr>base_half_spread_bps =
               setting_or api cfg ''strategy'' ''base_half_spread_bps'' (get_double api) (base_half_spread_bps e),
             quote_size = setting_or api cfg ''strategy'' ''quote_size'' (get_int64 api) (quote_size e),
             inventory_skew_bps_per_unit = setting_or api cfg ''strategy'' ''inventory_skew_bps_per_unit''
               (get_double api) (inventory_skew_bps_per_unit e),
             max_inventory_for_skew =
               setting_or api cfg ''strategy'' ''max_inventory_for_skew'' (get_int64 api) (max_inventory_for_skew e),
             volatility_spread_multiplier = setting_or api cfg ''strategy'' ''volatility_spread_multiplier''
               (get_double api) (volatility_spread_multiplier e),
             max_staleness_sec = max_staleness_sec e,
             requote_threshold_bps =
               setting_or api cfg ''strategy'' ''requote_threshold_bps'' (get_double api) (requote_threshold_bps e)\<rparr>,
          cfg_fill_assumptions = default_fill_assumptions, cfg_profile_stages = False\<rparr>)"

definition section_numeric :: "'j json_api \<Rightarrow> 'j \<Rightarrow> string \<Rightarrow> string list \<Rightarrow> bool" where
  "section_numeric api cfg sec keys \<longleftrightarrow>
     (case find_key api cfg sec of
        None \<Rightarrow> True
      | Some obj \<Rightarrow> list_all (\<lambda>k. case find_key api obj k of None \<Rightarrow> True | Some v \<Rightarrow> is_number api v) keys)"

lemma apply_settings_total:
  "(\<exists>c'. apply_settings api obj settings c = Inr c') \<longleftrightarrow>
     list_all (\<lambda>k. case find_key api obj k of None \<Rightarrow> True | Some v \<Rightarrow> is_number api v) (map fst settings)"
proof (induction settings arbitrary: c)
  case (Cons x settings)
  obtain key f where x: "x = (key, f)" by (cases x)
  show ?case by (cases "find_key api obj key") (simp_all add: x Cons.IH)
qed simp

lemmas config_simps = config_of_def setting_or_def default_pipeline_config_def Let_def

lemma risk_part:
  assumes "(case find_key api cfg ''risk'' of None \<Rightarrow> Inr default_pipeline_config
         | Some r \<Rightarrow> apply_settings api r (risk_settings api capi) default_pipeline_config) = Inr c"
  shows "cfg_risk_limits c = cfg_risk_limits (config_of api capi cfg)"
    "cfg_strategy c = default_strategy_config" "cfg_fill_assumptions c = default_fill_assumptions"
    "cfg_profile_stages c = False"
proof -
  have "cfg_risk_limits c = cfg_risk_limits (config_of api capi cfg) \<and> cfg_strategy c = default_strategy_config
      \<and> cfg_fill_assumptions c = default_fill_assumptions \<and> cfg_profile_stages c = False"
  proof (cases "find_key api cfg ''risk''")
    case None
    then show ?thesis using assms by (auto simp: config_simps)
  next
    case (Some r)
    then have "apply_settings api r (risk_settings api capi) default_pipeline_config = Inr c" using assms by simp
    note sec = risk_section [OF this]
    have "cfg_risk_limits c = cfg_risk_limits (config_of api capi cfg)"
      by (rule risk_limits.equality) (simp_all add: sec Some config_simps cong: option.case_cong)
    then show ?thesis using sec(6-8) by (simp add: default_pipeline_config_def)
  qed
  then show "cfg_risk_limits c = cfg_risk_limits (config_of api capi cfg)"
    "cfg_strategy c = default_strategy_config" "cfg_fill_assumptions c = default_fill_assumptions"
    "cfg_profile_stages c = False" by simp_all
qed

lemma strategy_part:
  assumes "(case find_key api cfg ''strategy'' of None \<Rightarrow> Inr c | Some s \<Rightarrow> apply_settings api s (strategy_settings api) c) = Inr pc"
    "cfg_strategy c = default_strategy_config"
  shows "cfg_strategy pc = cfg_strategy (config_of api capi cfg) \<and> cfg_risk_limits pc = cfg_risk_limits c
    \<and> cfg_fill_assumptions pc = cfg_fill_assumptions c \<and> cfg_profile_stages pc = cfg_profile_stages c"
proof (cases "find_key api cfg ''strategy''")
  case None
  then show ?thesis using assms by (auto simp: config_simps)
next
  case (Some s)
  then have "apply_settings api s (strategy_settings api) c = Inr pc" using assms(1) by simp
  note sec = strategy_section [OF this]
  have "cfg_strategy pc = cfg_strategy (config_of api capi cfg)"
    by (rule strategy_config.equality) (simp_all add: sec Some config_simps assms(2) cong: option.case_cong)
  then show ?thesis using sec(8-10) by simp
qed

lemma build_config_value:
  assumes "build_pipeline_config api capi cfg = Inr pc"
  shows "pc = config_of api capi cfg"
proof -
  obtain c where c: "(case find_key api cfg ''risk'' of None \<Rightarrow> Inr default_pipeline_config
         | Some r \<Rightarrow> apply_settings api r (risk_settings api capi) default_pipeline_config) = Inr c"
      "(case find_key api cfg ''strategy'' of None \<Rightarrow> Inr c | Some s \<Rightarrow> apply_settings api s (strategy_settings api) c) = Inr pc"
    using assms by (auto simp: build_pipeline_config_def Let_def split: sum.splits)
  note parts = risk_part [OF c(1)] strategy_part [OF c(2) risk_part(2) [OF c(1)], of capi]
  show ?thesis
    by (rule pipeline_config.equality) (use parts in \<open>simp_all add: config_of_def Let_def\<close>)
qed

lemma build_config_total:
  "(\<exists>pc. build_pipeline_config api capi cfg = Inr pc) \<longleftrightarrow>
     section_numeric api cfg ''risk'' [''max_position'', ''max_order_size'', ''max_notional'', ''max_daily_loss'', ''max_open_orders'']
     \<and> section_numeric api cfg ''strategy'' [''base_half_spread_bps'', ''quote_size'', ''inventory_skew_bps_per_unit'',
         ''max_inventory_for_skew'', ''requote_threshold_bps'', ''volatility_spread_multiplier'']"
proof -
  define R where "R = (case find_key api cfg ''risk'' of None \<Rightarrow> Inr default_pipeline_config
         | Some r \<Rightarrow> apply_settings api r (risk_settings api capi) default_pipeline_config)"
  define S where "S c = (case find_key api cfg ''strategy'' of None \<Rightarrow> Inr c
         | Some s \<Rightarrow> apply_settings api s (strategy_settings api) c)" for c
  have "(\<exists>c. R = Inr c) \<longleftrightarrow> section_numeric api cfg ''risk''
      [''max_position'', ''max_order_size'', ''max_notional'', ''max_daily_loss'', ''max_open_orders'']"
    unfolding R_def section_numeric_def
    by (cases "find_key api cfg ''risk''") (simp_all add: apply_settings_total, simp add: risk_settings_def)
  moreover have "(\<exists>pc. S c = Inr pc) \<longleftrightarrow> section_numeric api cfg ''strategy''
      [''base_half_spread_bps'', ''quote_size'', ''inventory_skew_bps_per_unit'',
         ''max_inventory_for_skew'', ''requote_threshold_bps'', ''volatility_spread_multiplier'']" for c
    unfolding S_def section_numeric_def
    by (cases "find_key api cfg ''strategy''") (simp_all add: apply_settings_total, simp add: strategy_settings_def)
  moreover have "build_pipeline_config api capi cfg = (case R of Inl e \<Rightarrow> Inl e | Inr c \<Rightarrow> S c)"
    unfolding build_pipeline_config_def Let_def R_def S_def ..
  ultimately show ?thesis by (cases R) auto
qed

section \<open>Properties\<close>

text \<open>C40: The configuration file is read as documented: every key of the risk and strategy sections
  that is present goes to its own limit or parameter, every other one keeps its default, the
  staleness limit and the fill assumptions always do; the program fails exactly when a
  recognised key holds something that is not a number.\<close>

theorem config_is_read_as_documented:
  "build_pipeline_config api capi cfg = Inr pc \<longleftrightarrow>
     pc = config_of api capi cfg
     \<and> section_numeric api cfg ''risk'' [''max_position'', ''max_order_size'', ''max_notional'', ''max_daily_loss'', ''max_open_orders'']
     \<and> section_numeric api cfg ''strategy'' [''base_half_spread_bps'', ''quote_size'', ''inventory_skew_bps_per_unit'',
         ''max_inventory_for_skew'', ''requote_threshold_bps'', ''volatility_spread_multiplier'']"
  using build_config_total [of api capi cfg] build_config_value [of api capi cfg] by blast

lemma replay_mode_runs:
  fixes ri :: "'g run_inputs"
  assumes "get_or (cli_parse argv) ''mode'' ''replay'' = ''replay''" "get_or (cli_parse argv) ''data'' [] = path" "path \<noteq> []"
    and "config_for capi fs (get_or (cli_parse argv) ''config'' ''config/config.local.json'') = Inr cfg"
    and "make_config api capi (cli_parse argv) cfg = Inr pc" and "read_events_from_file path fs = Inr events"
  defines "p0 \<equiv> new_pipeline (ri_seeded ri) (symbol_of (get_or (cli_parse argv) ''symbol'' ''AAPL'')) pc"
  shows "\<exists>summary p out fs'. engine_main api capi stod stol ri env_key fs argv = Inr (Replayed summary p out fs')
    \<and> events_replayed summary = length events
    \<and> p = fold (\<lambda>(tm, ev). process (ri_env ri) tm ev) (zip (map (ri_timings ri) [0..<length events]) events) p0
    \<and> suffix (print_report p ''REPLAY'' 0
         @ fst (maybe_write_json (ri_dump ri) (ri_can_write ri) (cli_parse argv) (report_json p ''replay'' 0) fs)) out
    \<and> fs' = snd (maybe_write_json (ri_dump ri) (ri_can_write ri) (cli_parse argv) (report_json p ''replay'' 0) fs)"
proof -
  let ?timed = "zip (map (ri_timings ri) [0..<length events]) events"
  let ?speed = "parse_speed stod (get_or (cli_parse argv) ''speed'' ''max'')"
  obtain summary sleeps p where run: "replay_run (ri_env ri) ?speed (ri_clock ri) ?timed p0 = (summary, sleeps, p)"
    by (metis prod.exhaust)
  obtain said fs' where js: "maybe_write_json (ri_dump ri) (ri_can_write ri) (cli_parse argv) (report_json p ''replay'' 0) fs = (said, fs')"
    by fastforce
  define out where "out = replay_banner path (length events) ?speed @ replay_result summary @ print_report p ''REPLAY'' 0 @ said"
  have "engine_main api capi stod stol ri env_key fs argv = Inr (Replayed summary p out fs')"
    using assms(1-6) run js by (simp add: engine_main_def run_replay_def Let_def p0_def out_def)
  moreover have "events_replayed summary = length events" "p = fold (\<lambda>(tm, ev). process (ri_env ri) tm ev) ?timed p0"
    using run by (auto simp: replay_run_eq)
  moreover have "suffix (print_report p ''REPLAY'' 0
      @ fst (maybe_write_json (ri_dump ri) (ri_can_write ri) (cli_parse argv) (report_json p ''replay'' 0) fs)) out"
    by (simp add: js out_def suffix_def)
  moreover have "fs' = snd (maybe_write_json (ri_dump ri) (ri_can_write ri) (cli_parse argv) (report_json p ''replay'' 0) fs)"
    by (simp add: js)
  ultimately show ?thesis by blast
qed

text \<open>C15: Replay mode reproduces a recorded session.  For any command line that selects replay mode
  and names a log that was written with the events of a session, and any configuration and
  speed: the program processes every event and ends with the pipeline of the session, run
  with the configured limits, apart from latency statistics; its output ends with the report.\<close>

theorem replay_mode_reproduces_session:
  assumes "get_or (cli_parse argv) ''mode'' ''replay'' = ''replay''" "get_or (cli_parse argv) ''data'' [] = path" "path \<noteq> []"
    and "config_for capi fs' (get_or (cli_parse argv) ''config'' ''config/config.local.json'') = Inr cfg"
    and "make_config api capi (cli_parse argv) cfg = Inr pc"
    and "write_events_to_file can_write path (map snd session) fs = Inr fs'" "\<forall>ev\<in>set (map snd session). storable ev"
  shows "\<exists>summary p out fs''. engine_main api capi stod stol ri env_key fs' argv = Inr (Replayed summary p out fs'')
    \<and> events_replayed summary = length session
    \<and> forget_time p = forget_time (fold (\<lambda>(tm, ev). process (ri_env ri) tm ev) session
        (new_pipeline (ri_seeded ri) (symbol_of (get_or (cli_parse argv) ''symbol'' ''AAPL'')) pc))
    \<and> suffix (print_report p ''REPLAY'' 0
         @ fst (maybe_write_json (ri_dump ri) (ri_can_write ri) (cli_parse argv) (report_json p ''replay'' 0) fs')) out"
proof -
  have cw: "can_write path" using assms(6) by (auto simp: write_events_to_file_def split: if_splits)
  have lg: "read_events_from_file path fs' = Inr (map snd session)"
    by (rule read_written_file [where can_write = can_write and path = path and fs = fs, OF cw assms(7)])
      (use assms(6) in simp)
  let ?timed = "zip (map (ri_timings ri) [0..<length session]) (map snd session)"
  let ?p0 = "new_pipeline (ri_seeded ri) (symbol_of (get_or (cli_parse argv) ''symbol'' ''AAPL'')) pc"
  have "forget_time (fold (\<lambda>(tm, ev). process (ri_env ri) tm ev) ?timed ?p0) =
      forget_time (fold (\<lambda>(tm, ev). process (ri_env ri) tm ev) session ?p0)"
    by (rule fold_process_time) simp_all
  with replay_mode_runs [OF assms(1-5) lg, of stod stol ri env_key] show ?thesis by auto
qed

definition demo_capi :: "demo_json config_api" where
  "demo_capi = \<lparr>read_json = (\<lambda>_. Some (DObj [])), get_size = (\<lambda>j. case j of DNum i \<Rightarrow> nat i | _ \<Rightarrow> 0), empty_object = DObj [],
     is_empty = (\<lambda>j. j = DObj [])\<rparr>"

definition demo_inputs :: "unit run_inputs" where
  "demo_inputs = \<lparr>ri_live_feed = True, ri_env = demo_env, ri_seeded = (\<lambda>_. ()), ri_timings = (\<lambda>_. demo_tm), ri_clock = (0, 1), ri_start = (0, 0), ri_dump = (\<lambda>_. ''{}''), ri_can_write = (\<lambda>_. True)\<rparr>"

theorem replay_mode_reproduces_session_witness:
  "\<exists>fs' summary p out fs''. write_events_to_file (\<lambda>_. True) ''log'' [demo_bid, demo_ask] Map.empty = Inr fs'
    \<and> engine_main demo_api demo_capi (\<lambda>_. None) (\<lambda>_. None) demo_inputs None fs' [''--data=log'', ''--speed=2x''] =
        Inr (Replayed summary p out fs'')
    \<and> events_replayed summary = 2"
proof -
  let ?session = "[(demo_tm, demo_bid), (demo_tm, demo_ask)]" and ?argv = "[''--data=log'', ''--speed=2x'']"
  have st: "\<forall>ev\<in>set (map snd ?session). storable ev"
    by (simp add: demo_bid_def demo_ask_def make_quote_def storable_def int64_ok_def kMaxLen_def
        canonical_type_def canonical_side_def)
  obtain fs' where fs: "write_events_to_file (\<lambda>_. True) ''log'' (map snd ?session) Map.empty = Inr fs'"
      "dom fs' \<subseteq> {''log''}"
    by (simp add: write_events_to_file_def)
  have args: "get_or (cli_parse ?argv) ''mode'' ''replay'' = ''replay''" "get_or (cli_parse ?argv) ''data'' [] = ''log''"
    "get_or (cli_parse ?argv) ''config'' ''config/config.local.json'' = ''config/config.local.json''"
    by (simp_all add: cli_parse_def get_or_def cli_get_def)
  have none: "fs' ''config/config.local.json'' = None" "fs' ''config/config.example.json'' = None"
    using fs(2) by auto
  have cfg: "config_for demo_capi fs' (get_or (cli_parse ?argv) ''config'' ''config/config.local.json'') = Inr (DObj [])"
    unfolding args by (simp add: config_for_def load_config_def none demo_capi_def)
  have mk: "make_config demo_api demo_capi (cli_parse ?argv) (DObj []) =
      Inr (default_pipeline_config\<lparr>cfg_profile_stages := has_arg (cli_parse ?argv) ''profile-stages''\<rparr>)"
    by (simp add: make_config_def build_pipeline_config_def demo_api_def)
  from replay_mode_reproduces_session [OF args(1,2) _ cfg mk fs(1) st, of "\<lambda>_. None" "\<lambda>_. None" demo_inputs None]
  show ?thesis using fs(1) by (simp add: numeral_2_eq_2) blast
qed

lemma live_mode_starts:
  fixes ri :: "'g run_inputs"
  assumes "engine_main api capi stod stol ri env_key fs argv = Inr (Live url s0)"
  obtains key csy sp cfg dur out where "ri_live_feed ri" "key \<noteq> []" "url = client_url key"
    "s0 = new_session csy sp blank_event (new_pipeline (ri_seeded ri) (symbol_of csy) cfg) (fst (ri_start ri)) dur
       (snd (ri_start ri)) out fs"
  using assms
  by (auto simp: engine_main_def run_replay_def run_live_def Let_def
      split: if_splits sum.splits prod.splits)

text \<open>C16: A live session accounts for every event.  However socket thread, main loop and signal
  handler are scheduled and whatever the provider sent: when a session that the program started in
  live mode has ended, the events processed and the events counted as dropped in its report are
  all the client has delivered.  No event was taken for a duplicate; without drops all were
  processed in order and no gap was seen, and if no gap was seen, those processed are an unbroken
  stretch of those delivered.  The console ends with the report and the report file, if one was
  asked for and can be written, holds the same figures.\<close>

theorem live_mode_accounts_for_every_event:
  assumes "engine_main api capi stod stol ri env_key fs argv = Inr (Live url s0)"
    and "session_run (live_surroundings api subscribe ri (cli_parse argv)) s0 s" "ss_main s = Done"
    and "length (delivered (ss_client s)) < 2 ^ 64"
  defines "p \<equiv> lv_pipeline (ss_live s)" and "dropped \<equiv> lv_dropped (ss_live s)"
  shows "ri_live_feed ri \<and> (\<exists>key. key \<noteq> [] \<and> url = client_url key)
    \<and> events_processed (stats p) + dropped = length (delivered (ss_client s))
    \<and> out_of_order_dropped (stats p) = 0
    \<and> (dropped = 0 \<longrightarrow> taken (ss_live s) = delivered (ss_client s) \<and> sequence_gaps (stats p) = 0)
    \<and> (sequence_gaps (stats p) = 0 \<longrightarrow> (\<exists>as bs. delivered (ss_client s) = as @ taken (ss_live s) @ bs))
    \<and> suffix (print_report p ''LIVE'' dropped
         @ fst (maybe_write_json (ri_dump ri) (ri_can_write ri) (cli_parse argv) (report_json p ''live'' dropped) (ss_files s)))
         (ss_out s)
    \<and> (\<forall>path. cli_get (cli_parse argv) ''report-json'' = Some path \<and> ri_can_write ri path \<longrightarrow>
         ss_files s path = Some (map char_byte (ri_dump ri (report_json p ''live'' dropped) @ ''\<newline>'')))"
proof (rule live_mode_starts [OF assms(1)])
  fix key csy sp cfg dur out
  assume "ri_live_feed ri" "key \<noteq> []" "url = client_url key"
  then have ex: "ri_live_feed ri" "\<exists>key. key \<noteq> [] \<and> url = client_url key" by blast+
  assume start: "s0 = new_session csy sp blank_event (new_pipeline (ri_seeded ri) (symbol_of csy) cfg)
    (fst (ri_start ri)) dur (snd (ri_start ri)) out fs"
  note session_accounts [OF assms(2) [unfolded start] assms(3,4), folded p_def dropped_def]
  with ex show ?thesis by (simp add: live_surroundings_def)
qed

theorem live_mode_accounts_for_every_event_witness:
  "\<exists>s0 s. engine_main demo_api demo_capi (\<lambda>_. Some (Fin 2)) (\<lambda>_. None) demo_inputs (Some ''key'') Map.empty
       [''--mode=live'', ''--synthetic-spread=2''] = Inr (Live (client_url ''key'') s0)
     \<and> session_run (live_surroundings demo_api id demo_inputs (cli_parse [''--mode=live'', ''--synthetic-spread=2''])) s0 s
     \<and> ss_main s = Done \<and> events_processed (stats (lv_pipeline (ss_live s))) + lv_dropped (ss_live s) = 3"
proof -
  let ?argv = "[''--mode=live'', ''--synthetic-spread=2'']"
  let ?w = "live_surroundings demo_api id demo_inputs (cli_parse ?argv)"
  have args: "get_or (cli_parse ?argv) ''mode'' ''replay'' = ''live''" "get_or (cli_parse ?argv) ''symbol'' ''AAPL'' = ''AAPL''"
    "get_long_or (\<lambda>_. None) (cli_parse ?argv) ''duration-sec'' 60 = Inr 60"
    "get_double_or (\<lambda>_. Some (Fin 2)) (cli_parse ?argv) ''synthetic-spread'' d = Inr (Fin 2)" for d
    by (simp_all add: cli_parse_def get_or_def cli_get_def get_double_or_def get_long_or_def)
  have cfg: "config_for demo_capi Map.empty path = Inr (DObj [])" for path
    by (simp add: config_for_def load_config_def demo_capi_def)
  have live: "ri_live_feed demo_inputs" by (simp add: demo_inputs_def)
  have key: "live_api_key demo_api (DObj []) (Some ''key'') = Inr ''key''"
    by (simp add: live_api_key_def demo_api_def)
  define pc where "pc = default_pipeline_config\<lparr>cfg_profile_stages := has_arg (cli_parse ?argv) ''profile-stages''\<rparr>"
  have mk: "make_config demo_api demo_capi (cli_parse ?argv) (DObj []) = Inr pc"
    by (simp add: make_config_def build_pipeline_config_def demo_api_def pc_def)
  define s0 where s0: "s0 = new_session ''AAPL'' (Fin 2) blank_event (new_pipeline (ri_seeded demo_inputs) (symbol_of ''AAPL'') pc)
      (fst (ri_start demo_inputs)) 60 (snd (ri_start demo_inputs)) (live_banner ''AAPL'' 60) Map.empty"
  have run: "engine_main demo_api demo_capi (\<lambda>_. Some (Fin 2)) (\<lambda>_. None) demo_inputs (Some ''key'') Map.empty ?argv
        = Inr (Live (client_url ''key'') s0)"
    by (simp add: engine_main_def args cfg run_live_def key mk s0 Let_def live)
  obtain s where s: "session_run ?w s0 s" "ss_main s = Done"
      "delivered (ss_client s) = delivered (fold (on_message (sr_api ?w) (sr_subscribe ?w)) [Opened, Received ''x''] (new_client ''AAPL'' (Fin 2)))"
    by (rule quick_session [OF s0, of ?w "''x''"])
  have "delivered (ss_client s) = demo_delivered"
    unfolding s(3) demo_delivered_def by (simp add: live_surroundings_def)
  with live_mode_accounts_for_every_event [OF run s(1,2)] run s(1,2) show ?thesis
    by (auto simp: demo_delivered_length)
qed

text \<open>With the placeholder of the example configuration and no key in the environment, the
  placeholder itself is used as the key.\<close>

lemma placeholder_key_is_used:
  assumes "is_object api cfg" "find_key api cfg ''finnhub_api_key'' = Some v" "is_string api v" "prefix ''SET_VIA'' (get_string api v)"
  shows "live_api_key api cfg None = Inr (get_string api v)"
  using assms by (simp add: live_api_key_def)

end
