(* ===== verification/Object_Pool.thy ===== *)
theory Object_Pool
  imports Prelude
begin

text \<open>
  The object pool of \<open>src/common/object_pool.hpp\<close>: a fixed array of slots, each a union of an object
  and the link of the free list.  A pointer is the index of a slot.  Reading the link of a slot
  that holds an object, destroying an object that is not alive and using a pointer outside the
  array are undefined in C++; they are the values of \<open>pool_fault\<close>.

  The locale \<open>allocator\<close> states what a caller can rely on; the pool interprets it.
\<close>

section \<open>The pool\<close>

datatype 'a slot_union = Uninit | Value 'a | NextFree "nat option"

datatype pool_fault = Bad_Pointer | Not_A_Link | Not_Alive

record 'a pool =
  storage :: "'a slot_union list"
  pool_capacity :: nat
  free_head :: "nat option"
  live_count :: nat
  exhausted_count :: nat

definition new_pool :: "nat \<Rightarrow> 'a pool" where
  "new_pool cap =
     (let st = fold (\<lambda>i st. st[i := NextFree (Some (i + 1))]) [0..<cap - 1] (replicate cap Uninit)
      in if cap > 0
         then \<lparr>storage = st[cap - 1 := NextFree None], pool_capacity = cap, free_head = Some 0,
               live_count = 0, exhausted_count = 0\<rparr>
         else \<lparr>storage = st, pool_capacity = cap, free_head = None, live_count = 0, exhausted_count = 0\<rparr>)"

definition acquire :: "'a \<Rightarrow> 'a pool \<Rightarrow> pool_fault + (nat option \<times> 'a pool)" where
  "acquire v p =
     (case free_head p of
        None \<Rightarrow> Inr (None, p\<lparr>exhausted_count := exhausted_count p + 1\<rparr>)
      | Some i \<Rightarrow>
          if i \<ge> length (storage p) then Inl Bad_Pointer
          else case storage p ! i of
                 NextFree n \<Rightarrow>
                   Inr (Some i, p\<lparr>storage := (storage p)[i := Value v], free_head := n,
                                  live_count := live_count p + 1\<rparr>)
               | _ \<Rightarrow> Inl Not_A_Link)"

definition release :: "nat option \<Rightarrow> 'a pool \<Rightarrow> pool_fault + 'a pool" where
  "release obj p =
     (case obj of
        None \<Rightarrow> Inr p
      | Some i \<Rightarrow>
          if i \<ge> length (storage p) then Inl Bad_Pointer
          else case storage p ! i of
                 Value _ \<Rightarrow>
                   Inr (p\<lparr>storage := (storage p)[i := NextFree (free_head p)], free_head := Some i,
                          live_count := live_count p - 1\<rparr>)
               | _ \<Rightarrow> Inl Not_Alive)"

text \<open>The objects that are alive.\<close>

definition objects :: "'a pool \<Rightarrow> nat \<rightharpoonup> 'a" where
  "objects p i = (if i < length (storage p)
     then case storage p ! i of Value v \<Rightarrow> Some v | _ \<Rightarrow> None else None)"

section \<open>The contract of an allocator\<close>

locale allocator =
  fixes ok :: "'p \<Rightarrow> bool"
    and objs :: "'p \<Rightarrow> nat \<rightharpoonup> 'a"
    and cap :: "'p \<Rightarrow> nat"
    and acq :: "'a \<Rightarrow> 'p \<Rightarrow> 'e + (nat option \<times> 'p)"
    and rel :: "nat option \<Rightarrow> 'p \<Rightarrow> 'e + 'p"
  assumes bounded: "ok p \<Longrightarrow> dom (objs p) \<subseteq> {..<cap p}"
    and acq_free: "ok p \<Longrightarrow> card (dom (objs p)) < cap p \<Longrightarrow>
      \<exists>i p'. acq v p = Inr (Some i, p') \<and> ok p' \<and> cap p' = cap p \<and> i \<notin> dom (objs p)
        \<and> objs p' = (objs p)(i \<mapsto> v)"
    and acq_full: "ok p \<Longrightarrow> card (dom (objs p)) = cap p \<Longrightarrow>
      \<exists>p'. acq v p = Inr (None, p') \<and> ok p' \<and> cap p' = cap p \<and> objs p' = objs p"
    and rel_null: "rel None p = Inr p"
    and rel_live: "ok p \<Longrightarrow> i \<in> dom (objs p) \<Longrightarrow>
      \<exists>p'. rel (Some i) p = Inr p' \<and> ok p' \<and> cap p' = cap p \<and> objs p' = (objs p)(i := None)"
    and rel_dead: "ok p \<Longrightarrow> i \<notin> dom (objs p) \<Longrightarrow> \<exists>e. rel (Some i) p = Inl e"
begin

inductive using_pool :: "'p \<Rightarrow> 'p \<Rightarrow> bool" for p0 where
  fresh: "using_pool p0 p0"
| acquired: "using_pool p0 p \<Longrightarrow> acq v p = Inr (r, p') \<Longrightarrow> using_pool p0 p'"
| released: "using_pool p0 p \<Longrightarrow> rel r p = Inr p' \<Longrightarrow> using_pool p0 p'"

lemma card_le_cap: "ok p \<Longrightarrow> card (dom (objs p)) \<le> cap p"
  using bounded [of p] card_mono [of "{..<cap p}" "dom (objs p)"] by simp

lemma acq_cases:
  assumes "ok p"
  obtains (space) i p' where "acq v p = Inr (Some i, p')" "ok p'" "cap p' = cap p" "i \<notin> dom (objs p)"
      "objs p' = (objs p)(i \<mapsto> v)" "card (dom (objs p)) < cap p"
    | (full) p' where "acq v p = Inr (None, p')" "ok p'" "cap p' = cap p" "objs p' = objs p"
      "card (dom (objs p)) = cap p"
  using acq_free [OF assms, of v] acq_full [OF assms, of v] card_le_cap [OF assms]
  by (metis le_neq_implies_less)

lemma using_pool_ok: "using_pool p0 p \<Longrightarrow> ok p0 \<Longrightarrow> ok p \<and> cap p = cap p0"
proof (induction rule: using_pool.induct)
  case (acquired p v r p')
  then have "ok p" by simp
  then show ?case by (rule acq_cases [of p v]) (use acquired in auto)
next
  case (released p r p')
  then show ?case using rel_null rel_live rel_dead
    by (cases r) (fastforce, metis Inl_Inr_False sum.inject(2))
qed simp

lemma acq_never_faults: "ok p \<Longrightarrow> acq v p \<noteq> Inl e"
  by (rule acq_cases [of p v]) auto

end

section \<open>The free list\<close>

fun chain :: "'a slot_union list \<Rightarrow> nat option \<Rightarrow> nat list \<Rightarrow> bool" where
  "chain st h [] \<longleftrightarrow> h = None"
| "chain st h (i # fl) \<longleftrightarrow> h = Some i \<and> i < length st \<and> (\<exists>n. st ! i = NextFree n \<and> chain st n fl)"

text \<open>The free list runs through exactly the slots that hold no object, each once.\<close>

definition pool_ok :: "'a pool \<Rightarrow> bool" where
  "pool_ok p \<longleftrightarrow> length (storage p) = pool_capacity p
     \<and> live_count p = card (dom (objects p))
     \<and> (\<exists>fl. chain (storage p) (free_head p) fl \<and> distinct fl
          \<and> set fl = {..<pool_capacity p} - dom (objects p))"

lemma chain_update: "i \<notin> set fl \<Longrightarrow> chain (st[i := x]) h fl \<longleftrightarrow> chain st h fl"
  by (induction fl arbitrary: h) auto

lemma objects_bound: "dom (objects p) \<subseteq> {..<length (storage p)}"
  by (auto simp: objects_def split: if_splits)

lemma finite_objects [simp]: "finite (dom (objects p))"
  by (rule finite_subset [OF objects_bound]) simp

lemma objects_update:
  "i < length (storage p) \<Longrightarrow>
   objects (p\<lparr>storage := (storage p)[i := x], free_head := h, live_count := n\<rparr>) =
     (objects p)(i := (case x of Value v \<Rightarrow> Some v | _ \<Rightarrow> None))"
  by (auto simp: objects_def fun_eq_iff nth_list_update)

lemma objects_exhausted [simp]: "objects (p\<lparr>exhausted_count := n\<rparr>) = objects p"
  by (simp add: objects_def fun_eq_iff)

lemma objects_live_iff: "i \<in> dom (objects p) \<longleftrightarrow> i < length (storage p) \<and> (\<exists>v. storage p ! i = Value v)"
  by (auto simp: objects_def split: slot_union.splits if_splits)

lemma acquire_free:
  assumes "pool_ok p" "card (dom (objects p)) < pool_capacity p"
  shows "\<exists>i p'. acquire v p = Inr (Some i, p') \<and> pool_ok p' \<and> pool_capacity p' = pool_capacity p
    \<and> i \<notin> dom (objects p) \<and> objects p' = (objects p)(i \<mapsto> v)"
proof -
  obtain fl where fl: "chain (storage p) (free_head p) fl" "distinct fl"
      "set fl = {..<pool_capacity p} - dom (objects p)"
    using assms(1) by (auto simp: pool_ok_def)
  have "fl \<noteq> []"
  proof
    assume "fl = []"
    with fl(3) have "{..<pool_capacity p} \<subseteq> dom (objects p)" by auto
    from card_mono [OF finite_objects this] have "pool_capacity p \<le> card (dom (objects p))" by simp
    with assms(2) show False by simp
  qed
  then obtain i fl' n where i: "fl = i # fl'" "free_head p = Some i" "i < length (storage p)"
      "storage p ! i = NextFree n" "chain (storage p) n fl'"
    using fl(1) by (cases fl) auto
  let ?p = "p\<lparr>storage := (storage p)[i := Value v], free_head := n, live_count := live_count p + 1\<rparr>"
  have o: "objects ?p = (objects p)(i \<mapsto> v)" using i(3) by (simp add: objects_update)
  have new: "i \<notin> dom (objects p)" using fl(3) i(1) by auto
  have "pool_ok ?p"
    unfolding pool_ok_def o using assms(1) i fl new
    by (auto simp: pool_ok_def chain_update intro!: exI [of _ fl'])
  then show ?thesis using i o new by (auto simp: acquire_def)
qed

lemma acquire_full:
  assumes "pool_ok p" "card (dom (objects p)) = pool_capacity p"
  shows "acquire v p = Inr (None, p\<lparr>exhausted_count := exhausted_count p + 1\<rparr>)"
proof -
  obtain fl where fl: "chain (storage p) (free_head p) fl"
      "set fl = {..<pool_capacity p} - dom (objects p)"
    using assms(1) by (auto simp: pool_ok_def)
  have "dom (objects p) = {..<pool_capacity p}"
    using assms objects_bound [of p] by (intro card_subset_eq) (simp_all add: pool_ok_def)
  with fl have "free_head p = None" by simp
  then show ?thesis by (simp add: acquire_def)
qed

lemma pool_ok_exhausted [simp]: "pool_ok (p\<lparr>exhausted_count := n\<rparr>) = pool_ok p"
  by (simp add: pool_ok_def)

lemma release_live:
  assumes "pool_ok p" "i \<in> dom (objects p)"
  shows "\<exists>p'. release (Some i) p = Inr p' \<and> pool_ok p' \<and> pool_capacity p' = pool_capacity p
    \<and> objects p' = (objects p)(i := None) \<and> free_head p' = Some i"
proof -
  obtain fl where fl: "chain (storage p) (free_head p) fl" "distinct fl"
      "set fl = {..<pool_capacity p} - dom (objects p)"
    using assms(1) by (auto simp: pool_ok_def)
  obtain v where i: "i < length (storage p)" "storage p ! i = Value v"
    using assms(2) by (auto simp: objects_live_iff)
  let ?p = "p\<lparr>storage := (storage p)[i := NextFree (free_head p)], free_head := Some i,
      live_count := live_count p - 1\<rparr>"
  have o: "objects ?p = (objects p)(i := None)" using i by (simp add: objects_update)
  have "i \<notin> set fl" "i < pool_capacity p" using fl(3) assms i by (auto simp: pool_ok_def)
  then have "pool_ok ?p"
    unfolding pool_ok_def o using assms i fl
    by (auto simp: pool_ok_def chain_update intro!: exI [of _ "i # fl"])
  then show ?thesis using i o by (auto simp: release_def)
qed

lemma release_dead: "i \<notin> dom (objects p) \<Longrightarrow> \<exists>e. release (Some i) p = Inl e"
  by (auto simp: release_def objects_live_iff split: slot_union.splits)

interpretation pool: allocator pool_ok objects pool_capacity acquire release
proof
  show "dom (objects p) \<subseteq> {..<pool_capacity p}" if "pool_ok p" for p :: "'a pool"
    using objects_bound [of p] that by (simp add: pool_ok_def)
  show "\<exists>p'. acquire v p = Inr (None, p') \<and> pool_ok p' \<and> pool_capacity p' = pool_capacity p
      \<and> objects p' = objects p" if "pool_ok p" "card (dom (objects p)) = pool_capacity p" for p :: "'a pool" and v
    using acquire_full [OF that] that(1) by simp
  show "release None p = Inr p" for p :: "'a pool" by (simp add: release_def)
  show "\<exists>p'. release (Some i) p = Inr p' \<and> pool_ok p' \<and> pool_capacity p' = pool_capacity p
      \<and> objects p' = (objects p)(i := None)" if "pool_ok p" "i \<in> dom (objects p)" for p :: "'a pool" and i
    using release_live [OF that] by blast
  show "\<exists>e. release (Some i) p = Inl e" if "pool_ok p" "i \<notin> dom (objects p)" for p :: "'a pool" and i
    using that(2) by (rule release_dead)
qed (fact acquire_free)

section \<open>A new pool\<close>

lemma fold_links:
  "k \<le> length st \<Longrightarrow> fold (\<lambda>i st. st[i := NextFree (Some (Suc i))]) [0..<k] st =
     map (\<lambda>i. NextFree (Some (Suc i))) [0..<k] @ drop k st"
proof (induction k)
  case (Suc k)
  then show ?case by (auto intro!: nth_equalityI simp: nth_append nth_list_update nth_Cons')
qed simp

lemma storage_new:
  "storage (new_pool cap :: 'a pool) =
     map (\<lambda>i. NextFree (if i + 1 < cap then Some (i + 1) else None)) [0..<cap]"
proof (cases cap)
  case (Suc k)
  then have "storage (new_pool cap :: 'a pool) = map (\<lambda>i. NextFree (Some (i + 1))) [0..<k] @ [NextFree None]"
    by (simp add: new_pool_def fold_links list_update_append replicate_Suc [of 0] del: replicate_Suc)
  then show ?thesis by (simp add: Suc cong: map_cong)
qed (simp add: new_pool_def)

lemma chain_from:
  "k \<le> cap \<Longrightarrow> chain (storage (new_pool cap)) (if k < cap then Some k else None) [k..<cap]"
proof (induction "cap - k" arbitrary: k)
  case (Suc m)
  then have k: "k < cap" "m = cap - Suc k" "Suc k \<le> cap" by auto
  have "storage (new_pool cap) ! k = NextFree (if Suc k < cap then Some (Suc k) else None)"
    using k by (simp add: storage_new)
  moreover have "[k..<cap] = k # [Suc k..<cap]" using k(1) by (rule upt_conv_Cons)
  ultimately show ?case using Suc.hyps(1) [OF k(2,3)] k(1) by (simp add: storage_new del: upt_Suc)
qed simp

lemma pool_ok_new [simp]: "pool_ok (new_pool cap)" "objects (new_pool cap) = Map.empty"
  "pool_capacity (new_pool cap) = cap"
proof -
  show o: "objects (new_pool cap) = Map.empty" by (auto simp: objects_def storage_new)
  have h: "free_head (new_pool cap) = (if 0 < cap then Some 0 else None)"
    "live_count (new_pool cap) = 0" "pool_capacity (new_pool cap) = cap"
    by (simp_all add: new_pool_def Let_def)
  show "pool_capacity (new_pool cap) = cap" by (fact h)
  show "pool_ok (new_pool cap)"
    unfolding pool_ok_def o h using chain_from [of 0 cap]
    by (auto intro!: exI [of _ "[0..<cap]"] simp: storage_new)
qed

section \<open>Property\<close>

text \<open>C36: However a caller uses a pool of \<open>n\<close> slots, as long as it releases only what is alive:
  \<open>live_count\<close> is the number of live objects, at most \<open>n\<close>; \<open>acquire\<close> fails exactly when \<open>n\<close> objects
  are alive, and otherwise builds the object in a slot that holds none and leaves every other
  object as it is; \<open>release\<close> ends exactly the one object, whose slot is the next to be used.
  Neither ever reads a wrong union member.\<close>

theorem pool_allocates_soundly:
  assumes "pool.using_pool (new_pool n) p"
  shows "live_count p = card (dom (objects p)) \<and> live_count p \<le> n
    \<and> (live_count p = n \<longrightarrow> acquire v p = Inr (None, p\<lparr>exhausted_count := exhausted_count p + 1\<rparr>))
    \<and> (live_count p < n \<longrightarrow> (\<exists>i p'. acquire v p = Inr (Some i, p') \<and> i < n \<and> objects p i = None
         \<and> objects p' = (objects p)(i \<mapsto> v)))
    \<and> (\<forall>i. objects p i \<noteq> None \<longrightarrow> (\<exists>p'. release (Some i) p = Inr p' \<and> objects p' = (objects p)(i := None)
         \<and> (\<exists>p''. acquire v p' = Inr (Some i, p''))))"
proof -
  have ok: "pool_ok p" and cap: "pool_capacity p = n"
    using pool.using_pool_ok [OF assms] by simp_all
  have live: "live_count p = card (dom (objects p))" using ok by (simp add: pool_ok_def)
  have rel: "\<exists>p'. release (Some i) p = Inr p' \<and> objects p' = (objects p)(i := None)
      \<and> (\<exists>p''. acquire v p' = Inr (Some i, p''))" if alive: "objects p i \<noteq> None" for i
  proof -
    obtain p' where p': "release (Some i) p = Inr p'" "pool_ok p'" "objects p' = (objects p)(i := None)"
        "free_head p' = Some i"
      using release_live [OF ok, of i] alive by blast
    have "\<exists>p''. acquire v p' = Inr (Some i, p'')"
      by (rule pool.acq_cases [OF p'(2), of v]; insert p'(4))
        (auto simp: acquire_def split: slot_union.splits if_splits)
    with p' show ?thesis by blast
  qed
  have acq: "\<exists>i p'. acquire v p = Inr (Some i, p') \<and> i < n \<and> objects p i = None
      \<and> objects p' = (objects p)(i \<mapsto> v)" if "live_count p < n"
  proof -
    obtain i p' where i: "acquire v p = Inr (Some i, p')" "pool_ok p'" "pool_capacity p' = n"
        "i \<notin> dom (objects p)" "objects p' = (objects p)(i \<mapsto> v)"
      using acquire_free [OF ok, of v] \<open>live_count p < n\<close> live cap by auto
    then have "i < n" using pool.bounded [OF i(2)] by auto
    with i show ?thesis by (auto simp: domIff)
  qed
  show ?thesis
    using live acq rel acquire_full [OF ok] pool.card_le_cap [OF ok] cap by auto
qed

theorem pool_allocates_soundly_witness:
  "\<exists>p. pool.using_pool (new_pool 2) p \<and> live_count p = 2 \<and> objects p 0 = Some (7 :: int)
     \<and> (\<exists>p'. acquire 9 p = Inr (None, p'))
     \<and> (\<exists>p' p''. release (Some 0) p = Inr p' \<and> acquire 9 p' = Inr (Some 0, p''))"
proof -
  define p1 :: "int pool" where "p1 = snd (projr (acquire 7 (new_pool 2)))"
  define p2 where "p2 = snd (projr (acquire 8 p1))"
  have e1: "acquire 7 (new_pool 2) = Inr (Some 0, p1)" and e2: "acquire 8 p1 = Inr (Some 1, p2)"
    by (simp_all add: p2_def p1_def acquire_def new_pool_def Let_def)
  have u: "pool.using_pool (new_pool 2) p2"
    using pool.acquired [OF pool.acquired [OF pool.fresh e1] e2] .
  have "live_count p2 = 2" "objects p2 0 = Some 7"
    by (simp_all add: p2_def p1_def acquire_def new_pool_def Let_def objects_def)
  moreover from pool_allocates_soundly [OF u, of 9] this
  have "acquire 9 p2 = Inr (None, p2\<lparr>exhausted_count := exhausted_count p2 + 1\<rparr>)"
    "\<exists>p'. release (Some 0) p2 = Inr p' \<and> (\<exists>p''. acquire 9 p' = Inr (Some 0, p''))"
    by blast+
  ultimately show ?thesis using u by blast
qed

end
