(* ===== verification/Synthetic_Book.thy ===== *)
theory Synthetic_Book
  imports Trade_Tape
begin

text \<open>
  The seeded generator of synthetic level-2 streams, \<open>src/tools/synthetic_book.hpp\<close>, and the loop
  of \<open>src/tools/synthetic_data_gen.cpp\<close> that calls it.  A \<open>std::set\<close> of ticks is a strictly
  increasing list.  The distributions of \<open><random>\<close> and \<open>std::pow\<close> are parameters; \<open>fair\<close> states
  the ranges the standard gives them.
\<close>

section \<open>Random draws\<close>

record 'g dice =
  unit_draw :: "'g \<Rightarrow> double \<times> 'g"
  delay_draw :: "int \<Rightarrow> int \<Rightarrow> 'g \<Rightarrow> int \<times> 'g"
  qty_draw :: "int \<Rightarrow> int \<Rightarrow> 'g \<Rightarrow> int \<times> 'g"
  index_draw :: "nat \<Rightarrow> nat \<Rightarrow> 'g \<Rightarrow> nat \<times> 'g"
  pow_fn :: "double \<Rightarrow> double \<Rightarrow> double"

definition fair :: "'g dice \<Rightarrow> bool" where
  "fair d \<longleftrightarrow>
     (\<forall>g. \<exists>u. fst (unit_draw d g) = Fin u \<and> 0 \<le> u \<and> u < 1)
   \<and> (\<forall>lo hi g. lo \<le> hi \<longrightarrow> fst (delay_draw d lo hi g) \<in> {lo..hi} \<and> fst (qty_draw d lo hi g) \<in> {lo..hi})
   \<and> (\<forall>lo hi g. lo \<le> hi \<longrightarrow> fst (index_draw d lo hi g) \<in> {lo..hi})
   \<and> (\<forall>u. 0 \<le> u \<and> u < 1 \<longrightarrow> (\<exists>v. pow_fn d (Fin u) (Fin 2) = Fin v \<and> 0 \<le> v \<and> v \<le> 1))"

section \<open>The generator\<close>

definition kLevelsPerSide :: int where
  "kLevelsPerSide = 10"

definition kMoveProbability :: double where
  "kMoveProbability = rnd (1 / 10)"

record 'g gen =
  g_rng :: 'g
  ref_px :: int
  tick :: int
  g_symbol :: symbol
  g_seq :: u64
  g_time :: int
  g_bids :: "int list"
  g_asks :: "int list"
  pending :: "(side \<times> int) list"

definition new_gen :: "(u64 \<Rightarrow> 'g) \<Rightarrow> u64 \<Rightarrow> double \<Rightarrow> double \<Rightarrow> symbol \<Rightarrow> 'g gen" where
  "new_gen seeded seed start_price tick_size sy =
     \<lparr>g_rng = seeded seed, ref_px = ticks (from_double start_price), tick = ticks (from_double tick_size),
      g_symbol = sy, g_seq = 0, g_time = 1700000000 * 1000000000, g_bids = [], g_asks = [], pending = []\<rparr>"

definition draw_unit :: "'g dice \<Rightarrow> 'g gen \<Rightarrow> double \<times> 'g gen" where
  "draw_unit d s = (let (u, g) = unit_draw d (g_rng s) in (u, s\<lparr>g_rng := g\<rparr>))"

definition draw_qty :: "'g dice \<Rightarrow> 'g gen \<Rightarrow> int \<times> 'g gen" where
  "draw_qty d s = (let (q, g) = qty_draw d 1 500 (g_rng s) in (q, s\<lparr>g_rng := g\<rparr>))"

definition queue_invalid_levels :: "'g gen \<Rightarrow> 'g gen" where
  "queue_invalid_levels s =
     (let window = kLevelsPerSide * tick s;
          bad_bid = (\<lambda>p. p \<ge> ref_px s \<or> p < ref_px s - window);
          bad_ask = (\<lambda>p. p \<le> ref_px s \<or> p > ref_px s + window);
          s1 = s\<lparr>pending := pending s @ map (Pair Buy) (filter bad_bid (g_bids s)),
                 g_bids := filter (\<lambda>p. \<not> bad_bid p) (g_bids s)\<rparr>
      in s1\<lparr>pending := pending s1 @ map (Pair Sell) (filter bad_ask (g_asks s1)),
            g_asks := filter (\<lambda>p. \<not> bad_ask p) (g_asks s1)\<rparr>)"

definition gen_quote :: "'g dice \<Rightarrow> 'g gen \<Rightarrow> market_event \<times> 'g gen" where
  "gen_quote d s0 =
     (let (u, s1) = draw_unit d s0;
          sd = (if dlt u (Fin (1 / 2)) then Buy else Sell);
          (v, s2) = draw_unit d s1;
          level = min (d_to_int64 (dmul (pow_fn d v (Fin 2)) (d_of_int kLevelsPerSide))) (kLevelsPerSide - 1);
          px = (if sd = Buy then ref_px s2 - tick s2 * (level + 1) else ref_px s2 + tick s2 * (level + 1));
          s3 = (if sd = Buy then s2\<lparr>g_bids := insort_insert px (g_bids s2)\<rparr>
                else s2\<lparr>g_asks := insort_insert px (g_asks s2)\<rparr>);
          (q, s4) = draw_qty d s3
      in (make_quote (g_time s4) (g_seq s4) (g_symbol s4) sd (from_ticks px) q, s4))"

text \<open>\<open>while (sweep < book_side.size() && unit() < 0.5) ++sweep;\<close>\<close>

function sweep_depth :: "'g dice \<Rightarrow> nat \<Rightarrow> nat \<Rightarrow> 'g gen \<Rightarrow> nat \<times> 'g gen" where
  "sweep_depth d n k s =
     (if k < n
      then let (u, s1) = draw_unit d s
           in if dlt u (Fin (1 / 2)) then sweep_depth d n (k + 1) s1 else (k, s1)
      else (k, s))"
  by pat_completeness auto
termination
  by (relation "measure (\<lambda>(d, n, k, s). n - k)") auto

declare sweep_depth.simps [simp del]

definition try_trade :: "'g dice \<Rightarrow> 'g gen \<Rightarrow> market_event option \<times> 'g gen" where
  "try_trade d s0 =
     (let (u, s1) = draw_unit d s0;
          buy_aggressor = dlt u (Fin (1 / 2));
          book_side = (if buy_aggressor then g_asks s1 else g_bids s1)
      in if book_side = [] then (None, s1)
         else
           let (k, s2) = sweep_depth d (length book_side) 1 s1;
               swept = (if buy_aggressor then take k book_side else take k (rev book_side));
               gone = butlast swept;
               left = fold removeAll gone book_side;
               s3 = (if buy_aggressor
                     then s2\<lparr>g_asks := left, pending := pending s2 @ map (Pair Sell) gone\<rparr>
                     else s2\<lparr>g_bids := left, pending := pending s2 @ map (Pair Buy) gone\<rparr>);
               (q, s4) = draw_qty d s3
           in (Some (make_trade (g_time s4) (g_seq s4) (g_symbol s4) (if buy_aggressor then Buy else Sell)
                 (from_ticks (last swept)) q), s4))"

definition try_cancel :: "'g dice \<Rightarrow> 'g gen \<Rightarrow> market_event option \<times> 'g gen" where
  "try_cancel d s0 =
     (let (u, s1) = draw_unit d s0;
          sd = (if dlt u (Fin (1 / 2)) then Buy else Sell);
          levels = (if sd = Buy then g_bids s1 else g_asks s1)
      in if levels = [] then (None, s1)
         else
           let (i, g) = index_draw d 0 (length levels - 1) (g_rng s1);
               px = levels ! i;
               s2 = s1\<lparr>g_rng := g\<rparr>;
               s3 = (if sd = Buy then s2\<lparr>g_bids := removeAll px levels\<rparr> else s2\<lparr>g_asks := removeAll px levels\<rparr>)
           in (Some (make_delete (g_time s3) (g_seq s3) (g_symbol s3) sd (from_ticks px)), s3))"

text \<open>The start of \<open>next\<close>: time, sequence number and the move of the reference price.\<close>

definition gen_tick :: "'g dice \<Rightarrow> 'g gen \<Rightarrow> 'g gen" where
  "gen_tick d s =
     (let (us, g) = delay_draw d 50 2000 (g_rng s)
      in s\<lparr>g_rng := g, g_time := g_time s + us * 1000, g_seq := g_seq s + 1\<rparr>)"

definition gen_move :: "'g dice \<Rightarrow> 'g gen \<Rightarrow> 'g gen" where
  "gen_move d s =
     (if pending s = []
      then let (u, s1) = draw_unit d s
           in if dlt u kMoveProbability
              then let (v, s2) = draw_unit d s1
                   in queue_invalid_levels
                        (s2\<lparr>ref_px := ref_px s2 + (if dlt v (Fin (1 / 2)) then - 1 else 1) * tick s2\<rparr>)
              else s1
      else s)"

definition gen_activity :: "'g dice \<Rightarrow> 'g gen \<Rightarrow> market_event \<times> 'g gen" where
  "gen_activity d s0 =
     (let (roll, s) = draw_unit d s0;
          or_quote = (\<lambda>(r, s'). case r of Some ev \<Rightarrow> (ev, s') | None \<Rightarrow> gen_quote d s')
      in if dlt roll (rnd (5 / 100)) then (make_heartbeat (g_time s) (g_seq s) (g_symbol s), s)
         else if dlt roll (rnd (30 / 100)) then or_quote (try_trade d s)
         else if dlt roll (rnd (38 / 100)) then or_quote (try_cancel d s)
         else gen_quote d s)"

definition gen_next :: "'g dice \<Rightarrow> 'g gen \<Rightarrow> market_event \<times> 'g gen" where
  "gen_next d s0 =
     (let s = gen_move d (gen_tick d s0)
      in case pending s of
           (sd, px) # rest \<Rightarrow>
             (make_delete (g_time s) (g_seq s) (g_symbol s) sd (from_ticks px), s\<lparr>pending := rest\<rparr>)
         | [] \<Rightarrow> gen_activity d s)"

text \<open>The loop of the data generator.\<close>

fun gen_events :: "'g dice \<Rightarrow> nat \<Rightarrow> 'g gen \<Rightarrow> market_event list \<times> 'g gen" where
  "gen_events d 0 s = ([], s)"
| "gen_events d (Suc n) s =
     (let (ev, s1) = gen_next d s; (evs, s2) = gen_events d n s1 in (ev # evs, s2))"

section \<open>What the generator knows of the book\<close>

definition pend :: "side \<Rightarrow> 'g gen \<Rightarrow> int set" where
  "pend sd s = {p. (sd, p) \<in> set (pending s)}"

text \<open>The book that the stream has built so far holds the tracked levels and those whose deletion
  is still to be emitted, and nothing else; its sides are apart.\<close>

definition mirrors :: "'g gen \<Rightarrow> order_book \<Rightarrow> bool" where
  "mirrors s b \<longleftrightarrow> separated b
     \<and> sorted_wrt (<) (g_bids s) \<and> sorted_wrt (<) (g_asks s)
     \<and> fst ` set (pending s) \<subseteq> {Buy, Sell} \<and> distinct (pending s)
     \<and> set (g_bids s) \<inter> pend Buy s = {} \<and> set (g_asks s) \<inter> pend Sell s = {}
     \<and> bid_prices b = Price ` (set (g_bids s) \<union> pend Buy s)
     \<and> ask_prices b = Price ` (set (g_asks s) \<union> pend Sell s)"

text \<open>The tracked levels lie in the window around the reference price.\<close>

definition in_window :: "'g gen \<Rightarrow> bool" where
  "in_window s \<longleftrightarrow> 0 < tick s
     \<and> (\<forall>p \<in> set (g_bids s). ref_px s - kLevelsPerSide * tick s \<le> p \<and> p < ref_px s)
     \<and> (\<forall>p \<in> set (g_asks s). ref_px s < p \<and> p \<le> ref_px s + kLevelsPerSide * tick s)"

text \<open>An event that makes sense for the book it meets.\<close>

definition genuine :: "market_event \<Rightarrow> order_book \<Rightarrow> bool" where
  "genuine ev b \<longleftrightarrow>
     (case ev_type ev of
        Trade \<Rightarrow> 0 < ev_quantity ev \<and> ev_price ev \<in> (if ev_side ev = Buy then ask_prices b else bid_prices b)
      | BookDelete \<Rightarrow> ev_price ev \<in> (if ev_side ev = Buy then bid_prices b else ask_prices b)
      | Quote \<Rightarrow> 0 < ev_quantity ev
      | Heartbeat \<Rightarrow> True
      | _ \<Rightarrow> False)"

lemma genuine_make [simp]:
  "genuine (make_delete t n sy sd px) b \<longleftrightarrow> px \<in> (if sd = Buy then bid_prices b else ask_prices b)"
  "genuine (make_trade t n sy sd px q) b \<longleftrightarrow> 0 < q \<and> px \<in> (if sd = Buy then ask_prices b else bid_prices b)"
  "genuine (make_quote t n sy sd px q) b \<longleftrightarrow> 0 < q" "genuine (make_heartbeat t n sy) b"
  by (simp_all add: genuine_def make_event_defs)

lemma pend_simps [simp]:
  "pend sd (s\<lparr>g_rng := g\<rparr>) = pend sd s" "pend sd (s\<lparr>g_time := t\<rparr>) = pend sd s"
  "pend sd (s\<lparr>g_seq := n\<rparr>) = pend sd s" "pend sd (s\<lparr>ref_px := r\<rparr>) = pend sd s"
  "pend sd (s\<lparr>g_bids := ps\<rparr>) = pend sd s" "pend sd (s\<lparr>g_asks := ps\<rparr>) = pend sd s"
  "pend sd (s\<lparr>pending := []\<rparr>) = {}" "pending s = [] \<Longrightarrow> pend sd s = {}"
  by (simp_all add: pend_def)

lemma mirrors_simps [simp]:
  "mirrors (s\<lparr>g_rng := g\<rparr>) b = mirrors s b" "mirrors (s\<lparr>g_time := t\<rparr>) b = mirrors s b"
  "mirrors (s\<lparr>g_seq := n\<rparr>) b = mirrors s b" "mirrors (s\<lparr>ref_px := r\<rparr>) b = mirrors s b"
  by (simp_all add: mirrors_def)

lemma in_window_simps [simp]:
  "in_window (s\<lparr>g_rng := g\<rparr>) = in_window s" "in_window (s\<lparr>g_time := t\<rparr>) = in_window s"
  "in_window (s\<lparr>g_seq := n\<rparr>) = in_window s" "in_window (s\<lparr>pending := ps\<rparr>) = in_window s"
  by (simp_all add: in_window_def)

lemma mirrors_ok: "mirrors s b \<Longrightarrow> book_ok b"
  by (simp add: mirrors_def separated_def)

section \<open>The parts of a step\<close>

lemma draw_unitE:
  obtains u g where "draw_unit d s = (u, s\<lparr>g_rng := g\<rparr>)" "u = fst (unit_draw d (g_rng s))"
  by (cases "unit_draw d (g_rng s)") (simp add: draw_unit_def)

lemma draw_qtyE:
  assumes "fair d"
  obtains q g where "draw_qty d s = (q, s\<lparr>g_rng := g\<rparr>)" "0 < q"
proof (cases "qty_draw d 1 500 (g_rng s)")
  case (Pair q g)
  have "fst (qty_draw d 1 500 (g_rng s)) \<in> {1..500}" using assms by (simp add: fair_def)
  then have "0 < q" using Pair by auto
  with Pair that [of q g] show thesis by (simp add: draw_qty_def)
qed

lemma mirrors_queue:
  assumes "mirrors s b" "pending s = []" "0 < tick s"
  shows "mirrors (queue_invalid_levels s) b" "in_window (queue_invalid_levels s)"
proof -
  have d: "distinct (g_bids s)" "distinct (g_asks s)"
    using assms(1) by (auto simp: mirrors_def intro: sorted_wrt_distinct)
  show "mirrors (queue_invalid_levels s) b"
    using assms(1,2) d
    by (auto simp: mirrors_def queue_invalid_levels_def Let_def pend_def distinct_map inj_on_def
        intro!: sorted_wrt_filter)
  show "in_window (queue_invalid_levels s)"
    using assms(3) by (auto simp: in_window_def queue_invalid_levels_def Let_def)
qed

lemma mirrors_move:
  assumes "mirrors s b" "in_window s"
  shows "mirrors (gen_move d s) b \<and> in_window (gen_move d s)"
proof (cases "pending s = []")
  case True
  obtain u g where u: "draw_unit d s = (u, s\<lparr>g_rng := g\<rparr>)" by (rule draw_unitE)
  obtain v g' where v: "draw_unit d (s\<lparr>g_rng := g\<rparr>) = (v, s\<lparr>g_rng := g'\<rparr>)"
    using draw_unitE [of d "s\<lparr>g_rng := g\<rparr>"] by (metis gen.surjective gen.update_convs(1))
  show ?thesis
    using assms True by (auto simp: gen_move_def u v Let_def in_window_def [of s] intro!: mirrors_queue)
qed (use assms in \<open>simp add: gen_move_def\<close>)

lemma mirrors_tick [simp]: "mirrors (gen_tick d s) b = mirrors s b" "in_window (gen_tick d s) = in_window s"
  by (simp_all add: gen_tick_def split: prod.split)

lemma separated_delete: "separated b \<Longrightarrow> sd \<in> {Buy, Sell} \<Longrightarrow> separated (apply_event (make_delete t n sy sd px) b)"
  by (rule separated_apply) (auto simp: separated_def)

lemma mirrors_pop:
  assumes "mirrors s b" "pending s = (sd, px) # rest"
  shows "mirrors (s\<lparr>pending := rest\<rparr>) (apply_event (make_delete t n sy sd (Price px)) b)
    \<and> genuine (make_delete t n sy sd (Price px)) b"
proof -
  have sd: "sd \<in> {Buy, Sell}" using assms by (auto simp: mirrors_def)
  have "separated (apply_event (make_delete t n sy sd (Price px)) b)"
    using assms(1) sd by (intro separated_delete) (auto simp: mirrors_def)
  moreover have "px \<in> pend sd s" using assms(2) by (simp add: pend_def)
  ultimately show ?thesis
    using assms sd mirrors_ok [OF assms(1)] by (auto simp: mirrors_def pend_def)
qed

text \<open>What one call of \<open>next\<close> and its parts achieve.\<close>

definition good_step :: "'g gen \<Rightarrow> order_book \<Rightarrow> market_event \<times> 'g gen \<Rightarrow> bool" where
  "good_step s b r \<longleftrightarrow> (case r of (ev, s') \<Rightarrow>
     mirrors s' (apply_event ev b) \<and> in_window s' \<and> genuine ev b
     \<and> ev_sequence ev = g_seq s \<and> g_seq s' = g_seq s \<and> ev_timestamp ev = g_time s \<and> g_time s' = g_time s)"

lemma make_fields [simp]:
  "ev_sequence (make_quote t n sy sd px q) = n" "ev_timestamp (make_quote t n sy sd px q) = t"
  "ev_sequence (make_trade t n sy sd px q) = n" "ev_timestamp (make_trade t n sy sd px q) = t"
  "ev_sequence (make_delete t n sy sd px) = n" "ev_timestamp (make_delete t n sy sd px) = t"
  "ev_sequence (make_heartbeat t n sy) = n" "ev_timestamp (make_heartbeat t n sy) = t"
  by (simp_all add: make_event_defs)

lemma level_range:
  assumes "fair d"
  shows "0 \<le> d_to_int64 (dmul (pow_fn d (fst (unit_draw d g)) (Fin 2)) (d_of_int kLevelsPerSide))"
proof -
  obtain u where u: "fst (unit_draw d g) = Fin u" "0 \<le> u" "u < 1" using assms unfolding fair_def by blast
  then obtain v where v: "pow_fn d (Fin u) (Fin 2) = Fin v" "0 \<le> v" "v \<le> 1"
    using assms unfolding fair_def by blast
  have ten: "d_of_int kLevelsPerSide = Fin 10" by (simp add: kLevelsPerSide_def fp_eval)
  have r: "rnd (v * 10) = Fin (rnd_rat (v * 10))"
    using v by (intro rnd_Fin_le [of _ 4]) (simp_all add: two_pow_def)
  have "0 \<le> rnd_rat (v * 10)" "rnd_rat (v * 10) \<le> rnd_rat (of_int 10)"
    using v(2,3) rnd_rat_mono [of 0 "v * 10"] by (simp_all add: rnd_rat_mono)
  moreover have "rnd_rat (of_int 10) = of_int 10" by (intro rnd_rat_is_fp is_fp_of_int) simp
  ultimately have "0 \<le> trunc_rat (rnd_rat (v * 10))" "trunc_rat (rnd_rat (v * 10)) \<le> 10"
    using trunc_rat_nonneg trunc_rat_mono [of "rnd_rat (v * 10)" "of_int 10"]
    by (simp_all add: fp_eval)
  then show ?thesis by (simp add: u(1) v(1) ten r int64_ok_def)
qed

lemma sorted_insert: "sorted_wrt (<) xs \<Longrightarrow> sorted_wrt (<) (insort_insert (x :: int) xs)"
  by (simp add: strict_sorted_iff sorted_insort_insert distinct_insort_insert)

lemma mirrors_add_bid:
  assumes "mirrors s b" "in_window s" "pending s = []" "q \<noteq> 0" "0 \<le> k" "k \<le> 9"
  defines "px \<equiv> ref_px s - tick s * (k + 1)"
  shows "mirrors (s\<lparr>g_bids := insort_insert px (g_bids s)\<rparr>) (apply_event (make_quote t n sy Buy (Price px) q) b)"
    and "in_window (s\<lparr>g_bids := insort_insert px (g_bids s)\<rparr>)"
proof -
  have px: "px < ref_px s" "ref_px s - kLevelsPerSide * tick s \<le> px"
    using assms(2,5,6) mult_left_mono [of "k + 1" 10 "tick s"] mult_pos_pos [of "tick s" "k + 1"]
    by (simp_all add: px_def kLevelsPerSide_def in_window_def algebra_simps)
  show "in_window (s\<lparr>g_bids := insort_insert px (g_bids s)\<rparr>)"
    using assms(2) px by (auto simp: in_window_def set_insort_insert)
  have "\<forall>p \<in> set (g_asks s). px < p" using px assms(2) by (auto simp: in_window_def)
  then show "mirrors (s\<lparr>g_bids := insort_insert px (g_bids s)\<rparr>) (apply_event (make_quote t n sy Buy (Price px) q) b)"
    using assms(1,3,4) mirrors_ok [OF assms(1)]
    by (auto simp: mirrors_def separated_def book_ok_apply_event sorted_insert set_insort_insert less_price_def)
qed

lemma mirrors_add_ask:
  assumes "mirrors s b" "in_window s" "pending s = []" "q \<noteq> 0" "0 \<le> k" "k \<le> 9"
  defines "px \<equiv> ref_px s + tick s * (k + 1)"
  shows "mirrors (s\<lparr>g_asks := insort_insert px (g_asks s)\<rparr>) (apply_event (make_quote t n sy Sell (Price px) q) b)"
    and "in_window (s\<lparr>g_asks := insort_insert px (g_asks s)\<rparr>)"
proof -
  have px: "ref_px s < px" "px \<le> ref_px s + kLevelsPerSide * tick s"
    using assms(2,5,6) mult_left_mono [of "k + 1" 10 "tick s"] mult_pos_pos [of "tick s" "k + 1"]
    by (simp_all add: px_def kLevelsPerSide_def in_window_def algebra_simps)
  show "in_window (s\<lparr>g_asks := insort_insert px (g_asks s)\<rparr>)"
    using assms(2) px by (auto simp: in_window_def set_insort_insert)
  have "\<forall>p \<in> set (g_bids s). p < px" using px assms(2) by (auto simp: in_window_def)
  then show "mirrors (s\<lparr>g_asks := insort_insert px (g_asks s)\<rparr>) (apply_event (make_quote t n sy Sell (Price px) q) b)"
    using assms(1,3,4) mirrors_ok [OF assms(1)]
    by (auto simp: mirrors_def separated_def book_ok_apply_event sorted_insert set_insort_insert less_price_def)
qed

lemma gen_quote_good:
  assumes "fair d" "mirrors s b" "in_window s" "pending s = []"
  shows "good_step s b (gen_quote d s)"
proof -
  obtain u g where u: "draw_unit d s = (u, s\<lparr>g_rng := g\<rparr>)" by (rule draw_unitE)
  obtain v g1 where v: "draw_unit d (s\<lparr>g_rng := g\<rparr>) = (v, s\<lparr>g_rng := g\<rparr>\<lparr>g_rng := g1\<rparr>)"
      "v = fst (unit_draw d (g_rng (s\<lparr>g_rng := g\<rparr>)))" by (rule draw_unitE)
  define k where "k = min (d_to_int64 (dmul (pow_fn d v (Fin 2)) (d_of_int kLevelsPerSide))) (kLevelsPerSide - 1)"
  have k: "0 \<le> k" "k \<le> 9" using level_range [OF assms(1)] by (simp_all add: k_def v(2) kLevelsPerSide_def)
  let ?s = "s\<lparr>g_rng := g1\<rparr>"
  show ?thesis
  proof (cases "dlt u (Fin (1 / 2))")
    case True
    define s3 where "s3 = ?s\<lparr>g_bids := insort_insert (ref_px ?s - tick ?s * (k + 1)) (g_bids ?s)\<rparr>"
    obtain q g2 where q: "draw_qty d s3 = (q, s3\<lparr>g_rng := g2\<rparr>)" "0 < q"
      by (rule draw_qtyE [OF assms(1)])
    have "gen_quote d s = (make_quote (g_time s) (g_seq s) (g_symbol s) Buy
        (Price (ref_px ?s - tick ?s * (k + 1))) q, s3\<lparr>g_rng := g2\<rparr>)"
      using True q(1) by (simp add: gen_quote_def u v(1) Let_def k_def [symmetric] s3_def from_ticks_def)
    then show ?thesis
      using mirrors_add_bid [OF assms(2-4) _ k, where q = q] q(2) by (simp add: good_step_def s3_def)
  next
    case False
    define s3 where "s3 = ?s\<lparr>g_asks := insort_insert (ref_px ?s + tick ?s * (k + 1)) (g_asks ?s)\<rparr>"
    obtain q g2 where q: "draw_qty d s3 = (q, s3\<lparr>g_rng := g2\<rparr>)" "0 < q"
      by (rule draw_qtyE [OF assms(1)])
    have "gen_quote d s = (make_quote (g_time s) (g_seq s) (g_symbol s) Sell
        (Price (ref_px ?s + tick ?s * (k + 1))) q, s3\<lparr>g_rng := g2\<rparr>)"
      using False q(1) by (simp add: gen_quote_def u v(1) Let_def k_def [symmetric] s3_def from_ticks_def)
    then show ?thesis
      using mirrors_add_ask [OF assms(2-4) _ k, where q = q] q(2) by (simp add: good_step_def s3_def)
  qed
qed

lemma sweep_depthE:
  assumes "k \<le> n"
  obtains k' g where "sweep_depth d n k s = (k', s\<lparr>g_rng := g\<rparr>)" "k \<le> k'" "k' \<le> n"
proof -
  have "\<exists>k' g. sweep_depth d n k s = (k', s\<lparr>g_rng := g\<rparr>) \<and> k \<le> k' \<and> k' \<le> n"
    using assms
  proof (induction d n k s rule: sweep_depth.induct)
    case (1 d n k s)
    obtain u g where u: "draw_unit d s = (u, s\<lparr>g_rng := g\<rparr>)" by (rule draw_unitE)
    show ?case
    proof (cases "k < n \<and> dlt u (Fin (1 / 2))")
      case True
      then have "sweep_depth d n k s = sweep_depth d n (k + 1) (s\<lparr>g_rng := g\<rparr>)"
        by (simp add: sweep_depth.simps [of d n k s] u)
      with 1(1) [OF _ u [symmetric]] True show ?thesis by auto
    next
      case False
      then have "sweep_depth d n k s = (k, if k < n then s\<lparr>g_rng := g\<rparr> else s\<lparr>g_rng := g_rng s\<rparr>)"
        by (simp add: sweep_depth.simps [of d n k s] u)
      with 1(2) show ?thesis
        by (cases "k < n") (auto intro: exI [of "\<lambda>g. s = s\<lparr>g_rng := g\<rparr>" "g_rng s"])
    qed
  qed
  with that show thesis by blast
qed

lemma fold_removeAll: "fold removeAll gone xs = filter (\<lambda>x. x \<notin> set gone) xs"
  by (induction gone arbitrary: xs) (auto simp: removeAll_filter_not_eq intro: filter_cong)

text \<open>Sweeping takes levels from the tracked ones to the pending deletions; the book is as before.\<close>

lemma mirrors_sweep:
  assumes "mirrors s b" "in_window s" "pending s = []" "distinct gone"
  shows "set gone \<subseteq> set (g_asks s) \<Longrightarrow>
      mirrors (s\<lparr>g_asks := fold removeAll gone (g_asks s), pending := map (Pair Sell) gone\<rparr>) b
      \<and> in_window (s\<lparr>g_asks := fold removeAll gone (g_asks s), pending := map (Pair Sell) gone\<rparr>)"
    and "set gone \<subseteq> set (g_bids s) \<Longrightarrow>
      mirrors (s\<lparr>g_bids := fold removeAll gone (g_bids s), pending := map (Pair Buy) gone\<rparr>) b
      \<and> in_window (s\<lparr>g_bids := fold removeAll gone (g_bids s), pending := map (Pair Buy) gone\<rparr>)"
  using assms
  by (auto simp: mirrors_def in_window_def fold_removeAll pend_def distinct_map inj_on_def intro!: sorted_wrt_filter)

lemma rng_first [simp]:
  "mirrors (s\<lparr>g_rng := g, g_asks := A, pending := P\<rparr>) b = mirrors (s\<lparr>g_asks := A, pending := P\<rparr>) b"
  "mirrors (s\<lparr>g_rng := g, g_bids := A, pending := P\<rparr>) b = mirrors (s\<lparr>g_bids := A, pending := P\<rparr>) b"
  "mirrors (s\<lparr>g_rng := g, g_asks := A\<rparr>) b = mirrors (s\<lparr>g_asks := A\<rparr>) b"
  "mirrors (s\<lparr>g_rng := g, g_bids := A\<rparr>) b = mirrors (s\<lparr>g_bids := A\<rparr>) b"
  "in_window (s\<lparr>g_rng := g, g_asks := A\<rparr>) = in_window (s\<lparr>g_asks := A\<rparr>)"
  "in_window (s\<lparr>g_rng := g, g_bids := A\<rparr>) = in_window (s\<lparr>g_bids := A\<rparr>)"
  by (simp_all add: mirrors_def in_window_def pend_def)

lemma apply_trade_mirrors: "mirrors s b \<Longrightarrow> mirrors s (apply_event (make_trade t n sy sd px q) b)"
  by (frule mirrors_ok) (auto simp: mirrors_def separated_def book_ok_apply_event)

lemma swept_facts:
  assumes "xs \<noteq> []" "1 \<le> k" "distinct xs"
  shows "last (take k xs) \<in> set xs" "distinct (butlast (take k xs))" "set (butlast (take k xs)) \<subseteq> set xs"
proof -
  have "take k xs \<noteq> []" using assms by auto
  then have "last (take k xs) \<in> set (take k xs)" by simp
  then show "last (take k xs) \<in> set xs" by (rule in_set_takeD)
  show "distinct (butlast (take k xs))" using assms(3) by (simp add: distinct_butlast)
  show "set (butlast (take k xs)) \<subseteq> set xs" by (meson in_set_butlastD in_set_takeD subsetI)
qed

lemma try_trade_good:
  assumes "fair d" "mirrors s b" "in_window s" "pending s = []" "try_trade d s = (r, s')"
  shows "case r of Some ev \<Rightarrow> good_step s b (ev, s') | None \<Rightarrow> (\<exists>g. s' = s\<lparr>g_rng := g\<rparr>)"
proof -
  obtain u g where u: "draw_unit d s = (u, s\<lparr>g_rng := g\<rparr>)" by (rule draw_unitE)
  have dist: "distinct (g_asks s)" "distinct (rev (g_bids s))"
    using assms(2) by (auto simp: mirrors_def intro: sorted_wrt_distinct)
  have b: "bid_prices b = Price ` set (g_bids s)" "ask_prices b = Price ` set (g_asks s)"
    using assms(2,4) by (simp_all add: mirrors_def)
  show ?thesis
  proof (cases "dlt u (Fin (1 / 2))")
    case buy: True
    show ?thesis
    proof (cases "g_asks s = []")
      case False
      then obtain k g1 where k: "sweep_depth d (length (g_asks s)) 1 (s\<lparr>g_rng := g\<rparr>) = (k, s\<lparr>g_rng := g\<rparr>\<lparr>g_rng := g1\<rparr>)"
          "1 \<le> k" using sweep_depthE [of 1 "length (g_asks s)" d "s\<lparr>g_rng := g\<rparr>"] by (metis One_nat_def Suc_leI length_greater_0_conv)
      note sw = swept_facts [OF False k(2) dist(1)]
      define gone where "gone = butlast (take k (g_asks s))"
      define s3 where "s3 = s\<lparr>g_rng := g1, g_asks := fold removeAll gone (g_asks s), pending := map (Pair Sell) gone\<rparr>"
      obtain q g2 where q: "draw_qty d s3 = (q, s3\<lparr>g_rng := g2\<rparr>)" "0 < q" by (rule draw_qtyE [OF assms(1)])
      have "(r, s') = (Some (make_trade (g_time s) (g_seq s) (g_symbol s) Buy (Price (last (take k (g_asks s)))) q),
          s3\<lparr>g_rng := g2\<rparr>)"
        using buy False q(1) k(1) assms(4,5)
        by (simp add: try_trade_def u Let_def gone_def [symmetric] s3_def from_ticks_def)
      moreover have "mirrors s3 b \<and> in_window s3"
        using mirrors_sweep(1) [OF assms(2-4) sw(2,3)] unfolding s3_def gone_def by simp
      ultimately show ?thesis
        using sw(1) q(2) b by (auto simp: good_step_def apply_trade_mirrors) (simp_all add: s3_def)
    qed (use assms(5) buy in \<open>auto simp: try_trade_def u Let_def\<close>)
  next
    case sell: False
    show ?thesis
    proof (cases "g_bids s = []")
      case False
      then obtain k g1 where k: "sweep_depth d (length (g_bids s)) 1 (s\<lparr>g_rng := g\<rparr>) = (k, s\<lparr>g_rng := g\<rparr>\<lparr>g_rng := g1\<rparr>)"
          "1 \<le> k" using sweep_depthE [of 1 "length (g_bids s)" d "s\<lparr>g_rng := g\<rparr>"] by (metis One_nat_def Suc_leI length_greater_0_conv)
      have "rev (g_bids s) \<noteq> []" using False by simp
      note sw = swept_facts [OF this k(2) dist(2), unfolded set_rev]
      define gone where "gone = butlast (take k (rev (g_bids s)))"
      define s3 where "s3 = s\<lparr>g_rng := g1, g_bids := fold removeAll gone (g_bids s), pending := map (Pair Buy) gone\<rparr>"
      obtain q g2 where q: "draw_qty d s3 = (q, s3\<lparr>g_rng := g2\<rparr>)" "0 < q" by (rule draw_qtyE [OF assms(1)])
      have "(r, s') = (Some (make_trade (g_time s) (g_seq s) (g_symbol s) Sell
          (Price (last (take k (rev (g_bids s))))) q), s3\<lparr>g_rng := g2\<rparr>)"
        using sell False q(1) k(1) assms(4,5)
        by (simp add: try_trade_def u Let_def gone_def [symmetric] s3_def from_ticks_def)
      moreover have "mirrors s3 b \<and> in_window s3"
        using mirrors_sweep(2) [OF assms(2-4) sw(2,3)] unfolding s3_def gone_def by simp
      ultimately show ?thesis
        using sw(1) q(2) b by (auto simp: good_step_def apply_trade_mirrors) (simp_all add: s3_def)
    qed (use assms(5) sell in \<open>auto simp: try_trade_def u Let_def\<close>)
  qed
qed

lemma mirrors_cancel:
  assumes "mirrors s b" "in_window s" "pending s = []"
  shows "px \<in> set (g_bids s) \<Longrightarrow>
      mirrors (s\<lparr>g_bids := removeAll px (g_bids s)\<rparr>) (apply_event (make_delete t n sy Buy (Price px)) b)
      \<and> in_window (s\<lparr>g_bids := removeAll px (g_bids s)\<rparr>) \<and> Price px \<in> bid_prices b"
    and "px \<in> set (g_asks s) \<Longrightarrow>
      mirrors (s\<lparr>g_asks := removeAll px (g_asks s)\<rparr>) (apply_event (make_delete t n sy Sell (Price px)) b)
      \<and> in_window (s\<lparr>g_asks := removeAll px (g_asks s)\<rparr>) \<and> Price px \<in> ask_prices b"
  using assms mirrors_ok [OF assms(1)]
  by (auto simp: mirrors_def in_window_def separated_def book_ok_apply_event removeAll_filter_not_eq
      intro!: sorted_wrt_filter)

lemma index_drawE:
  assumes "fair d" "ls \<noteq> []"
  obtains i g' where "index_draw d 0 (length ls - 1) g = (i, g')" "ls ! i \<in> set ls"
proof (cases "index_draw d 0 (length ls - 1) g")
  case (Pair i g')
  have "fst (index_draw d 0 (length ls - 1) g) \<in> {0..length ls - 1}" using assms(1) by (simp add: fair_def)
  then have "i < length ls" using assms(2) Pair by (cases ls) auto
  then show thesis using that Pair nth_mem by blast
qed

lemma try_cancel_good:
  assumes "fair d" "mirrors s b" "in_window s" "pending s = []" "try_cancel d s = (r, s')"
  shows "case r of Some ev \<Rightarrow> good_step s b (ev, s') | None \<Rightarrow> (\<exists>g. s' = s\<lparr>g_rng := g\<rparr>)"
proof -
  obtain u g where u: "draw_unit d s = (u, s\<lparr>g_rng := g\<rparr>)" by (rule draw_unitE)
  consider (none) "(if dlt u (Fin (1 / 2)) then g_bids s else g_asks s) = []"
    | (buy) "dlt u (Fin (1 / 2))" "g_bids s \<noteq> []" | (sell) "\<not> dlt u (Fin (1 / 2))" "g_asks s \<noteq> []" by argo
  then show ?thesis
  proof cases
    case none
    then show ?thesis using assms(5) by (auto simp: try_cancel_def u Let_def split: if_splits)
  next
    case buy
    obtain i g' where i: "index_draw d 0 (length (g_bids s) - 1) g = (i, g')" "g_bids s ! i \<in> set (g_bids s)"
      by (rule index_drawE [OF assms(1) buy(2)])
    show ?thesis
      using assms(5) buy i(1) mirrors_cancel(1) [OF assms(2-4) i(2)]
      by (auto simp: try_cancel_def u Let_def good_step_def from_ticks_def)
  next
    case sell
    obtain i g' where i: "index_draw d 0 (length (g_asks s) - 1) g = (i, g')" "g_asks s ! i \<in> set (g_asks s)"
      by (rule index_drawE [OF assms(1) sell(2)])
    show ?thesis
      using assms(5) sell i(1) mirrors_cancel(2) [OF assms(2-4) i(2)]
      by (auto simp: try_cancel_def u Let_def good_step_def from_ticks_def)
  qed
qed

lemma good_step_cong:
  "good_step (s\<lparr>g_rng := g\<rparr>) b r = good_step s b r"
  by (simp add: good_step_def split: prod.split)

lemma or_quote_good:
  assumes "fair d" "mirrors s b" "in_window s" "pending s = []"
    and "case r of Some ev \<Rightarrow> good_step s b (ev, s') | None \<Rightarrow> (\<exists>g. s' = s\<lparr>g_rng := g\<rparr>)"
  shows "good_step s b (case r of Some ev \<Rightarrow> (ev, s') | None \<Rightarrow> gen_quote d s')"
proof (cases r)
  case None
  then obtain g where "s' = s\<lparr>g_rng := g\<rparr>" using assms(5) by auto
  then show ?thesis
    using gen_quote_good [OF assms(1), of "s\<lparr>g_rng := g\<rparr>" b] assms(2-4) None by (simp add: good_step_cong)
qed (use assms(5) in simp)

lemma gen_activity_good:
  assumes "fair d" "mirrors s b" "in_window s" "pending s = []"
  shows "good_step s b (gen_activity d s)"
proof -
  obtain u g where u: "draw_unit d s = (u, s\<lparr>g_rng := g\<rparr>)" by (rule draw_unitE)
  let ?s = "s\<lparr>g_rng := g\<rparr>"
  have s: "mirrors ?s b" "in_window ?s" "pending ?s = []" using assms by simp_all
  obtain r1 s1 r2 s2 where r: "try_trade d ?s = (r1, s1)" "try_cancel d ?s = (r2, s2)" by fastforce
  have hb: "good_step ?s b (make_heartbeat (g_time s) (g_seq s) (g_symbol s), ?s)"
    using s mirrors_ok [OF s(1)] by (auto simp: good_step_def mirrors_def separated_def book_ok_apply_event)
  note parts = hb gen_quote_good [OF assms(1) s] or_quote_good [OF assms(1) s try_trade_good [OF assms(1) s r(1)]]
    or_quote_good [OF assms(1) s try_cancel_good [OF assms(1) s r(2)]]
  show ?thesis
    using parts by (simp add: gen_activity_def u r Let_def good_step_cong)
qed

section \<open>A step and a stream\<close>

lemma gen_move_keeps [simp]: "g_seq (gen_move d s) = g_seq s" "g_time (gen_move d s) = g_time s"
  by (simp_all add: gen_move_def draw_unit_def queue_invalid_levels_def Let_def split: prod.split)

lemma gen_next_sound:
  assumes "fair d" "mirrors s b" "in_window s" "gen_next d s = (ev, s')"
  shows "mirrors s' (apply_event ev b) \<and> in_window s' \<and> genuine ev b
    \<and> ev_sequence ev = g_seq s + 1 \<and> g_seq s' = g_seq s + 1 \<and> g_time s < ev_timestamp ev
    \<and> ev_timestamp ev \<le> g_time s + 2000000 \<and> g_time s' = ev_timestamp ev"
proof -
  define m where "m = gen_move d (gen_tick d s)"
  have m: "mirrors m b" "in_window m" using mirrors_move [of "gen_tick d s" b d] assms(2,3) by (simp_all add: m_def)
  have "fst (delay_draw d 50 2000 (g_rng s)) \<in> {50..2000}" using assms(1) by (simp add: fair_def)
  then have t: "g_seq m = g_seq s + 1" "g_time s < g_time m" "g_time m \<le> g_time s + 2000000"
    by (auto simp: m_def gen_tick_def split: prod.split)
  have "good_step m b (ev, s')"
  proof (cases "pending m")
    case Nil
    then show ?thesis
      using gen_activity_good [OF assms(1) m] assms(4) by (simp add: gen_next_def m_def [symmetric])
  next
    case (Cons x rest)
    obtain sd px where x: "x = (sd, px)" by (cases x)
    show ?thesis
      using mirrors_pop [OF m(1), of sd px rest] Cons x m(2) assms(4)
      by (auto simp: gen_next_def m_def [symmetric] good_step_def from_ticks_def)
  qed
  then show ?thesis using t by (simp add: good_step_def)
qed

text \<open>No event comes more than two milliseconds after the one before.\<close>

fun paced :: "int \<Rightarrow> market_event list \<Rightarrow> bool" where
  "paced t [] \<longleftrightarrow> True"
| "paced t (ev # evs) \<longleftrightarrow> ev_timestamp ev \<le> t + 2000000 \<and> paced (ev_timestamp ev) evs"

lemma gen_events_sound:
  assumes "fair d" "mirrors s b" "in_window s" "gen_events d n s = (evs, s')"
  shows "length evs = n \<and> consecutive (g_seq s + 1) evs \<and> sorted_wrt (<) (g_time s # map ev_timestamp evs)
    \<and> paced (g_time s) evs \<and> throughout separated apply_event evs b
    \<and> (\<forall>k < n. genuine (evs ! k) (fold apply_event (take k evs) b))"
  using assms(2-4)
proof (induction n arbitrary: s b evs)
  case 0
  then show ?case by (simp add: mirrors_def)
next
  case (Suc n)
  obtain ev s1 evs' where e: "gen_next d s = (ev, s1)" "gen_events d n s1 = (evs', s')" "evs = ev # evs'"
    using Suc.prems(3) by (auto simp: Let_def split: prod.splits)
  note step = gen_next_sound [OF assms(1) Suc.prems(1,2) e(1)]
  have IH: "length evs' = n \<and> consecutive (g_seq s1 + 1) evs' \<and> sorted_wrt (<) (g_time s1 # map ev_timestamp evs')
      \<and> paced (g_time s1) evs' \<and> throughout separated apply_event evs' (apply_event ev b)
      \<and> (\<forall>k < n. genuine (evs' ! k) (fold apply_event (take k evs') (apply_event ev b)))"
    using Suc.IH [of s1 "apply_event ev b" evs'] step e(2) by blast
  have "genuine (evs ! k) (fold apply_event (take k evs) b)" if "k < Suc n" for k
    using that step IH by (cases k) (auto simp: e(3))
  moreover have "separated b" using Suc.prems(1) by (simp add: mirrors_def)
  ultimately show ?case
    using step IH by (auto simp: e(3))
qed

lemma new_gen_mirrors:
  assumes "0 < ticks (from_double tick_size)"
  shows "mirrors (new_gen seeded seed start_price tick_size sy) (new_book book_sy)"
    "in_window (new_gen seeded seed start_price tick_size sy)"
  using assms by (simp_all add: mirrors_def in_window_def new_gen_def pend_def)

section \<open>Property\<close>

text \<open>C22: For every seed and whatever the draws, the stream the generator produces is internally
  consistent: \<open>n\<close> calls give \<open>n\<close> events with consecutive sequence numbers and increasing
  timestamps, the book they build is crossed after none of them, every trade prints at a price
  that rests on the opposite side, and every deletion removes a level that is there.\<close>

theorem synthetic_stream_sound:
  assumes "fair d" "0 < ticks (from_double tick_size)"
    and "gen_events d n (new_gen seeded seed start_price tick_size sy) = (evs, s')"
  shows "length evs = n \<and> consecutive 1 evs \<and> sorted_wrt (<) (map ev_timestamp evs)
    \<and> (\<forall>k. \<not> crossed (fold apply_event (take k evs) (new_book sy)))
    \<and> (\<forall>k < n. genuine (evs ! k) (fold apply_event (take k evs) (new_book sy)))"
proof -
  from gen_events_sound [OF assms(1) new_gen_mirrors [OF assms(2)] assms(3)] show ?thesis
    using separated_not_crossed by (auto simp: throughout_def new_gen_def)
qed

definition loaded_dice :: "nat dice" where
  "loaded_dice = \<lparr>unit_draw = (\<lambda>g. (if even g then Fin (1 / 2) else Fin (1 / 4), g + 1)),
     delay_draw = (\<lambda>lo hi g. (lo, g)), qty_draw = (\<lambda>lo hi g. (lo, g)), index_draw = (\<lambda>lo hi g. (lo, g)),
     pow_fn = (\<lambda>u v. dmul u u)\<rparr>"

lemma fair_loaded_dice: "fair loaded_dice"
proof -
  have "\<exists>v. dmul (Fin u) (Fin u) = Fin v \<and> 0 \<le> v \<and> v \<le> 1" if u: "0 \<le> u" "u < 1" for u
  proof -
    have sq: "0 \<le> u * u" "u * u \<le> 1" using u by (simp_all add: mult_le_one)
    then have "rnd (u * u) = Fin (rnd_rat (u * u))" by (intro rnd_Fin_le [of _ 0]) simp_all
    moreover have "0 \<le> rnd_rat (u * u)" "rnd_rat (u * u) \<le> rnd_rat (of_int 1)"
      using sq rnd_rat_mono [of 0 "u * u"] by (simp_all add: rnd_rat_mono)
    moreover have "rnd_rat (of_int 1) = of_int 1" by (intro rnd_rat_is_fp is_fp_of_int) simp
    ultimately show ?thesis by simp
  qed
  moreover have "\<exists>u. fst (unit_draw loaded_dice g) = Fin u \<and> 0 \<le> u \<and> u < 1" for g
    by (rule exI [of _ "if even g then 1 / 2 else 1 / 4"]) (simp add: loaded_dice_def)
  ultimately show ?thesis by (simp add: fair_def) (simp add: loaded_dice_def)
qed

theorem synthetic_stream_sound_witness:
  "\<exists>evs s'. gen_events loaded_dice 3 (new_gen unat 0 (Fin 100) (Fin 1) ''AAPL'') = (evs, s')
     \<and> length evs = 3 \<and> consecutive 1 evs \<and> \<not> crossed (fold apply_event evs (new_book ''AAPL''))"
proof -
  obtain evs s' where e: "gen_events loaded_dice 3 (new_gen unat 0 (Fin 100) (Fin 1) ''AAPL'') = (evs, s')"
    by fastforce
  have "ticks (from_double (Fin 1)) = 10000"
    using from_double_to_double [of "Price 10000"] by (simp add: to_double_def fp_eval)
  then show ?thesis
    using synthetic_stream_sound [OF fair_loaded_dice _ e] e by (metis take_all order_refl zero_less_numeral)
qed

end
