(* ===== verification/Data_Tools.thy ===== *)
theory Data_Tools
  imports Reports Synthetic_Book
begin

text \<open>
  The two tools that write event logs: \<open>src/tools/synthetic_data_gen.cpp\<close> and
  \<open>src/tools/finnhub_recorder.cpp\<close>.  Both collect events in a vector and store it with the codec.
  What is shown first: the events of generator and adapter fit into the records of the log.
\<close>

section \<open>Events of the generator\<close>

text \<open>All prices the generator tracks are within \<open>B\<close>, also those it may quote next.\<close>

definition tame :: "int \<Rightarrow> 'g gen \<Rightarrow> bool" where
  "tame B s \<longleftrightarrow> 0 < tick s \<and> \<bar>ref_px s\<bar> + 10 * tick s \<le> B \<and> fst ` set (pending s) \<subseteq> {Buy, Sell}
     \<and> (\<forall>p \<in> set (g_bids s) \<union> set (g_asks s) \<union> snd ` set (pending s). \<bar>p\<bar> \<le> B)"

definition modest :: "int \<Rightarrow> 'g gen \<Rightarrow> market_event \<times> 'g gen \<Rightarrow> bool" where
  "modest B s r \<longleftrightarrow> (case r of (ev, s') \<Rightarrow>
     tame B s' \<and> tick s' = tick s \<and> ref_px s' = ref_px s \<and> g_symbol s' = g_symbol s \<and> g_time s' = g_time s
     \<and> ev_timestamp ev = g_time s \<and> ev_symbol ev = g_symbol s \<and> \<bar>ticks (ev_price ev)\<bar> \<le> B
     \<and> ev_quantity ev \<in> {0..500} \<and> canonical_type (ev_type ev) \<and> canonical_side (ev_side ev))"

lemma tame_rng [simp]: "tame B (s\<lparr>g_rng := g\<rparr>) = tame B s" "tame B (s\<lparr>g_time := t\<rparr>) = tame B s"
  "tame B (s\<lparr>g_seq := n\<rparr>) = tame B s"
  by (simp_all add: tame_def)

lemma modest_rng [simp]: "modest B (s\<lparr>g_rng := g\<rparr>) r = modest B s r"
  by (simp add: modest_def split: prod.split)

lemma draw_qty_rangeE:
  assumes "fair d"
  obtains q g where "draw_qty d s = (q, s\<lparr>g_rng := g\<rparr>)" "q \<in> {0..500}"
proof (cases "qty_draw d 1 500 (g_rng s)")
  case (Pair q g)
  have "fst (qty_draw d 1 500 (g_rng s)) \<in> {1..500}" using assms by (simp add: fair_def)
  with Pair that [of q g] show thesis by (simp add: draw_qty_def)
qed

lemma canonical_make [simp]: "canonical_side Buy" "canonical_side Sell" "canonical_type Quote" "canonical_type Trade"
  "canonical_type BookDelete" "canonical_type Heartbeat"
  by (simp_all add: canonical_side_def canonical_type_def)

lemma quote_price_range:
  fixes r t k B :: int
  assumes "0 < t" "\<bar>r\<bar> + 10 * t \<le> B" "0 \<le> k" "k \<le> 9"
  shows "\<bar>r - t * (k + 1)\<bar> \<le> B \<and> \<bar>r + t * (k + 1)\<bar> \<le> B"
proof -
  have "t * (k + 1) \<le> t * 10" using assms by (intro mult_left_mono) simp_all
  moreover have "0 \<le> t * (k + 1)" using assms by simp
  ultimately show ?thesis using assms(2) by linarith
qed

lemma gen_quote_modest:
  assumes "fair d" "tame B s"
  shows "modest B s (gen_quote d s)"
proof -
  obtain u g where u: "draw_unit d s = (u, s\<lparr>g_rng := g\<rparr>)" by (rule draw_unitE)
  obtain v g1 where v: "draw_unit d (s\<lparr>g_rng := g\<rparr>) = (v, s\<lparr>g_rng := g\<rparr>\<lparr>g_rng := g1\<rparr>)"
      "v = fst (unit_draw d (g_rng (s\<lparr>g_rng := g\<rparr>)))" by (rule draw_unitE)
  define k where "k = min (d_to_int64 (dmul (pow_fn d v (Fin 2)) (d_of_int kLevelsPerSide))) (kLevelsPerSide - 1)"
  have k: "0 \<le> k" "k \<le> 9" using level_range [OF assms(1)] by (simp_all add: k_def v(2) kLevelsPerSide_def)
  have px: "\<bar>ref_px s - tick s * (k + 1)\<bar> \<le> B" "\<bar>ref_px s + tick s * (k + 1)\<bar> \<le> B"
    using quote_price_range [OF _ _ k, of "tick s" "ref_px s" B] assms(2) by (simp_all add: tame_def)
  define sd where "sd = (if dlt u (Fin (1 / 2)) then Buy else Sell)"
  define p where "p = (if sd = Buy then ref_px s - tick s * (k + 1) else ref_px s + tick s * (k + 1))"
  define s3 where "s3 = (if sd = Buy then s\<lparr>g_rng := g1, g_bids := insort_insert p (g_bids s)\<rparr>
    else s\<lparr>g_rng := g1, g_asks := insort_insert p (g_asks s)\<rparr>)"
  obtain q g2 where q: "draw_qty d s3 = (q, s3\<lparr>g_rng := g2\<rparr>)" "q \<in> {0..500}" by (rule draw_qty_rangeE [OF assms(1)])
  have "gen_quote d s = (make_quote (g_time s) (g_seq s) (g_symbol s) sd (from_ticks p) q, s3\<lparr>g_rng := g2\<rparr>)"
    using q(1) by (cases "sd = Buy") (simp_all add: gen_quote_def u v(1) Let_def k_def [symmetric] sd_def [symmetric] p_def s3_def)
  moreover have "tame B s3" using assms(2) px
    by (auto simp: s3_def tame_def p_def set_insort_insert)
  moreover have "\<bar>p\<bar> \<le> B" using px by (simp add: p_def)
  moreover have "canonical_side sd" by (simp add: sd_def)
  ultimately show ?thesis using q(2) by (simp add: modest_def make_quote_def from_ticks_def) (simp add: s3_def)
qed

lemma try_trade_modest:
  assumes "fair d" "tame B s" "try_trade d s = (r, s')"
  shows "case r of Some ev \<Rightarrow> modest B s (ev, s') | None \<Rightarrow> (\<exists>g. s' = s\<lparr>g_rng := g\<rparr>)"
proof -
  obtain u g where u: "draw_unit d s = (u, s\<lparr>g_rng := g\<rparr>)" by (rule draw_unitE)
  define buy where "buy = dlt u (Fin (1 / 2))"
  define ls where "ls = (if buy then g_asks s else g_bids s)"
  show ?thesis
  proof (cases "ls = []")
    case True
    then show ?thesis using assms(3) by (cases buy) (auto simp: try_trade_def u Let_def buy_def [symmetric] ls_def)
  next
    case False
    then have "1 \<le> length ls" by (cases ls) simp_all
    then obtain k g1 where k: "sweep_depth d (length ls) 1 (s\<lparr>g_rng := g\<rparr>) = (k, s\<lparr>g_rng := g\<rparr>\<lparr>g_rng := g1\<rparr>)" "1 \<le> k" "k \<le> length ls"
      by (rule sweep_depthE)
    define swept where "swept = (if buy then take k ls else take k (rev ls))"
    have "swept \<noteq> []" "set swept \<subseteq> set ls" using False k(2) by (auto simp: swept_def dest: in_set_takeD)
    then have sw: "last swept \<in> set ls" "set (butlast swept) \<subseteq> set ls" by (auto dest: in_set_butlastD)
    define s3 where "s3 = (if buy
        then s\<lparr>g_rng := g1, g_asks := fold removeAll (butlast swept) ls, pending := pending s @ map (Pair Sell) (butlast swept)\<rparr>
        else s\<lparr>g_rng := g1, g_bids := fold removeAll (butlast swept) ls, pending := pending s @ map (Pair Buy) (butlast swept)\<rparr>)"
    obtain q g2 where q: "draw_qty d s3 = (q, s3\<lparr>g_rng := g2\<rparr>)" "q \<in> {0..500}" by (rule draw_qty_rangeE [OF assms(1)])
    have "(r, s') = (Some (make_trade (g_time s) (g_seq s) (g_symbol s) (if buy then Buy else Sell)
        (from_ticks (last swept)) q), s3\<lparr>g_rng := g2\<rparr>)"
      using False q(1) k(1) assms(3)
      by (cases buy) (simp_all add: try_trade_def u Let_def buy_def [symmetric] ls_def swept_def s3_def)
    moreover have "\<forall>p \<in> set ls. \<bar>p\<bar> \<le> B" using assms(2) by (auto simp: tame_def ls_def)
    then have "tame B s3" "\<bar>last swept\<bar> \<le> B"
      using assms(2) sw by (auto simp: s3_def tame_def fold_removeAll)
    ultimately show ?thesis
      using q(2) by (simp add: modest_def make_trade_def from_ticks_def) (simp add: s3_def)
  qed
qed

lemma try_cancel_modest:
  assumes "fair d" "tame B s" "try_cancel d s = (r, s')"
  shows "case r of Some ev \<Rightarrow> modest B s (ev, s') | None \<Rightarrow> (\<exists>g. s' = s\<lparr>g_rng := g\<rparr>)"
proof -
  obtain u g where u: "draw_unit d s = (u, s\<lparr>g_rng := g\<rparr>)" by (rule draw_unitE)
  define buy where "buy = dlt u (Fin (1 / 2))"
  define ls where "ls = (if buy then g_bids s else g_asks s)"
  show ?thesis
  proof (cases "ls = []")
    case True
    then show ?thesis using assms(3) by (cases buy) (auto simp: try_cancel_def u Let_def buy_def [symmetric] ls_def)
  next
    case False
    obtain i g' where i: "index_draw d 0 (length ls - 1) g = (i, g')" "ls ! i \<in> set ls"
      by (rule index_drawE [OF assms(1) False])
    define s3 where "s3 = (if buy then s\<lparr>g_rng := g', g_bids := removeAll (ls ! i) ls\<rparr>
        else s\<lparr>g_rng := g', g_asks := removeAll (ls ! i) ls\<rparr>)"
    have "(r, s') = (Some (make_delete (g_time s) (g_seq s) (g_symbol s) (if buy then Buy else Sell) (from_ticks (ls ! i))), s3)"
      using False i(1) assms(3)
      by (cases buy) (simp_all add: try_cancel_def u Let_def buy_def [symmetric] ls_def s3_def)
    moreover have "tame B s3" "\<bar>ls ! i\<bar> \<le> B"
      using assms(2) i(2) by (auto simp: s3_def tame_def ls_def split: if_splits)
    ultimately show ?thesis by (simp add: modest_def make_delete_def from_ticks_def) (simp add: s3_def)
  qed
qed

lemma gen_activity_modest:
  assumes "fair d" "tame B s"
  shows "modest B s (gen_activity d s)"
proof -
  obtain u g where u: "draw_unit d s = (u, s\<lparr>g_rng := g\<rparr>)" by (rule draw_unitE)
  let ?s = "s\<lparr>g_rng := g\<rparr>"
  obtain r1 s1 r2 s2 where r: "try_trade d ?s = (r1, s1)" "try_cancel d ?s = (r2, s2)" by fastforce
  have s: "tame B ?s" using assms(2) by simp
  have hb: "modest B s (make_heartbeat (g_time s) (g_seq s) (g_symbol s), ?s)"
    using assms(2) by (auto simp: modest_def make_heartbeat_def tame_def)
  have or_quote: "modest B s (case r of Some ev \<Rightarrow> (ev, s') | None \<Rightarrow> gen_quote d s')"
    if ok: "case r of Some ev \<Rightarrow> modest B ?s (ev, s') | None \<Rightarrow> (\<exists>g'. s' = ?s\<lparr>g_rng := g'\<rparr>)" for r s'
  proof (cases r)
    case None
    then obtain g' where "s' = s\<lparr>g_rng := g'\<rparr>" using ok by auto
    then show ?thesis using gen_quote_modest [OF assms(1), of B s'] assms(2) None by simp
  qed (use ok in simp)
  show ?thesis
    using hb gen_quote_modest [OF assms(1) s] or_quote [OF try_trade_modest [OF assms(1) s r(1)]]
      or_quote [OF try_cancel_modest [OF assms(1) s r(2)]]
    by (simp add: gen_activity_def u r Let_def)
qed

lemma tame_mono: "tame B s \<Longrightarrow> B \<le> C \<Longrightarrow> tame C s"
  unfolding tame_def by (meson order_trans)

lemma gen_move_tame:
  assumes "tame B s"
  shows "tame (B + tick s) (gen_move d s) \<and> tick (gen_move d s) = tick s \<and> g_symbol (gen_move d s) = g_symbol s"
proof -
  have wide: "tame (B + tick s) s" by (rule tame_mono [OF assms]) (use assms in \<open>simp add: tame_def\<close>)
  show ?thesis
  proof (cases "pending s = []")
    case True
    obtain u g where u: "draw_unit d s = (u, s\<lparr>g_rng := g\<rparr>)" by (rule draw_unitE)
    obtain v g' where v: "draw_unit d (s\<lparr>g_rng := g\<rparr>) = (v, s\<lparr>g_rng := g'\<rparr>)"
      using draw_unitE [of d "s\<lparr>g_rng := g\<rparr>"] by (metis gen.surjective gen.update_convs(1))
    have moved: "\<bar>r + (if up then - 1 else 1) * t\<bar> + 10 * t \<le> B + t" if "0 < t" "\<bar>r\<bar> + 10 * t \<le> B" for r t :: int and up
      using that by auto
    show ?thesis
      using wide True moved [of "tick s" "ref_px s"] assms
      by (auto simp: gen_move_def u v Let_def tame_def queue_invalid_levels_def)
  qed (use wide in \<open>simp add: gen_move_def\<close>)
qed

lemma gen_next_modest:
  assumes "fair d" "tame B s" "gen_next d s = (ev, s')"
  shows "tame (B + tick s) s' \<and> tick s' = tick s \<and> g_symbol s' = g_symbol s \<and> ev_symbol ev = g_symbol s
    \<and> \<bar>ticks (ev_price ev)\<bar> \<le> B + tick s \<and> ev_quantity ev \<in> {0..500}
    \<and> canonical_type (ev_type ev) \<and> canonical_side (ev_side ev)
    \<and> g_time s < ev_timestamp ev \<and> ev_timestamp ev \<le> g_time s + 2000000 \<and> g_time s' = ev_timestamp ev"
proof -
  have k: "tame B (gen_tick d s) \<and> tick (gen_tick d s) = tick s \<and> g_symbol (gen_tick d s) = g_symbol s"
    using assms(2) by (simp add: gen_tick_def split: prod.split)
  define m where "m = gen_move d (gen_tick d s)"
  have m: "tame (B + tick s) m" "tick m = tick s" "g_symbol m = g_symbol s"
    using gen_move_tame [of B "gen_tick d s" d] k by (simp_all add: m_def)
  have "fst (delay_draw d 50 2000 (g_rng s)) \<in> {50..2000}" using assms(1) by (simp add: fair_def)
  then have t: "g_time s < g_time m" "g_time m \<le> g_time s + 2000000"
    by (auto simp: m_def gen_tick_def split: prod.split)
  have "modest (B + tick s) m (ev, s')"
  proof (cases "pending m")
    case Nil
    then show ?thesis
      using gen_activity_modest [OF assms(1) m(1)] assms(3) by (simp add: gen_next_def m_def [symmetric])
  next
    case (Cons x rest)
    obtain sd px where x: "x = (sd, px)" by (cases x)
    then have "ev = make_delete (g_time m) (g_seq m) (g_symbol m) sd (from_ticks px)" "s' = m\<lparr>pending := rest\<rparr>"
      using Cons assms(3) by (simp_all add: gen_next_def m_def [symmetric])
    moreover have "sd \<in> {Buy, Sell}" "\<bar>px\<bar> \<le> B + tick s" "tame (B + tick s) (m\<lparr>pending := rest\<rparr>)"
      using m(1) Cons x by (auto simp: tame_def)
    ultimately show ?thesis by (auto simp: modest_def make_delete_def from_ticks_def)
  qed
  then show ?thesis using t m by (simp add: modest_def)
qed

lemma gen_events_storable:
  assumes "fair d" "tame B s" "gen_events d n s = (evs, s')" "length (g_symbol s) \<le> kMaxLen"
    and "B + int n * tick s < 2 ^ 63" "0 \<le> g_time s" "g_time s + int n * 2000000 < 2 ^ 63"
  shows "\<forall>ev\<in>set evs. storable ev"
  using assms(2-)
proof (induction n arbitrary: s B evs)
  case (Suc n)
  obtain ev s1 evs' where e: "gen_next d s = (ev, s1)" "gen_events d n s1 = (evs', s')" "evs = ev # evs'"
    using Suc.prems(2) by (auto simp: Let_def split: prod.splits)
  note st = gen_next_modest [OF assms(1) Suc.prems(1) e(1)]
  have t0: "0 < tick s" using Suc.prems(1) by (simp add: tame_def)
  then have "0 \<le> int n * tick s" by simp
  then have b: "B + tick s < 2 ^ 63" "g_time s + 2000000 < 2 ^ 63"
    using Suc.prems(4,6) by (simp_all add: algebra_simps)
  have "\<forall>ev\<in>set evs'. storable ev"
    using st Suc.prems(3-6) e(2) by (intro Suc.IH [of "B + tick s" s1]) (simp_all add: algebra_simps)
  moreover have "storable ev"
    using st b Suc.prems(3,5) by (auto simp: storable_def int64_ok_def)
  ultimately show ?case by (simp add: e(3))
qed simp

section \<open>Events of the feed\<close>

text \<open>A trade whose figures are finite and of a size the event can hold.\<close>

definition recordable :: "finnhub_trade \<Rightarrow> bool" where
  "recordable t \<longleftrightarrow> bounded_by 33 (ft_price t) \<and> bounded_by 53 (ft_volume t) \<and> \<bar>ft_timestamp_ms t\<bar> \<le> 2 ^ 43"

lemma abs_le_int64: "\<bar>i\<bar> \<le> 2 ^ 62 \<Longrightarrow> int64_ok i"
  by (auto simp: int64_ok_def abs_le_iff)

lemma bounded_by_Fin: "bounded_by k (Fin x) \<longleftrightarrow> \<bar>x\<bar> \<le> two_pow k"
  by (simp add: bounded_by_def)

lemma int64_ok_from_double:
  assumes "bounded_by 34 d"
  shows "int64_ok (ticks (from_double d))"
proof -
  have "bounded_by 14 (Fin 10000)" "bounded_by 48 (Fin (1 / 2))" "bounded_by 48 (Fin (- (1 / 2)))"
    by (simp_all add: bounded_by_Fin two_pow_def)
  then have "bounded_by 49 (dadd (dmul d (d_of_int kScale)) (if dle (Fin 0) d then Fin (1 / 2) else Fin (- (1 / 2))))"
    using bounded_by_dadd [of 48] bounded_by_dmul [OF assms, of 14] by simp
  then obtain x where x: "dadd (dmul d (d_of_int kScale)) (if dle (Fin 0) d then Fin (1 / 2) else Fin (- (1 / 2))) = Fin x"
      "\<bar>x\<bar> \<le> two_pow 49" by (auto simp: bounded_by_def)
  have "\<bar>x\<bar> \<le> of_int (2 ^ 49)" using x(2) by (simp add: two_pow_def)
  then have "trunc_rat x \<le> trunc_rat (of_int (2 ^ 49))" "trunc_rat (of_int (- (2 ^ 49))) \<le> trunc_rat x"
    by (intro trunc_rat_mono; simp add: abs_le_iff)+
  then have "int64_ok (trunc_rat x)" unfolding trunc_rat_of_int by (simp add: int64_ok_def)
  then show ?thesis unfolding from_double_def x(1) by (simp add: from_ticks_def)
qed

lemma int64_ok_llround:
  assumes "bounded_by 53 v"
  shows "int64_ok (max 1 (llround v))"
proof -
  obtain x where x: "v = Fin x" "\<bar>x\<bar> \<le> two_pow 53" using assms by (auto simp: bounded_by_def)
  then have "- (of_int (2 ^ 53)) \<le> x" "x \<le> of_int (2 ^ 53)" by (simp_all add: two_pow_def abs_le_iff)
  then have "\<lfloor>x + 1 / 2\<rfloor> \<le> 2 ^ 54" "- (2 ^ 54) \<le> \<lfloor>x + 1 / 2\<rfloor>" "\<lceil>x - 1 / 2\<rceil> \<le> 2 ^ 54" "- (2 ^ 54) \<le> \<lceil>x - 1 / 2\<rceil>"
    by (simp_all add: floor_le_iff le_floor_iff ceiling_le_iff le_ceiling_iff)
  then show ?thesis by (simp add: x(1) Let_def int64_ok_def max_def)
qed

text \<open>The adapter with what it has emitted: every event can be stored, and so can a deletion of its
  synthetic quotes.\<close>

definition tape_ok :: "adapter \<times> market_event list \<Rightarrow> bool" where
  "tape_ok st \<longleftrightarrow> (\<forall>ev\<in>set (snd st). storable ev) \<and> bounded_by 33 (half_spread (fst st))
     \<and> canonical_side (last_side (fst st))
     \<and> (\<forall>px \<in> set_option (syn_bid (fst st)) \<union> set_option (syn_ask (fst st)). int64_ok (ticks px))"

lemma tape_ok_emit: "tape_ok st \<Longrightarrow> (\<And>n. storable (f n)) \<Longrightarrow> tape_ok (emit f st)"
  by (auto simp: tape_ok_def emit_def split: prod.split)

lemma emit_adapter [simp]:
  "half_spread (fst (emit f st)) = half_spread (fst st)" "syn_bid (fst (emit f st)) = syn_bid (fst st)"
  "syn_ask (fst (emit f st)) = syn_ask (fst st)"
  by (simp_all add: emit_def split: prod.split)

lemma tape_ok_drop:
  assumes "tape_ok st" "old \<in> {syn_bid (fst st), syn_ask (fst st)}" "\<And>n px. int64_ok (ticks px) \<Longrightarrow> storable (make_delete ts n sy s px)"
  shows "tape_ok (drop_moved ts sy s old fresh st)"
proof (cases old)
  case (Some px)
  then have "int64_ok (ticks px)" using assms(1,2) by (auto simp: tape_ok_def)
  then show ?thesis using assms Some tape_ok_emit [of st] by (simp add: drop_moved_def)
qed (use assms(1) in \<open>simp add: drop_moved_def\<close>)

lemma drop_adapter [simp]:
  "half_spread (fst (drop_moved ts sy s old fresh st)) = half_spread (fst st)"
  "syn_bid (fst (drop_moved ts sy s old fresh st)) = syn_bid (fst st)"
  "syn_ask (fst (drop_moved ts sy s old fresh st)) = syn_ask (fst st)"
  by (simp_all add: drop_moved_def split: option.split)

lemma tape_ok_trade:
  assumes "tape_ok st" "recordable t"
  shows "tape_ok (tape_on_trade t st)"
proof -
  obtain a0 out where st: "st = (a0, out)" by (cases st)
  let ?sy = "symbol_of (ft_symbol t)" and ?ts = "ft_timestamp_ms t * 1000000" and ?q = "max 1 (llround (ft_volume t))"
  define sd where "sd = tick_rule (ft_price t) a0"
  define a where "a = a0\<lparr>last_price := Some (ft_price t), last_side := sd\<rparr>"
  define bid where "bid = from_double (dsub (ft_price t) (half_spread a))"
  define ask where "ask = from_double (dadd (ft_price t) (half_spread a))"
  have ts: "int64_ok ?ts" using assms(2) by (auto simp: recordable_def int64_ok_def abs_le_iff)
  have q: "int64_ok ?q" using assms(2) by (simp add: recordable_def int64_ok_llround)
  have p: "bounded_by 33 (ft_price t)" and h: "bounded_by 33 (half_spread a)"
    using assms by (simp_all add: recordable_def tape_ok_def st a_def)
  have px: "int64_ok (ticks (from_double (ft_price t)))" "int64_ok (ticks bid)" "int64_ok (ticks ask)"
    using int64_ok_from_double [OF bounded_by_mono [OF p]] int64_ok_from_double bounded_by_dsub [OF p h] bounded_by_dadd [OF p h]
    by (simp_all add: bid_def ask_def)
  have sd: "canonical_side sd" using assms(1) by (simp add: tape_ok_def st sd_def tick_rule_def split: option.split)
  have sy: "length ?sy \<le> kMaxLen" by (rule length_symbol_of)
  have del: "storable (make_delete ?ts n ?sy s px)" if "int64_ok (ticks px)" "canonical_side s" for n px s
    using that ts sy by (simp add: storable_def make_delete_def int64_ok_def)
  have quo: "storable (make_quote ?ts n ?sy s px ?q)" if "int64_ok (ticks px)" "canonical_side s" for n px s
    using that ts sy q by (simp add: storable_def make_quote_def)
  have "tape_ok (a, out)" using assms(1) sd by (simp add: tape_ok_def st a_def)
  then have 1: "tape_ok (emit (\<lambda>n. make_trade ?ts n ?sy sd (from_double (ft_price t)) ?q) (a, out))"
    using ts sy q px(1) sd by (intro tape_ok_emit) (simp_all add: storable_def make_trade_def)
  define st1 where "st1 = emit (\<lambda>n. make_trade ?ts n ?sy sd (from_double (ft_price t)) ?q) (a, out)"
  define st2 where "st2 = drop_moved ?ts ?sy Buy (syn_bid a) bid st1"
  define st3 where "st3 = drop_moved ?ts ?sy Sell (syn_ask a) ask st2"
  define st4 where "st4 = emit (\<lambda>n. make_quote ?ts n ?sy Buy bid ?q) st3"
  define st5 where "st5 = emit (\<lambda>n. make_quote ?ts n ?sy Sell ask ?q) st4"
  have "tape_ok st2" unfolding st2_def using 1 del by (intro tape_ok_drop) (simp_all add: st1_def)
  then have "tape_ok st3" unfolding st3_def using del by (intro tape_ok_drop) (simp_all add: st2_def st1_def)
  then have "tape_ok st5" unfolding st5_def st4_def using quo px(2,3) by (intro tape_ok_emit) simp_all
  moreover have "tape_on_trade t st = ((fst st5)\<lparr>syn_bid := Some bid, syn_ask := Some ask\<rparr>, snd st5)"
    by (simp add: tape_on_trade_def st Let_def st5_def st4_def st3_def st2_def st1_def sd_def a_def bid_def ask_def split: prod.split)
  ultimately show ?thesis using px(2,3) by (simp add: tape_ok_def)
qed

lemma tape_ok_fold: "tape_ok st \<Longrightarrow> \<forall>t\<in>set ts. recordable t \<Longrightarrow> tape_ok (fold tape_on_trade ts st)"
  by (induction ts arbitrary: st) (simp_all add: tape_ok_trade)

lemma delivered_storable:
  assumes "bounded_by 33 sp" "\<forall>msg\<in>set msgs. \<forall>t\<in>set (message_trades api msg). recordable t"
  shows "\<forall>ev\<in>set (delivered (fold (on_message api sub) msgs (new_client sy sp))). storable ev"
proof -
  let ?ts = "concat (map (message_trades api) msgs)"
  have "tape_ok (new_adapter sp, [])"
    using bounded_by_ddiv [OF assms(1), of 2] by (simp add: tape_ok_def new_adapter_def)
  then have "tape_ok (fold tape_on_trade ?ts (new_adapter sp, []))" by (rule tape_ok_fold) (use assms(2) in auto)
  moreover have "delivered (fold (on_message api sub) msgs (new_client sy sp)) = snd (fold tape_on_trade ?ts (new_adapter sp, []))"
    using client_tape [of api sub msgs "new_client sy sp"] by (simp add: new_client_def) (metis snd_conv)
  ultimately show ?thesis by (simp add: tape_ok_def)
qed

section \<open>The programs\<close>

text \<open>What ends a tool other than its \<open>return\<close>: a number that does not parse, a vector that cannot be
  allocated, a file that cannot be opened.\<close>

datatype tool_error = ToolArgument cli_error | LengthError | ToolLog codec_error

record tool_run =
  tr_exit :: nat
  tr_out :: "item list"
  tr_files :: files

text \<open>\<open>synthetic_data_gen\<close>.  \<open>max_events\<close> is the largest vector of events; \<open>reserve\<close> throws above it, so
  also for a negative count, which the cast to \<open>size_t\<close> turns into a huge one.\<close>

definition data_gen_main ::
  "'g dice \<Rightarrow> (u64 \<Rightarrow> 'g) \<Rightarrow> (string \<Rightarrow> double option) \<Rightarrow> (string \<Rightarrow> int option) \<Rightarrow> nat \<Rightarrow> (string \<Rightarrow> bool)
   \<Rightarrow> files \<Rightarrow> string list \<Rightarrow> tool_error + tool_run"
where
  "data_gen_main d seeded stod stol max_events can_write fs argv =
     (let args = cli_parse argv;
          symbol_str = get_or args ''symbol'' ''AAPL'';
          out_path = get_or args ''out'' (''data/'' @ symbol_str @ ''_synthetic.bin'')
      in case get_long_or stol args ''events'' 1000000 of
           Inl e \<Rightarrow> Inl (ToolArgument e)
         | Inr num_events \<Rightarrow>
      (case get_long_or stol args ''seed'' 1234 of
           Inl e \<Rightarrow> Inl (ToolArgument e)
         | Inr seed \<Rightarrow>
      (case get_double_or stod args ''start-price'' (Fin 190) of
           Inl e \<Rightarrow> Inl (ToolArgument e)
         | Inr start_price \<Rightarrow>
      (case get_double_or stod args ''tick-size'' (rnd (1 / 100)) of
           Inl e \<Rightarrow> Inl (ToolArgument e)
         | Inr tick_size \<Rightarrow>
           let announced = [OText ''Generating '', OInt num_events, OText '' synthetic L2 events for '', OText symbol_str,
                 OText '' (seed='', OInt seed, OText '', start_price='', ODouble start_price, OText '') -> '', OText out_path,
                 OText ''\<newline>''];
               g = new_gen seeded (word_of_int seed) start_price tick_size (symbol_of symbol_str)
           in if max_events < unat (word_of_int num_events :: u64) then Inl LengthError
              else
                let (events, _) = gen_events d (nat num_events) g
                in case write_events_to_file can_write out_path events fs of
                     Inl e \<Rightarrow> Inl (ToolLog e)
                   | Inr fs' \<Rightarrow> Inr \<lparr>tr_exit = 0,
                       tr_out = announced @ [OText ''Wrote '', ONat (length events), OText '' events ('',
                         ONat (length events * kRecordSize + 8), OText '' bytes) to '', OText out_path, OText ''\<newline>''],
                       tr_files = fs'\<rparr>))))"

text \<open>\<open>finnhub_recorder\<close>.  The client's callback appends to the vector under the mutex, so after the client
  has stopped the vector is what the client delivered for the messages that arrived; \<open>shown\<close> is
  what the status line saw, once a second: the client and the size of the vector.\<close>

definition recorder_status :: "client \<times> nat \<Rightarrow> item list" where
  "recorder_status x =
     (let (c, n) = x
      in [OText (CHR 0x0D # ''  connected=''), OBool (connected c), OText '' messages='', ONat (messages_received c),
          OText '' events='', ONat n, OText '' malformed='', ONat (malformed_messages c),
          OText '' reconnects='', ONat (reconnect_count c)])"

definition recorder_main ::
  "'j json_api \<Rightarrow> (string \<Rightarrow> string) \<Rightarrow> (string \<Rightarrow> double option) \<Rightarrow> (string \<Rightarrow> int option) \<Rightarrow> (string \<Rightarrow> bool)
   \<Rightarrow> string option \<Rightarrow> ws_message list \<Rightarrow> (client \<times> nat) list \<Rightarrow> files \<Rightarrow> string list \<Rightarrow> tool_error + tool_run"
where
  "recorder_main api subscribe stod stol can_write env_key msgs shown fs argv =
     (let args = cli_parse argv;
          key_arg = get_or args ''api-key'' [];
          sy = get_or args ''symbol'' ''AAPL'';
          out_path = get_or args ''out'' (''data/'' @ sy @ ''_live.bin'')
      in case get_long_or stol args ''duration-sec'' 30 of
           Inl e \<Rightarrow> Inl (ToolArgument e)
         | Inr duration_sec \<Rightarrow>
      (case get_double_or stod args ''synthetic-spread'' (rnd (2 / 100)) of
           Inl e \<Rightarrow> Inl (ToolArgument e)
         | Inr synthetic_spread \<Rightarrow>
           let api_key = (if key_arg = [] then (case env_key of None \<Rightarrow> key_arg | Some k \<Rightarrow> k) else key_arg)
           in if api_key = [] then Inr \<lparr>tr_exit = 1, tr_out = [], tr_files = fs\<rparr>
              else
                let c = stop_client (fold (on_message api subscribe) msgs (new_client sy synthetic_spread));
                    events = delivered c;
                    out = [OText ''Connecting to Finnhub for '', OText sy, OText '', recording for '', OInt duration_sec,
                      OText ''s...\<newline>''] @ concat (map recorder_status shown) @ [OText ''\<newline>'']
                in if events = [] then Inr \<lparr>tr_exit = 1, tr_out = out, tr_files = fs\<rparr>
                   else case write_events_to_file can_write out_path events fs of
                          Inl e \<Rightarrow> Inl (ToolLog e)
                        | Inr fs' \<Rightarrow> Inr \<lparr>tr_exit = 0, tr_out = out @ [OText ''Wrote '', ONat (length events),
                            OText '' real Finnhub-derived events to '', OText out_path, OText ''\<newline>''], tr_files = fs'\<rparr>))"

section \<open>Properties\<close>

text \<open>C28: Every event the feed client hands on fits into a record of the event log: whatever messages
  arrive, as long as the figures of their trades are finite numbers of a realistic size, time
  stamps, prices and sizes of all events are in range, deletions of synthetic quotes included,
  and so are symbols and enumerations.\<close>

theorem feed_events_are_storable:
  assumes "bounded_by 33 synthetic_spread"
    and "\<forall>msg\<in>set msgs. \<forall>t\<in>set (message_trades api msg). recordable t"
  shows "\<forall>ev\<in>set (delivered (fold (on_message api subscribe) msgs (new_client sy synthetic_spread))). storable ev"
  by (rule delivered_storable [OF assms])

lemma recorder_run:
  assumes "recorder_main api subscribe stod stol can_write env_key msgs shown fs argv = Inr r"
    and "get_double_or stod (cli_parse argv) ''synthetic-spread'' (rnd (2 / 100)) = Inr sp"
    and "get_or (cli_parse argv) ''symbol'' ''AAPL'' = sy" "get_or (cli_parse argv) ''out'' (''data/'' @ sy @ ''_live.bin'') = path"
  defines "events \<equiv> delivered (fold (on_message api subscribe) msgs (new_client sy sp))"
  shows "tr_exit r = 1 \<and> tr_files r = fs \<or>
    tr_exit r = 0 \<and> events \<noteq> [] \<and> write_events_to_file can_write path events fs = Inr (tr_files r)"
proof -
  have "delivered (stop_client c) = delivered c" for c by (simp add: stop_client_def)
  then show ?thesis
    using assms(1-4) unfolding events_def
    by (auto simp: recorder_main_def Let_def split: sum.splits if_splits)
qed

text \<open>C26: What the recorder has recorded can be replayed.  If it exits with 0, the file holds exactly
  the events its client delivered, numbered without a break and at least one, and reading it back
  returns them in order; otherwise it exits with 1 and has written no file.\<close>

theorem recorder_log_reads_back:
  assumes "recorder_main api subscribe stod stol can_write env_key msgs shown fs argv = Inr r"
    and "get_double_or stod (cli_parse argv) ''synthetic-spread'' (rnd (2 / 100)) = Inr sp" "bounded_by 33 sp"
    and "get_or (cli_parse argv) ''symbol'' ''AAPL'' = sy" "get_or (cli_parse argv) ''out'' (''data/'' @ sy @ ''_live.bin'') = path"
    and "\<forall>msg\<in>set msgs. \<forall>t\<in>set (message_trades api msg). recordable t"
  shows "(tr_exit r = 1 \<and> tr_files r = fs) \<or>
    (tr_exit r = 0 \<and> (\<exists>ev evs. read_events_from_file path (tr_files r) = Inr (ev # evs)
       \<and> ev # evs = delivered (fold (on_message api subscribe) msgs (new_client sy sp)) \<and> consecutive 1 (ev # evs)))"
proof -
  define events where "events = delivered (fold (on_message api subscribe) msgs (new_client sy sp))"
  have st: "\<forall>ev\<in>set events. storable ev" unfolding events_def by (rule delivered_storable [OF assms(3,6)])
  have cons: "consecutive 1 events" unfolding events_def by (rule delivered_consecutive)
  from recorder_run [OF assms(1,2,4,5), folded events_def] show ?thesis
  proof
    assume w: "tr_exit r = 0 \<and> events \<noteq> [] \<and> write_events_to_file can_write path events fs = Inr (tr_files r)"
    then have "can_write path" by (auto simp: write_events_to_file_def split: if_splits)
    then have "read_events_from_file path (tr_files r) = Inr events"
      by (rule read_written_file [where fs = fs, OF _ st]) (use w in simp)
    then show ?thesis using w cons by (cases events) (simp_all flip: events_def)
  qed simp
qed

section \<open>Examples\<close>

lemma demo_message_trades: "message_trades demo_api (Received ''x'') =
    [\<lparr>ft_symbol = ''AAPL'', ft_price = Fin 100, ft_volume = Fin 5, ft_timestamp_ms = 1\<rparr>]"
  by (simp add: message_trades_def parse_finnhub_message_def demo_api_def parse_tick_def well_typed_tick_def
      has_field_def field_def empty_result_def fp_eval)

lemma demo_recordable: "\<forall>msg\<in>set [Opened, Received ''x'']. \<forall>t\<in>set (message_trades demo_api msg). recordable t"
  by (simp add: demo_message_trades) (simp add: message_trades_def recordable_def bounded_by_Fin two_pow_def)

theorem feed_events_are_storable_witness: "length demo_delivered = 3 \<and> list_all storable demo_delivered"
proof -
  have "bounded_by 33 (Fin 2)" by (simp add: bounded_by_Fin two_pow_def)
  then have "\<forall>ev\<in>set demo_delivered. storable ev"
    unfolding demo_delivered_def by (rule feed_events_are_storable [OF _ demo_recordable])
  then show ?thesis by (simp add: demo_delivered_length list_all_iff)
qed

theorem recorder_log_reads_back_witness:
  "\<exists>r. recorder_main demo_api id (\<lambda>_. Some (Fin 2)) (\<lambda>_. None) (\<lambda>_. True) (Some ''key'') [Opened, Received ''x''] []
        Map.empty [''--synthetic-spread=2''] = Inr r
     \<and> (tr_exit r = 1 \<or> read_events_from_file ''data/AAPL_live.bin'' (tr_files r) = Inr demo_delivered)"
proof -
  let ?argv = "[''--synthetic-spread=2'']" and ?stod = "\<lambda>_ :: string. Some (Fin 2)" and ?stol = "\<lambda>_ :: string. None :: int option"
  let ?main = "recorder_main demo_api id ?stod ?stol (\<lambda>_. True) (Some ''key'') [Opened, Received ''x''] [] Map.empty ?argv"
  have args: "get_double_or ?stod (cli_parse ?argv) ''synthetic-spread'' (rnd (2 / 100)) = Inr (Fin 2)"
    "get_or (cli_parse ?argv) ''symbol'' ''AAPL'' = ''AAPL''"
    "get_or (cli_parse ?argv) ''out'' (''data/'' @ ''AAPL'' @ ''_live.bin'') = ''data/AAPL_live.bin''"
    "get_long_or ?stol (cli_parse ?argv) ''duration-sec'' 30 = Inr 30"
    by (simp_all add: cli_parse_def get_or_def get_double_or_def get_long_or_def cli_get_def)
  have "\<exists>r. ?main = Inr r"
    unfolding recorder_main_def Let_def args by (simp add: write_events_to_file_def)
  then obtain r where r: "?main = Inr r" by blast
  have "bounded_by 33 (Fin 2)" by (simp add: bounded_by_Fin two_pow_def)
  from recorder_log_reads_back [OF r args(1) this args(2,3) demo_recordable] r show ?thesis
    by (auto simp: demo_delivered_def)
qed

section \<open>The generated log\<close>

lemma new_gen_tame:
  assumes "0 < ticks (from_double tick_size)"
  shows "tame (\<bar>ticks (from_double start_price)\<bar> + 10 * ticks (from_double tick_size))
    (new_gen seeded seed start_price tick_size sy)"
  using assms by (simp add: tame_def new_gen_def)

lemma new_gen_storable:
  assumes "fair d" "0 < ticks (from_double tick_size)" "int n \<le> 10 ^ 12"
    and "\<bar>ticks (from_double start_price)\<bar> + (int n + 10) * ticks (from_double tick_size) < 2 ^ 63"
    and "gen_events d n (new_gen seeded seed start_price tick_size (symbol_of sy)) = (evs, g)"
  shows "\<forall>ev\<in>set evs. storable ev"
  by (rule gen_events_storable [OF assms(1) new_gen_tame [OF assms(2)] assms(5)])
    (use assms(3,4) in \<open>simp_all add: new_gen_def length_symbol_of algebra_simps\<close>)

lemma data_gen_run:
  assumes "data_gen_main d seeded stod stol max_events can_write fs argv = Inr r" "max_events < 2 ^ 63"
    and "get_long_or stol (cli_parse argv) ''events'' 1000000 = Inr num_events" "int64_ok num_events"
    and "get_double_or stod (cli_parse argv) ''start-price'' (Fin 190) = Inr start_price"
    and "get_double_or stod (cli_parse argv) ''tick-size'' (rnd (1 / 100)) = Inr tick_size"
    and "get_or (cli_parse argv) ''symbol'' ''AAPL'' = sy" "get_or (cli_parse argv) ''out'' (''data/'' @ sy @ ''_synthetic.bin'') = path"
  obtains seed evs g where "tr_exit r = 0" "0 \<le> num_events"
    "gen_events d (nat num_events) (new_gen seeded seed start_price tick_size (symbol_of sy)) = (evs, g)"
    "write_events_to_file can_write path evs fs = Inr (tr_files r)"
proof -
  obtain seed where s: "get_long_or stol (cli_parse argv) ''seed'' 1234 = Inr seed"
    using assms(1,3) by (auto simp: data_gen_main_def Let_def split: sum.splits)
  obtain evs g where e: "gen_events d (nat num_events) (new_gen seeded (word_of_int seed) start_price tick_size (symbol_of sy)) = (evs, g)"
    by fastforce
  have r: "\<not> max_events < unat (word_of_int num_events :: u64)" "tr_exit r = 0"
    "write_events_to_file can_write path evs fs = Inr (tr_files r)"
    using assms(1) unfolding data_gen_main_def Let_def assms(3,5-8) s
    by (auto simp: e split: if_splits sum.splits)
  have nonneg: "0 \<le> num_events"
  proof (rule ccontr)
    assume "\<not> 0 \<le> num_events"
    then have n: "num_events < 0" "- (2 ^ 63) \<le> num_events" using assms(4) by (simp_all add: int64_ok_def)
    then have "(num_events + 2 ^ 64) mod 2 ^ 64 = num_events + 2 ^ 64" by (intro mod_pos_pos_trivial) simp_all
    then have "num_events mod 2 ^ 64 = num_events + 2 ^ 64" by (simp only: mod_add_self2)
    then have "unat (word_of_int num_events :: u64) = nat (num_events + 2 ^ 64)"
      by (simp add: unat_eq_nat_uint uint_word_of_int)
    then show False using r(1) assms(2) n by simp
  qed
  show thesis by (rule that [OF r(2) nonneg e r(3)])
qed

end
