(* ===== verification/Ring_Memory.thy ===== *)
theory Ring_Memory
  imports Ring_Buffer
begin

unbundle bit_operations_syntax

text \<open>
  The ring buffer of \<open>src/concurrency/spsc_ring_buffer.hpp\<close> under the release/acquire memory model.

  An atomic index is the log of the values stored in it.  An acquire load may return an old
  value, any one not older than what its thread has seen; it synchronises with the store it
  reads from.  What happens before what is tracked with vector clocks: a thread counts its release
  stores, every store carries the count of its thread and an acquire load adopts it.  The
  slots of the buffer are plain memory, so two accesses from different threads must be ordered
  by happens-before; if they are not, the flag \<open>race\<close> is raised and the program is undefined.
\<close>

section \<open>Atomics and threads\<close>

type_synonym index_log = "(nat \<times> nat) list"

text \<open>What a thread knows: the number of its own next release, the releases of the other thread
  that happen before, its position in the log of the other index and its private copy of it.\<close>

record view =
  own_clock :: nat
  known :: nat
  seen_at :: nat
  cached :: nat

definition acquire_load :: "nat \<Rightarrow> index_log \<Rightarrow> view \<Rightarrow> view" where
  "acquire_load j lg v = v\<lparr>known := max (known v) (snd (lg ! j)), seen_at := j, cached := fst (lg ! j)\<rparr>"

definition release_store :: "nat \<Rightarrow> view \<Rightarrow> index_log \<Rightarrow> index_log" where
  "release_store x v lg = lg @ [(x, own_clock v)]"

definition readable :: "nat \<Rightarrow> index_log \<Rightarrow> view \<Rightarrow> bool" where
  "readable j lg v \<longleftrightarrow> seen_at v \<le> j \<and> j < length lg"

record 'a ring_memory =
  m_cap :: nat
  slots :: "'a list"
  written_at :: "nat list"
  read_at :: "nat list"
  head_log :: index_log
  tail_log :: index_log
  p_view :: view
  c_view :: view
  p_at :: "'a producer"
  c_at :: "'a consumer"
  race :: bool
  pushed :: "'a list"
  popped :: "'a list"

definition own_head :: "'a ring_memory \<Rightarrow> nat" where
  "own_head s = fst (last (head_log s))"

definition own_tail :: "'a ring_memory \<Rightarrow> nat" where
  "own_tail s = fst (last (tail_log s))"

definition succ_index :: "nat \<Rightarrow> 'a ring_memory \<Rightarrow> nat" where
  "succ_index i s = (i + 1) AND (m_cap s - 1)"

definition new_memory :: "nat \<Rightarrow> 'a \<Rightarrow> 'a ring_memory" where
  "new_memory cap dflt =
     (let v = \<lparr>own_clock = 1, known = 0, seen_at = 0, cached = 0\<rparr>
      in \<lparr>m_cap = cap, slots = replicate cap dflt, written_at = replicate cap 0, read_at = replicate cap 0,
          head_log = [(0, 0)], tail_log = [(0, 0)], p_view = v, c_view = v, p_at = PIdle, c_at = CIdle,
          race = False, pushed = [], popped = []\<rparr>)"

text \<open>The plain accesses \<open>buffer_[head] = value\<close> and \<open>std::move(buffer_[tail])\<close>, and the release stores.\<close>

definition write_slot :: "'a \<Rightarrow> 'a ring_memory \<Rightarrow> 'a ring_memory" where
  "write_slot v s =
     (let i = own_head s
      in s\<lparr>race := race s \<or> known (p_view s) < read_at s ! i, slots := (slots s)[i := v],
           written_at := (written_at s)[i := own_clock (p_view s)]\<rparr>)"

definition read_slot :: "'a ring_memory \<Rightarrow> 'a \<times> 'a ring_memory" where
  "read_slot s =
     (let i = own_tail s
      in (slots s ! i, s\<lparr>race := race s \<or> known (c_view s) < written_at s ! i,
            read_at := (read_at s)[i := own_clock (c_view s)]\<rparr>))"

definition publish_head :: "'a ring_memory \<Rightarrow> 'a ring_memory" where
  "publish_head s = s\<lparr>head_log := release_store (succ_index (own_head s) s) (p_view s) (head_log s),
     p_view := (p_view s)\<lparr>own_clock := own_clock (p_view s) + 1\<rparr>\<rparr>"

definition publish_tail :: "'a ring_memory \<Rightarrow> 'a ring_memory" where
  "publish_tail s = s\<lparr>tail_log := release_store (succ_index (own_tail s) s) (c_view s) (tail_log s),
     c_view := (c_view s)\<lparr>own_clock := own_clock (c_view s) + 1\<rparr>\<rparr>"

inductive mem_step :: "'a ring_memory \<Rightarrow> 'a ring_memory \<Rightarrow> bool" where
  m_push_fast: "p_at s = PIdle \<Longrightarrow> succ_index (own_head s) s \<noteq> cached (p_view s) \<Longrightarrow>
    mem_step s (s\<lparr>p_at := PWrite v\<rparr>)"
| m_push_slow: "p_at s = PIdle \<Longrightarrow> succ_index (own_head s) s = cached (p_view s) \<Longrightarrow>
    mem_step s (s\<lparr>p_at := PRefresh v\<rparr>)"
| m_push_refresh: "p_at s = PRefresh v \<Longrightarrow> readable j (tail_log s) (p_view s) \<Longrightarrow>
    pv = acquire_load j (tail_log s) (p_view s) \<Longrightarrow>
    mem_step s (s\<lparr>p_view := pv, p_at := (if succ_index (own_head s) s = cached pv then PIdle else PWrite v)\<rparr>)"
| m_push_store: "p_at s = PWrite v \<Longrightarrow> mem_step s ((write_slot v s)\<lparr>p_at := PPublish v\<rparr>)"
| m_push_release: "p_at s = PPublish v \<Longrightarrow>
    mem_step s ((publish_head s)\<lparr>p_at := PIdle, pushed := pushed s @ [v]\<rparr>)"
| m_pop_fast: "c_at s = CIdle \<Longrightarrow> own_tail s \<noteq> cached (c_view s) \<Longrightarrow> mem_step s (s\<lparr>c_at := CRead\<rparr>)"
| m_pop_slow: "c_at s = CIdle \<Longrightarrow> own_tail s = cached (c_view s) \<Longrightarrow> mem_step s (s\<lparr>c_at := CRefresh\<rparr>)"
| m_pop_refresh: "c_at s = CRefresh \<Longrightarrow> readable j (head_log s) (c_view s) \<Longrightarrow>
    cv = acquire_load j (head_log s) (c_view s) \<Longrightarrow>
    mem_step s (s\<lparr>c_view := cv, c_at := (if own_tail s = cached cv then CIdle else CRead)\<rparr>)"
| m_pop_load: "c_at s = CRead \<Longrightarrow> read_slot s = (x, s') \<Longrightarrow> mem_step s (s'\<lparr>c_at := CAdvance x\<rparr>)"
| m_pop_release: "c_at s = CAdvance x \<Longrightarrow>
    mem_step s ((publish_tail s)\<lparr>c_at := CIdle, popped := popped s @ [x]\<rparr>)"

inductive mem_run :: "'a ring_memory \<Rightarrow> 'a ring_memory \<Rightarrow> bool" for s0 where
  mem_start: "mem_run s0 s0"
| mem_next: "mem_run s0 s \<Longrightarrow> mem_step s s' \<Longrightarrow> mem_run s0 s'"

section \<open>Invariant\<close>

text \<open>The log of an index after \<open>k\<close> release stores.\<close>

definition log_of :: "nat \<Rightarrow> nat \<Rightarrow> index_log" where
  "log_of n k = map (\<lambda>i. (i mod n, i)) [0..<k + 1]"

lemma log_of_simps [simp]:
  "length (log_of n k) = k + 1" "last (log_of n k) = (k mod n, k)" "j \<le> k \<Longrightarrow> log_of n k ! j = (j mod n, j)"
  by (auto simp: log_of_def nth_append simp del: upt_Suc) (simp add: last_map)

lemma log_of_store: "log_of n k @ [((k + 1) mod n, k + 1)] = log_of n (k + 1)"
  by (simp add: log_of_def)

text \<open>The view of a thread that has made \<open>own\<close> stores and seen \<open>other\<close> ones.\<close>

definition view_at :: "nat \<Rightarrow> nat \<Rightarrow> nat \<Rightarrow> view" where
  "view_at n own other = \<lparr>own_clock = own + 1, known = other, seen_at = other, cached = other mod n\<rparr>"

lemma view_at_simps [simp]:
  "own_clock (view_at n a b) = a + 1" "known (view_at n a b) = b" "seen_at (view_at n a b) = b"
  "cached (view_at n a b) = b mod n" "(view_at n a b)\<lparr>own_clock := c + 1\<rparr> = view_at n c b"
  by (simp_all add: view_at_def)

lemma acquire_view:
  "b \<le> j \<Longrightarrow> j \<le> k \<Longrightarrow> acquire_load j (log_of n k) (view_at n a b) = view_at n a j"
  by (simp add: acquire_load_def view_at_def)

fun pushing :: "nat \<Rightarrow> nat \<Rightarrow> nat \<Rightarrow> 'a list \<Rightarrow> nat list \<Rightarrow> 'a producer \<Rightarrow> bool" where
  "pushing n h ct xs wr (PWrite v) \<longleftrightarrow> h + 1 < ct + n"
| "pushing n h ct xs wr (PPublish v) \<longleftrightarrow> h + 1 < ct + n \<and> xs ! (h mod n) = v \<and> wr ! (h mod n) \<le> h + 1"
| "pushing n h ct xs wr _ \<longleftrightarrow> True"

fun popping :: "nat \<Rightarrow> nat \<Rightarrow> nat \<Rightarrow> 'a list \<Rightarrow> nat list \<Rightarrow> 'a consumer \<Rightarrow> bool" where
  "popping n t ch ys rd CRead \<longleftrightarrow> t < ch"
| "popping n t ch ys rd (CAdvance x) \<longleftrightarrow> t < ch \<and> x = ys ! t \<and> rd ! (t mod n) \<le> t + 1"
| "popping n t ch ys rd _ \<longleftrightarrow> True"

definition mem_at :: "nat \<Rightarrow> nat \<Rightarrow> nat \<Rightarrow> nat \<Rightarrow> nat \<Rightarrow> 'a ring_memory \<Rightarrow> bool" where
  "mem_at n h t ct ch s \<longleftrightarrow>
     (\<exists>k. n = 2 ^ k \<and> 0 < k) \<and> m_cap s = n \<and> length (slots s) = n \<and> length (written_at s) = n \<and> length (read_at s) = n
   \<and> head_log s = log_of n h \<and> tail_log s = log_of n t \<and> p_view s = view_at n h ct \<and> c_view s = view_at n t ch
   \<and> ct \<le> t \<and> t \<le> ch \<and> ch \<le> h \<and> h < ct + n
   \<and> length (pushed s) = h \<and> popped s = take t (pushed s) \<and> \<not> race s
   \<and> (\<forall>k. t \<le> k \<longrightarrow> k < h \<longrightarrow> slots s ! (k mod n) = pushed s ! k \<and> written_at s ! (k mod n) \<le> k + 1)
   \<and> (\<forall>k. h \<le> k \<longrightarrow> k < t + n \<longrightarrow> read_at s ! (k mod n) \<le> k + 1 - n)
   \<and> pushing n h ct (slots s) (written_at s) (p_at s) \<and> popping n t ch (pushed s) (read_at s) (c_at s)"

lemma mem_at_new: "0 < k \<Longrightarrow> mem_at (2 ^ k) 0 0 0 0 (new_memory (2 ^ k) d)"
  by (auto simp: mem_at_def new_memory_def Let_def log_of_def view_at_def)

lemma mem_at_own:
  assumes "mem_at n h t ct ch s"
  shows "own_head s = h mod n" "own_tail s = t mod n" "0 < n"
    "succ_index (own_head s) s = (h + 1) mod n" "succ_index (own_tail s) s = (t + 1) mod n"
    "ct \<le> j \<Longrightarrow> j \<le> t \<Longrightarrow> (h + 1) mod n = j mod n \<longleftrightarrow> h + 1 = j + n"
    "t \<le> j \<Longrightarrow> j \<le> h \<Longrightarrow> t mod n = j mod n \<longleftrightarrow> t = j"
proof -
  obtain k where n: "n = 2 ^ k" "0 < k" using assms by (auto simp: mem_at_def)
  have c: "m_cap s = n" and b: "ct \<le> t" "t \<le> ch" "ch \<le> h" "h < ct + n" using assms by (simp_all add: mem_at_def)
  have mask: "x AND (n - 1) = x mod n" for x unfolding n by (rule mask_mod)
  show own: "own_head s = h mod n" "own_tail s = t mod n" using assms by (simp_all add: mem_at_def own_head_def own_tail_def)
  show "0 < n" by (simp add: n)
  show "succ_index (own_head s) s = (h + 1) mod n" "succ_index (own_tail s) s = (t + 1) mod n"
    by (simp_all only: succ_index_def own c mask mod_add_left_eq)
  show "(h + 1) mod n = j mod n \<longleftrightarrow> h + 1 = j + n" if "ct \<le> j" "j \<le> t"
  proof
    assume "(h + 1) mod n = j mod n"
    then show "h + 1 = j + n" using mod_eq_close [of j "h + 1" n] that b by (cases "h + 1 < j + n") auto
  qed simp
  show "t mod n = j mod n \<longleftrightarrow> t = j" if "t \<le> j" "j \<le> h" using mod_eq_close [of t j n] that b by auto
qed


definition mem_inv :: "nat \<Rightarrow> 'a ring_memory \<Rightarrow> bool" where
  "mem_inv n s \<longleftrightarrow> (\<exists>h t ct ch. mem_at n h t ct ch s)"

lemma mem_invI: "mem_at n h t ct ch s \<Longrightarrow> mem_inv n s"
  by (auto simp: mem_inv_def)

text \<open>The counters are determined by the state.\<close>

lemma mem_inv_counters:
  "mem_inv n s \<Longrightarrow> mem_at n (length (pushed s)) (length (popped s)) (seen_at (p_view s)) (seen_at (c_view s)) s"
proof -
  assume "mem_inv n s"
  then obtain h t ct ch where m: "mem_at n h t ct ch s" by (auto simp: mem_inv_def)
  then have "length (pushed s) = h" "length (popped s) = t" "seen_at (p_view s) = ct" "seen_at (c_view s) = ch"
    by (auto simp: mem_at_def)
  with m show ?thesis by simp
qed

text \<open>A slot in use is not the slot of the next push, and a free slot not that of the next pop.\<close>

lemma mem_slots_apart:
  assumes "mem_at n h t ct ch s"
  shows "t \<le> k \<Longrightarrow> k < h \<Longrightarrow> k mod n \<noteq> h mod n" "t < h \<Longrightarrow> h \<le> k \<Longrightarrow> k < t + n \<Longrightarrow> k mod n \<noteq> t mod n"
proof -
  have b: "ct \<le> t" "h < ct + n" using assms by (simp_all add: mem_at_def)
  show "k mod n \<noteq> h mod n" if "t \<le> k" "k < h" using slot_free [of t k h n] that b by simp
  show "k mod n \<noteq> t mod n" if "t < h" "h \<le> k" "k < t + n" using mod_eq_close [of t k n] that by auto
qed

lemma mem_at_write:
  assumes at: "mem_at n h t ct ch s" and p: "p_at s = PWrite v"
  shows "mem_at n h t ct ch ((write_slot v s)\<lparr>p_at := PPublish v\<rparr>)"
proof -
  note own = mem_at_own [OF at] and apart = mem_slots_apart [OF at]
  have lt: "h + 1 < ct + n" "ct \<le> t" using at p by (simp_all add: mem_at_def)
  have "read_at s ! (h mod n) \<le> h + 1 - n" using at lt by (simp add: mem_at_def)
  then have nr: "\<not> ct < read_at s ! (h mod n)" using lt by linarith
  have k: "(slots s)[h mod n := v] ! (k mod n) = pushed s ! k \<and> (written_at s)[h mod n := h + 1] ! (k mod n) \<le> k + 1"
    if "t \<le> k" "k < h" for k
    using apart(1) [OF that] that at by (simp add: mem_at_def)
  show ?thesis
    using at nr k own(3) lt(1) by (simp add: mem_at_def write_slot_def Let_def own(1))
qed

lemma mem_at_publish_head:
  assumes at: "mem_at n h t ct ch s" and p: "p_at s = PPublish v"
  shows "mem_at n (h + 1) t ct ch ((publish_head s)\<lparr>p_at := PIdle, pushed := pushed s @ [v]\<rparr>)"
proof -
  note own = mem_at_own [OF at]
  have f: "h + 1 < ct + n" "slots s ! (h mod n) = v" "written_at s ! (h mod n) \<le> h + 1" "length (pushed s) = h"
    "t \<le> h" using at p by (simp_all add: mem_at_def)
  have "slots s ! (k mod n) = (pushed s @ [v]) ! k \<and> written_at s ! (k mod n) \<le> k + 1" if "t \<le> k" "k < h + 1" for k
    using that f at by (cases "k = h") (simp_all add: mem_at_def nth_append)
  moreover have "popping n t ch (pushed s @ [v]) (read_at s) (c_at s)"
    using at by (cases "c_at s") (auto simp: mem_at_def nth_append)
  moreover have "release_store ((h + 1) mod n) (view_at n h ct) (log_of n h) = log_of n (h + 1)"
    using log_of_store by (simp add: release_store_def)
  ultimately show ?thesis
    using at f(1,5) by (simp add: mem_at_def publish_head_def own(4) [simplified])
qed

lemma mem_at_read:
  assumes at: "mem_at n h t ct ch s" and c: "c_at s = CRead" and r: "read_slot s = (x, s')"
  shows "mem_at n h t ct ch (s'\<lparr>c_at := CAdvance x\<rparr>)"
proof -
  note own = mem_at_own [OF at] and apart = mem_slots_apart [OF at]
  have lt: "t < ch" "ch \<le> h" using at c by (simp_all add: mem_at_def)
  then have sl: "slots s ! (t mod n) = pushed s ! t" "written_at s ! (t mod n) \<le> t + 1" using at by (simp_all add: mem_at_def)
  then have nr: "\<not> ch < written_at s ! (t mod n)" using lt by linarith
  have k: "(read_at s)[t mod n := t + 1] ! (k mod n) \<le> k + 1 - n" if "h \<le> k" "k < t + n" for k
    using apart(2) [of k] that lt at by (simp add: mem_at_def)
  show ?thesis
    using at nr k own(3) lt(1) sl(1) r by (auto simp: mem_at_def read_slot_def Let_def own(2))
qed

lemma mem_at_publish_tail:
  assumes at: "mem_at n h t ct ch s" and c: "c_at s = CAdvance x"
  shows "mem_at n h (t + 1) ct ch ((publish_tail s)\<lparr>c_at := CIdle, popped := popped s @ [x]\<rparr>)"
proof -
  note own = mem_at_own [OF at]
  have f: "t < ch" "ch \<le> h" "x = pushed s ! t" "read_at s ! (t mod n) \<le> t + 1" "length (pushed s) = h"
    "ct \<le> t" "h < ct + n" using at c by (simp_all add: mem_at_def)
  have "read_at s ! (k mod n) \<le> k + 1 - n" if "h \<le> k" "k < t + 1 + n" for k
    using that f at by (cases "k = t + n") (simp_all add: mem_at_def)
  moreover have "take (t + 1) (pushed s) = popped s @ [x]"
    using f at by (simp add: mem_at_def take_Suc_conv_app_nth)
  moreover have "release_store ((t + 1) mod n) (view_at n t ch) (log_of n t) = log_of n (t + 1)"
    using log_of_store by (simp add: release_store_def)
  ultimately show ?thesis
    using at f(1,2,6,7) by (simp add: mem_at_def publish_tail_def own(5) [simplified])
qed

lemma mem_at_refresh_tail:
  assumes at: "mem_at n h t ct ch s" and p: "p_at s = PRefresh v" and j: "readable j (tail_log s) (p_view s)"
    and pv: "pv = acquire_load j (tail_log s) (p_view s)"
  shows "mem_at n h t j ch (s\<lparr>p_view := pv, p_at := (if succ_index (own_head s) s = cached pv then PIdle else PWrite v)\<rparr>)"
proof -
  note own = mem_at_own [OF at]
  have b: "ct \<le> j" "j \<le> t" using j at by (simp_all add: readable_def mem_at_def)
  have v: "pv = view_at n h j" using at pv acquire_view [OF b] by (simp add: mem_at_def)
  have "h + 1 \<noteq> j + n \<longrightarrow> h + 1 < j + n" using at b by (auto simp: mem_at_def)
  then have "pushing n h j (slots s) (written_at s) (if succ_index (own_head s) s = cached pv then PIdle else PWrite v)"
    using own(6) [OF b] by (simp add: v own(4) [simplified])
  then show ?thesis using at b by (simp add: mem_at_def v del: if_split)
qed

lemma mem_at_refresh_head:
  assumes at: "mem_at n h t ct ch s" and c: "c_at s = CRefresh" and j: "readable j (head_log s) (c_view s)"
    and cv: "cv = acquire_load j (head_log s) (c_view s)"
  shows "mem_at n h t ct j (s\<lparr>c_view := cv, c_at := (if own_tail s = cached cv then CIdle else CRead)\<rparr>)"
proof -
  note own = mem_at_own [OF at]
  have b: "ch \<le> j" "j \<le> h" using j at by (simp_all add: readable_def mem_at_def)
  have v: "cv = view_at n t j" using at cv acquire_view [OF b] by (simp add: mem_at_def)
  have "t \<le> j" using at b by (simp add: mem_at_def)
  then have "popping n t j (pushed s) (read_at s) (if own_tail s = cached cv then CIdle else CRead)"
    using own(7) [OF _ b(2)] by (simp add: v own(2))
  then show ?thesis using at b by (simp add: mem_at_def v del: if_split)
qed

lemma mem_inv_step: "mem_step s s' \<Longrightarrow> mem_inv n s \<Longrightarrow> mem_inv n s'"
proof (induction rule: mem_step.induct)
  case (m_push_fast s v)
  then obtain h t ct ch where at: "mem_at n h t ct ch s" by (auto simp: mem_inv_def)
  have "h + 1 \<noteq> ct + n" "h < ct + n"
    using m_push_fast at mem_at_own(4) [OF at] mem_at_own(6) [OF at, of ct] by (auto simp: mem_at_def)
  then have "mem_at n h t ct ch (s\<lparr>p_at := PWrite v\<rparr>)" using at by (simp add: mem_at_def)
  then show ?case by (rule mem_invI)
next
  case (m_pop_fast s)
  then obtain h t ct ch where at: "mem_at n h t ct ch s" by (auto simp: mem_inv_def)
  have "t \<noteq> ch" "t \<le> ch" using m_pop_fast at mem_at_own(2) [OF at] by (auto simp: mem_at_def)
  then have "mem_at n h t ct ch (s\<lparr>c_at := CRead\<rparr>)" using at by (simp add: mem_at_def)
  then show ?case by (rule mem_invI)
next
  case (m_push_slow s v)
  then obtain h t ct ch where "mem_at n h t ct ch s" by (auto simp: mem_inv_def)
  then have "mem_at n h t ct ch (s\<lparr>p_at := PRefresh v\<rparr>)" by (simp add: mem_at_def)
  then show ?case by (rule mem_invI)
next
  case (m_pop_slow s)
  then obtain h t ct ch where "mem_at n h t ct ch s" by (auto simp: mem_inv_def)
  then have "mem_at n h t ct ch (s\<lparr>c_at := CRefresh\<rparr>)" by (simp add: mem_at_def)
  then show ?case by (rule mem_invI)
next
  case (m_push_refresh s v j pv)
  show ?case by (rule mem_invI [OF mem_at_refresh_tail [OF mem_inv_counters]]) (rule m_push_refresh)+
next
  case (m_push_store s v)
  show ?case by (rule mem_invI [OF mem_at_write [OF mem_inv_counters]]) (rule m_push_store)+
next
  case (m_push_release s v)
  show ?case by (rule mem_invI [OF mem_at_publish_head [OF mem_inv_counters]]) (rule m_push_release)+
next
  case (m_pop_refresh s j cv)
  show ?case by (rule mem_invI [OF mem_at_refresh_head [OF mem_inv_counters]]) (rule m_pop_refresh)+
next
  case (m_pop_load s x s')
  show ?case by (rule mem_invI [OF mem_at_read [OF mem_inv_counters]]) (rule m_pop_load)+
next
  case (m_pop_release s x)
  show ?case by (rule mem_invI [OF mem_at_publish_tail [OF mem_inv_counters]]) (rule m_pop_release)+
qed

lemma mem_run_inv: "mem_run s0 s \<Longrightarrow> mem_inv n s0 \<Longrightarrow> mem_inv n s"
  by (induction rule: mem_run.induct) (auto intro: mem_inv_step)

section \<open>Properties\<close>

text \<open>C20: The acquire and release orders of the ring buffer are sufficient.  In every execution the
  release/acquire model allows, with any stale values of the other thread's index, no slot is
  accessed without being ordered after the last access of the other thread, the elements popped
  are a prefix of those pushed, at most \<open>capacity()\<close> wait, and a push or pop that fails has read an
  index at which the buffer was full or empty.\<close>

theorem release_acquire_suffices:
  assumes "0 < k" "mem_run (new_memory (2 ^ k) d) s"
  shows "\<not> race s \<and> prefix (popped s) (pushed s) \<and> length (pushed s) \<le> length (popped s) + (2 ^ k - 1)
    \<and> (\<forall>j. readable j (tail_log s) (p_view s) \<and> succ_index (own_head s) s = cached (acquire_load j (tail_log s) (p_view s))
         \<longrightarrow> j \<le> length (popped s) \<and> length (pushed s) = j + (2 ^ k - 1))
    \<and> (\<forall>j. readable j (head_log s) (c_view s) \<and> own_tail s = cached (acquire_load j (head_log s) (c_view s))
         \<longrightarrow> j \<le> length (pushed s) \<and> length (popped s) = j)"
proof -
  let ?h = "length (pushed s)" and ?t = "length (popped s)" and ?ct = "seen_at (p_view s)" and ?ch = "seen_at (c_view s)"
  have "mem_inv (2 ^ k) s" by (rule mem_run_inv [OF assms(2) mem_invI [OF mem_at_new [OF assms(1)]]])
  then have at: "mem_at (2 ^ k) ?h ?t ?ct ?ch s" by (rule mem_inv_counters)
  note own = mem_at_own [OF at]
  have b: "?ct \<le> ?t" "?t \<le> ?ch" "?ch \<le> ?h" "?h < ?ct + 2 ^ k" using at by (simp_all add: mem_at_def)
  have logs: "tail_log s = log_of (2 ^ k) ?t" "head_log s = log_of (2 ^ k) ?h" using at by (simp_all add: mem_at_def)
  have "\<not> race s" "popped s = take ?t (pushed s)" using at by (simp_all add: mem_at_def)
  moreover have "prefix (popped s) (pushed s)" by (metis \<open>popped s = take ?t (pushed s)\<close> take_is_prefix)
  moreover have "j \<le> ?t \<and> ?h = j + (2 ^ k - 1)"
    if r: "readable j (tail_log s) (p_view s)" "succ_index (own_head s) s = cached (acquire_load j (tail_log s) (p_view s))" for j
  proof -
    have j: "?ct \<le> j" "j \<le> ?t" using r(1) at by (simp_all add: readable_def mem_at_def)
    then have "cached (acquire_load j (tail_log s) (p_view s)) = j mod 2 ^ k" using logs by (simp add: acquire_load_def)
    then have "?h + 1 = j + 2 ^ k" using r(2) own(6) [OF j] own(4) by simp
    then show ?thesis using j by simp
  qed
  moreover have "j \<le> ?h \<and> ?t = j"
    if r: "readable j (head_log s) (c_view s)" "own_tail s = cached (acquire_load j (head_log s) (c_view s))" for j
  proof -
    have j: "?ch \<le> j" "j \<le> ?h" "?t \<le> j" using r(1) at by (auto simp: readable_def mem_at_def)
    then have "cached (acquire_load j (head_log s) (c_view s)) = j mod 2 ^ k" using logs by (simp add: acquire_load_def)
    then show ?thesis using r(2) own(7) [OF j(3,2)] own(2) j by simp
  qed
  ultimately show ?thesis using b by auto
qed

text \<open>An element crosses although the first load of the consumer returns the old head.\<close>

theorem release_acquire_suffices_witness:
  "\<exists>s. mem_run (new_memory (2 ^ 1) 0) s \<and> pushed s = [5 :: nat] \<and> popped s = [5] \<and> \<not> race s"
proof -
  define s0 where "s0 = new_memory (2 ^ 1) (0 :: nat)"
  define s1 where "s1 = s0\<lparr>p_at := PWrite 5\<rparr>"
  define s2 where "s2 = (write_slot 5 s1)\<lparr>p_at := PPublish 5\<rparr>"
  define s3 where "s3 = (publish_head s2)\<lparr>p_at := PIdle, pushed := pushed s2 @ [5]\<rparr>"
  define s4 where "s4 = s3\<lparr>c_at := CRefresh\<rparr>"
  define s5 where "s5 = s4\<lparr>c_view := acquire_load 0 (head_log s4) (c_view s4), c_at := CIdle\<rparr>"
  define s6 where "s6 = s5\<lparr>c_at := CRefresh\<rparr>"
  define s7 where "s7 = s6\<lparr>c_view := acquire_load 1 (head_log s6) (c_view s6), c_at := CRead\<rparr>"
  define s8 where "s8 = (snd (read_slot s7))\<lparr>c_at := CAdvance 5\<rparr>"
  define s9 where "s9 = (publish_tail s8)\<lparr>c_at := CIdle, popped := popped s8 @ [5]\<rparr>"
  note ev = s0_def s1_def s2_def s3_def s4_def s5_def s6_def s7_def s8_def s9_def new_memory_def write_slot_def
    read_slot_def publish_head_def publish_tail_def acquire_load_def release_store_def succ_index_def own_head_def
    own_tail_def Let_def
  have "mem_step s0 s1" unfolding s1_def by (rule m_push_fast) (simp_all add: ev)
  moreover have "mem_step s1 s2" unfolding s2_def by (rule m_push_store) (simp add: ev)
  moreover have "mem_step s2 s3" unfolding s3_def by (rule m_push_release) (simp add: ev)
  moreover have "mem_step s3 s4" unfolding s4_def by (rule m_pop_slow) (simp_all add: ev)
  moreover have "mem_step s4 s5"
    using m_pop_refresh [OF _ _ refl, of s4 0] by (simp add: ev readable_def)
  moreover have "mem_step s5 s6" unfolding s6_def by (rule m_pop_slow) (simp_all add: ev)
  moreover have "mem_step s6 s7"
    using m_pop_refresh [OF _ _ refl, of s6 1] by (simp add: ev readable_def)
  moreover have "mem_step s7 s8" unfolding s8_def by (rule m_pop_load) (simp_all add: ev)
  moreover have "mem_step s8 s9" unfolding s9_def by (rule m_pop_release) (simp add: ev)
  ultimately have run: "mem_run (new_memory (2 ^ 1) 0) s9"
    using mem_run.mem_start [of s0] unfolding s0_def by (meson mem_run.mem_next)
  have "\<not> race s9" using release_acquire_suffices [OF zero_less_one run] by blast
  moreover have "pushed s9 = [5]" "popped s9 = [5]" by (simp_all add: ev)
  ultimately show ?thesis using run by blast
qed

end
