(* ===== verification/Pnl_Accuracy.thy ===== *)
theory Pnl_Accuracy
  imports Portfolio
begin

text \<open>
  How far the P\&L of \<open>src/portfolio/portfolio.hpp\<close>, kept in doubles with weighted average cost, can be
  from the exact one.  The reference is the cash account: what was paid and received for all fills,
  in exact decimal prices, plus the position at the mark.  Position times average cost is carried
  over exactly by every branch of \<open>on_fill\<close>, so only roundings separate the two.
\<close>

section \<open>Absolute rounding errors\<close>

lemma rnd_rat_abs_error:
  assumes "\<bar>x\<bar> \<le> M" "two_pow (- 1022) \<le> M"
  shows "\<bar>rnd_rat x - x\<bar> \<le> M * two_pow (- 53)"
proof -
  consider "x = 0" | "two_pow (- 1022) \<le> \<bar>x\<bar>" | "x \<noteq> 0" "\<bar>x\<bar> < two_pow (- 1022)" by linarith
  then show ?thesis
  proof cases
    case 1
    then show ?thesis using assms by simp
  next
    case 2
    have "\<bar>x\<bar> * two_pow (- 53) \<le> M * two_pow (- 53)" using assms(1) by simp
    then show ?thesis using rnd_rat_rel_error [OF 2] by linarith
  next
    case 3
    then have "ulp_exp x = - 1074" by (simp add: ulp_exp_def ilog2_less_iff [symmetric])
    then have "\<bar>rnd_rat x - x\<bar> \<le> two_pow (- 1022) * two_pow (- 53)"
      using rnd_rat_error [of x] by (simp add: two_pow_def)
    also have "\<dots> \<le> M * two_pow (- 53)" using assms(2) by simp
    finally show ?thesis .
  qed
qed

lemma is_fp_scaled: "\<bar>n\<bar> \<le> 2 ^ 53 \<Longrightarrow> - 1074 \<le> e \<Longrightarrow> is_fp (of_int n * two_pow e)"
  unfolding is_fp_def by blast

text \<open>A rounded operation whose exact result is within \<open>n\<close> times a power of two.\<close>

lemma rnd_within:
  assumes "\<bar>x\<bar> \<le> of_int n * two_pow k" "1 \<le> n" "n \<le> 2 ^ 53" "0 \<le> k" "k \<le> 100"
  shows "rnd x = Fin (rnd_rat x)" "\<bar>rnd_rat x\<bar> \<le> of_int n * two_pow k"
    "\<bar>rnd_rat x - x\<bar> \<le> of_int n * two_pow k * two_pow (- 53)"
proof -
  have "of_int n * two_pow k \<le> two_pow 53 * two_pow 100"
    using assms(2-5) of_int_le_iff [of n "2 ^ 53", where ?'a = rat]
    by (intro mult_mono) (simp_all add: two_pow_def [of 53])
  then have "\<bar>x\<bar> \<le> two_pow 153" using assms(1) by (simp flip: two_pow_add)
  then show "rnd x = Fin (rnd_rat x)" by (rule rnd_Fin_le) simp
  have fp: "is_fp (of_int n * two_pow k)" "is_fp (- (of_int n * two_pow k))"
    using assms by (auto intro!: is_fp_scaled is_fp_minus)
  show "\<bar>rnd_rat x\<bar> \<le> of_int n * two_pow k"
    using rnd_rat_le_fp [OF _ fp(1), of x] rnd_rat_ge_fp [OF _ fp(2), of x] assms(1) by (auto simp: abs_le_iff)
  have "two_pow (- 1022) \<le> 1 * two_pow k" using assms(4) by simp
  also have "\<dots> \<le> of_int n * two_pow k" using assms(2) by (intro mult_right_mono) simp_all
  finally show "\<bar>rnd_rat x - x\<bar> \<le> of_int n * two_pow k * two_pow (- 53)"
    by (rule rnd_rat_abs_error [OF assms(1)])
qed

lemma abs_mult_le: "\<bar>a\<bar> \<le> A \<Longrightarrow> \<bar>b\<bar> \<le> B \<Longrightarrow> \<bar>a * b\<bar> \<le> A * (B :: rat)"
  unfolding abs_mult by (intro mult_mono) auto

lemma abs_of_int_le: "\<bar>i\<bar> \<le> n \<Longrightarrow> \<bar>of_int i :: rat\<bar> \<le> of_int n"
  by (simp flip: of_int_abs)

section \<open>One fill\<close>

text \<open>\<open>unit_error n k\<close> is the largest error of one rounding of a number up to \<open>n * 2^k\<close>.\<close>

definition unit_error :: "int \<Rightarrow> int \<Rightarrow> rat" where
  "unit_error n k = of_int n * two_pow k * two_pow (- 53)"

lemma unit_error_mono: "m \<le> n \<Longrightarrow> unit_error m k \<le> unit_error n k"
  by (simp add: unit_error_def)

lemma unit_error_double: "unit_error n (k + 1) = 2 * unit_error n k"
  by (simp add: unit_error_def two_pow_Suc)

lemma to_double_error:
  assumes "\<bar>of_int (ticks px)\<bar> \<le> 10000 * two_pow k" "0 \<le> k" "k \<le> 39"
  obtains x where "to_double px = Fin x" "\<bar>x\<bar> \<le> two_pow k" "\<bar>x - of_int (ticks px) / 10000\<bar> \<le> unit_error 1 k"
proof -
  have "(10000 :: rat) * two_pow k \<le> 10000 * two_pow 39" using assms(3) by simp
  also have "\<dots> \<le> of_int (2 ^ 53)" by (simp add: two_pow_def)
  finally have "\<bar>of_int (ticks px) :: rat\<bar> \<le> of_int (2 ^ 53)" using assms(1) by linarith
  then have t: "\<bar>ticks px\<bar> \<le> 2 ^ 53" by (simp only: of_int_le_iff flip: of_int_abs)
  have b: "\<bar>of_int (ticks px) / 10000 :: rat\<bar> \<le> of_int 1 * two_pow k" using assms(1) by simp
  show thesis
    using that [OF to_double_exact_arg [OF t]] rnd_within(2,3) [OF b _ _ assms(2)] assms(3)
    by (simp add: unit_error_def)
qed

lemma extend_error:
  assumes "avg_entry_price st = Fin a" "\<bar>a\<bar> \<le> two_pow k" "\<bar>x\<bar> \<le> two_pow k" "0 \<le> k" "k \<le> 39"
    and f: "f \<noteq> 0" "position st = 0 \<or> (0 < position st) = (0 < f)" "\<bar>position st\<bar> + \<bar>f\<bar> \<le> 2 ^ 53"
  obtains a' where "avg_entry_price (extend_position (Fin (of_int f)) (Fin x) st) = Fin a'" "\<bar>a'\<bar> \<le> two_pow k"
    "\<bar>of_int (position st + f) * a' - (of_int (position st) * a + of_int f * x)\<bar>
       \<le> 4 * unit_error (\<bar>position st\<bar> + \<bar>f\<bar>) k"
proof -
  let ?q = "position st" and ?n = "\<bar>position st\<bar> + \<bar>f\<bar>" and ?P = "two_pow k"
  let ?E = "unit_error ?n k"
  have n: "1 \<le> ?n" "?n \<le> 2 ^ 53" "?n = \<bar>?q + f\<bar>" "?q + f \<noteq> 0" using f by auto
  note w = rnd_within [OF _ n(1,2) assms(4)]
  define A where "A = rnd_rat (of_int ?q * a)"
  define F where "F = rnd_rat (of_int f * x)"
  define S where "S = rnd_rat (A + F)"
  define a' where "a' = rnd_rat (S / of_int (?q + f))"
  have part: "rnd (of_int i * y) = Fin (rnd_rat (of_int i * y)) \<and> \<bar>rnd_rat (of_int i * y)\<bar> \<le> of_int \<bar>i\<bar> * ?P
      \<and> \<bar>rnd_rat (of_int i * y) - of_int i * y\<bar> \<le> ?E" if "\<bar>y\<bar> \<le> ?P" "\<bar>i\<bar> \<le> ?n" for i y
  proof (cases "i = 0")
    case False
    have b: "\<bar>of_int i * y\<bar> \<le> of_int \<bar>i\<bar> * ?P" using that(1) by (intro abs_mult_le) simp_all
    have i: "1 \<le> \<bar>i\<bar>" "\<bar>i\<bar> \<le> 2 ^ 53" using False that(2) n(2) by linarith+
    have "\<bar>rnd_rat (of_int i * y) - of_int i * y\<bar> \<le> unit_error \<bar>i\<bar> k"
      using rnd_within(3) [OF b i assms(4)] assms(5) by (simp add: unit_error_def)
    then show ?thesis
      using rnd_within(1,2) [OF b i assms(4)] unit_error_mono [OF that(2), of k] assms(5) by simp
  qed (simp add: unit_error_def)
  have A: "rnd (of_int ?q * a) = Fin A" "\<bar>A\<bar> \<le> of_int \<bar>?q\<bar> * ?P" "\<bar>A - of_int ?q * a\<bar> \<le> ?E"
    using part [OF assms(2), of ?q] by (simp_all add: A_def)
  have F: "rnd (of_int f * x) = Fin F" "\<bar>F\<bar> \<le> of_int \<bar>f\<bar> * ?P" "\<bar>F - of_int f * x\<bar> \<le> ?E"
    using part [OF assms(3), of f] by (simp_all add: F_def)
  have "\<bar>A + F\<bar> \<le> of_int ?n * ?P" using A(2) F(2) by (simp add: distrib_right)
  then have S: "rnd (A + F) = Fin S" "\<bar>S\<bar> \<le> of_int ?n * ?P" "\<bar>S - (A + F)\<bar> \<le> ?E"
    using w [of "A + F"] assms(5) by (simp_all add: S_def unit_error_def)
  have "\<bar>S / of_int (?q + f)\<bar> \<le> of_int 1 * ?P"
    using S(2) n(3,4) by (simp add: pos_divide_le_eq mult.commute del: of_int_add flip: of_int_abs)
  then have a': "rnd (S / of_int (?q + f)) = Fin a'" "\<bar>a'\<bar> \<le> ?P" "\<bar>a' - S / of_int (?q + f)\<bar> \<le> unit_error 1 k"
    using rnd_within [of "S / of_int (?q + f)" 1 k] assms(4,5) by (simp_all add: a'_def unit_error_def)
  have "\<bar>of_int (?q + f) * (a' - S / of_int (?q + f))\<bar> \<le> of_int ?n * unit_error 1 k"
    using a'(3) n(3) by (intro abs_mult_le) (simp_all flip: of_int_abs)
  then have "\<bar>of_int (?q + f) * a' - S\<bar> \<le> ?E" using n(4) by (simp add: right_diff_distrib unit_error_def del: of_int_add)
  then have "\<bar>of_int (?q + f) * a' - (of_int ?q * a + of_int f * x)\<bar> \<le> 4 * ?E"
    using A(3) F(3) S(3) by linarith
  moreover have "rnd (of_int ?q + of_int f) = Fin (of_int (?q + f))"
    using rnd_of_int [of "?q + f"] n by simp
  then have "avg_entry_price (extend_position (Fin (of_int f)) (Fin x) st) = Fin a'"
    using A(1) F(1) S(1) a'(1) n(2,4) assms(1) by (simp add: extend_position_def d_of_int_exact flip: of_int_add)
  ultimately show thesis using that a'(2) by blast
qed

text \<open>The part of a fill that closes a position: its profit, and how it reaches the realised P\&L.
  \<open>g\<close> is the sign of the position, \<open>c\<close> the quantity closed.\<close>

lemma realize_error:
  fixes r a x :: rat
  assumes "\<bar>a\<bar> \<le> two_pow k" "\<bar>x\<bar> \<le> two_pow k" "0 \<le> k" "k \<le> 39" "g = 1 \<or> g = - 1"
    and "0 < c" "0 \<le> v" "v + c \<le> 2 ^ 53" "\<bar>r\<bar> \<le> 2 * of_int v * two_pow k"
  obtains r' where "dadd (Fin r) (dmul (dmul (Fin (of_int c)) (dsub (Fin x) (Fin a))) (Fin g)) = Fin r'"
    "\<bar>r'\<bar> \<le> 2 * of_int (v + c) * two_pow k"
    "\<bar>r' - (r + g * (of_int c * (x - a)))\<bar> \<le> 6 * unit_error (v + c) k"
proof -
  let ?E = "unit_error (v + c) k"
  have P: "two_pow (k + 1) = 2 * two_pow k" by (simp add: two_pow_Suc)
  have c: "1 \<le> c" "c \<le> 2 ^ 53" using assms(6-8) by linarith+
  define D where "D = rnd_rat (x - a)"
  define M where "M = rnd_rat (of_int c * D)"
  define r' where "r' = rnd_rat (r + M * g)"
  have "\<bar>x - a\<bar> \<le> of_int 1 * two_pow (k + 1)" using assms(1,2) P by simp
  note D0 = rnd_within [OF this, simplified]
  have D: "rnd (x - a) = Fin D" "\<bar>D\<bar> \<le> two_pow (k + 1)" "\<bar>D - (x - a)\<bar> \<le> 2 * unit_error 1 k"
    using D0 assms(3,4) by (simp_all add: D_def unit_error_def P)
  have "\<bar>of_int c * D\<bar> \<le> of_int c * two_pow (k + 1)" using D(2) c by (intro abs_mult_le) simp_all
  note M0 = rnd_within [OF this c]
  have M: "rnd (of_int c * D) = Fin M" "\<bar>M\<bar> \<le> of_int c * two_pow (k + 1)" "\<bar>M - of_int c * D\<bar> \<le> 2 * unit_error c k"
    using M0 assms(3,4) by (simp_all add: M_def unit_error_def P)
  have "\<bar>of_int c * (D - (x - a))\<bar> \<le> of_int c * (2 * unit_error 1 k)" using D(3) c by (intro abs_mult_le) simp_all
  then have cD: "\<bar>of_int c * D - of_int c * (x - a)\<bar> \<le> 2 * unit_error c k"
    by (simp add: right_diff_distrib unit_error_def)
  have "\<bar>M * g\<bar> < two_pow 1024"
  proof -
    have "of_int c * two_pow (k + 1) \<le> two_pow 53 * two_pow 40"
      using c assms(4) of_int_le_iff [of c "2 ^ 53", where ?'a = rat] by (intro mult_mono) (simp_all add: two_pow_def [of 53])
    then have "\<bar>M\<bar> \<le> two_pow 93" using M(2) by (simp flip: two_pow_add)
    then have "\<bar>M\<bar> < two_pow 1024" by (rule order_le_less_trans) simp
    then show ?thesis using assms(5) by auto
  qed
  then have Mg: "rnd (M * g) = Fin (M * g)"
    using assms(5) is_fp_rnd_rat [of "of_int c * D"] unfolding M_def [symmetric] by (intro rnd_fp) (auto intro: is_fp_minus)
  have g: "\<bar>M * g\<bar> = \<bar>M\<bar>" using assms(5) by auto
  have "\<bar>r + M * g\<bar> \<le> of_int (v + c) * two_pow (k + 1)"
    using M(2) assms(9) g by (simp add: P distrib_right)
  note R0 = rnd_within [OF this _ assms(8)]
  have R: "rnd (r + M * g) = Fin r'" "\<bar>r'\<bar> \<le> 2 * of_int (v + c) * two_pow k" "\<bar>r' - (r + M * g)\<bar> \<le> 2 * ?E"
    using R0 assms(3,4,6,7) by (simp_all add: r'_def unit_error_def P P [unfolded add.commute [of k]] algebra_simps)
  have "unit_error c k \<le> ?E" using assms(7) by (intro unit_error_mono) simp
  then have "\<bar>M - of_int c * (x - a)\<bar> \<le> 4 * ?E" using M(3) cD by linarith
  then have "\<bar>M * g - g * (of_int c * (x - a))\<bar> \<le> 4 * ?E" using assms(5) by auto
  then have "\<bar>r' - (r + g * (of_int c * (x - a)))\<bar> \<le> 6 * ?E" using R(3) by linarith
  with R(1,2) show thesis using that by (simp add: D(1) M(1) Mg)
qed

lemma reduce_eq:
  assumes "avg_entry_price st = Fin a" "realized_pnl st = Fin r" "\<bar>position st\<bar> \<le> 2 ^ 53" "\<bar>f\<bar> \<le> 2 ^ 53"
    "\<bar>position st + f\<bar> \<le> 2 ^ 53" "position st \<noteq> 0" "(0 < position st) \<noteq> (0 < f)"
  defines "Q \<equiv> position st" and "g \<equiv> if 0 < position st then 1 else - 1 :: rat"
  shows "realized_pnl (reduce_position (Fin (of_int f)) (Fin x) st) =
      dadd (Fin r) (dmul (dmul (Fin (of_int (min \<bar>f\<bar> \<bar>Q\<bar>))) (dsub (Fin x) (Fin a))) (Fin g))"
    "avg_entry_price (reduce_position (Fin (of_int f)) (Fin x) st) =
      Fin (if Q + f = 0 then 0 else if \<bar>f\<bar> \<le> \<bar>Q\<bar> then a else x)"
proof -
  let ?st = "reduce_position (Fin (of_int f)) (Fin x) st"
  have m: "dmin (dabs (Fin (of_int f))) (dabs (d_of_int (position st))) = Fin (of_int (min \<bar>f\<bar> \<bar>Q\<bar>))"
    using assms(3) by (simp add: d_of_int_exact dmin_def min_def Q_def flip: of_int_abs)
  have n: "d_to_int64 (dadd (d_of_int (position st)) (Fin (of_int f))) = Q + f"
    using cast_sum_exact [OF assms(5)] assms(3) by (simp add: d_of_int_exact Q_def)
  have g: "d_of_int (if 0 < position st then 1 else - 1) = Fin g" by (simp add: g_def d_of_int_exact)
  note eq = reduce_position_def Let_def
  show "realized_pnl ?st = dadd (Fin r) (dmul (dmul (Fin (of_int (min \<bar>f\<bar> \<bar>Q\<bar>))) (dsub (Fin x) (Fin a))) (Fin g))"
    unfolding eq m n g by (simp add: assms(1,2))
  show "avg_entry_price ?st = Fin (if Q + f = 0 then 0 else if \<bar>f\<bar> \<le> \<bar>Q\<bar> then a else x)"
    unfolding eq m n g using assms(1,6,7) by (auto simp: Q_def)
qed

text \<open>Two errors add up.\<close>

lemma error_chain:
  fixes r R W T F G A B :: rat
  shows "\<bar>r - R\<bar> \<le> A \<Longrightarrow> R - W = T - F \<Longrightarrow> \<bar>F - G\<bar> \<le> B \<Longrightarrow> \<bar>(r - W) - (T - G)\<bar> \<le> A + B"
  by linarith

lemma fill_error:
  fixes s :: side
  assumes "avg_entry_price (pf_state p) = Fin a" "realized_pnl (pf_state p) = Fin r"
    and "\<bar>a\<bar> \<le> two_pow k" "\<bar>r\<bar> \<le> 2 * of_int v * two_pow k" "0 \<le> k" "k \<le> 39"
    and "\<bar>position (pf_state p)\<bar> \<le> v" "0 < q" "v + q \<le> 2 ^ 53"
    and "\<bar>of_int (ticks px)\<bar> \<le> 10000 * two_pow k"
  defines "Q \<equiv> position (pf_state p)" and "f \<equiv> signed_qty s q"
  obtains a' r' where "avg_entry_price (pf_state (on_fill s px q p)) = Fin a'"
    "realized_pnl (pf_state (on_fill s px q p)) = Fin r'" "\<bar>a'\<bar> \<le> two_pow k"
    "\<bar>r'\<bar> \<le> 2 * of_int (v + q) * two_pow k"
    "\<bar>(r' - of_int (Q + f) * a') - (r - of_int Q * a - of_int f * (of_int (ticks px) / 10000))\<bar>
       \<le> 7 * unit_error (v + q) k"
proof -
  let ?X = "of_int (ticks px) / 10000 :: rat" and ?E = "unit_error (v + q) k"
  obtain x where x: "to_double px = Fin x" "\<bar>x\<bar> \<le> two_pow k" "\<bar>x - ?X\<bar> \<le> unit_error 1 k"
    using to_double_error [OF assms(10,5,6)] .
  have f: "f \<noteq> 0" "\<bar>f\<bar> = q" using assms(8) by (auto simp: f_def signed_qty_def)
  have "\<bar>of_int f * (x - ?X)\<bar> \<le> of_int q * unit_error 1 k"
    using x(3) f(2) by (intro abs_mult_le abs_of_int_le) simp_all
  then have "\<bar>of_int f * x - of_int f * ?X\<bar> \<le> unit_error q k"
    by (simp add: right_diff_distrib unit_error_def mult.assoc)
  moreover have v: "unit_error q k \<le> ?E" "0 \<le> v" using assms(7) by (auto intro: unit_error_mono)
  ultimately have fx: "\<bar>of_int f * x - of_int f * ?X\<bar> \<le> ?E" by linarith
  have sf: "(if s = Buy then d_of_int q else dneg (d_of_int q)) = Fin (of_int f)"
    unfolding f_def using assms(8,9) v(2) by (intro signed_fill_exact) simp
  define st where "st = (pf_state p)\<lparr>total_volume_traded := total_volume_traded (pf_state p) + q,
    turnover := dadd (turnover (pf_state p)) (dmul (d_of_int q) (to_double px))\<rparr>"
  have st: "position st = Q" "avg_entry_price st = Fin a" "realized_pnl st = Fin r"
    by (simp_all add: st_def Q_def assms(1,2))
  have new: "pf_state (on_fill s px q p) = (if Q = 0 \<or> (0 < Q) = (0 < f)
      then extend_position (Fin (of_int f)) (Fin x) st else reduce_position (Fin (of_int f)) (Fin x) st)"
    unfolding on_fill_def Let_def sf st_def [symmetric] st record_history_def by (simp add: x(1))
  have sum: "\<bar>Q\<bar> + \<bar>f\<bar> \<le> v + q" "\<bar>Q\<bar> \<le> v" using assms(7) f(2) by (simp_all add: Q_def)
  show thesis
  proof (cases "Q = 0 \<or> (0 < Q) = (0 < f)")
    case True
    obtain a' where a': "avg_entry_price (extend_position (Fin (of_int f)) (Fin x) st) = Fin a'" "\<bar>a'\<bar> \<le> two_pow k"
      "\<bar>of_int (Q + f) * a' - (of_int Q * a + of_int f * x)\<bar> \<le> 4 * unit_error (\<bar>Q\<bar> + \<bar>f\<bar>) k"
      using extend_error [OF st(2) assms(3) x(2) assms(5,6) f(1)] True sum(1) assms(9) unfolding st by auto
    have "unit_error (\<bar>Q\<bar> + \<bar>f\<bar>) k \<le> ?E" using sum(1) by (rule unit_error_mono)
    then have "\<bar>(r - of_int (Q + f) * a') - (r - of_int Q * a - of_int f * ?X)\<bar> \<le> 7 * ?E"
      using a'(3) fx by linarith
    moreover have "realized_pnl (extend_position (Fin (of_int f)) (Fin x) st) = Fin r"
      by (simp add: extend_position_def Let_def st)
    moreover have "2 * of_int v * two_pow k \<le> 2 * of_int (v + q) * two_pow k"
      using assms(8) by (intro mult_right_mono) simp_all
    then have "\<bar>r\<bar> \<le> 2 * of_int (v + q) * two_pow k" using assms(4) by linarith
    ultimately show thesis
      using a'(1,2) True by (intro that [of a' r]) (simp_all add: new del: of_int_add)
  next
    case False
    let ?c = "min \<bar>f\<bar> \<bar>Q\<bar>" and ?g = "if 0 < Q then 1 else - 1 :: rat"
    let ?a = "if Q + f = 0 then 0 else if \<bar>f\<bar> \<le> \<bar>Q\<bar> then a else x"
    have g: "?g = 1 \<or> ?g = - 1" by simp
    have c: "0 < ?c" "v + ?c \<le> 2 ^ 53" "v + ?c \<le> v + q" using False f assms(9) by auto
    have bounds: "\<bar>position st\<bar> \<le> 2 ^ 53" "\<bar>f\<bar> \<le> 2 ^ 53" "\<bar>position st + f\<bar> \<le> 2 ^ 53" "position st \<noteq> 0"
        "(0 < position st) \<noteq> (0 < f)"
      using False sum assms(9) f unfolding st by linarith+
    note red = reduce_eq [OF st(2,3) bounds, of x, unfolded st(1)]
    obtain r' where r': "dadd (Fin r) (dmul (dmul (Fin (of_int ?c)) (dsub (Fin x) (Fin a))) (Fin ?g)) = Fin r'"
      "\<bar>r'\<bar> \<le> 2 * of_int (v + ?c) * two_pow k"
      "\<bar>r' - (r + ?g * (of_int ?c * (x - a)))\<bar> \<le> 6 * unit_error (v + ?c) k"
      by (rule realize_error [OF assms(3) x(2) assms(5,6) g c(1) v(2) c(2) assms(4)])
    have gf: "?g * of_int \<bar>f\<bar> = - of_int f" "?g * of_int \<bar>Q\<bar> = of_int Q"
      using bounds(4,5) f(1) unfolding st by (auto simp: abs_if)
    have eq: "r + ?g * of_int ?c * (x - a) - of_int (Q + f) * ?a = r - of_int Q * a - of_int f * x"
    proof (cases "\<bar>f\<bar> \<le> \<bar>Q\<bar>")
      case True
      then have "?c = \<bar>f\<bar>" by simp
      moreover have "of_int (Q + f) * ?a = of_int (Q + f) * a" using True by simp
      ultimately show ?thesis by (simp only: gf of_int_add) (simp add: algebra_simps)
    next
      case False
      then have "?c = \<bar>Q\<bar>" by simp
      moreover have "of_int (Q + f) * ?a = of_int (Q + f) * x" using False by simp
      ultimately show ?thesis by (simp only: gf of_int_add) (simp add: algebra_simps)
    qed
    have "6 * unit_error (v + ?c) k + ?E \<le> 7 * ?E" using unit_error_mono [OF c(3), of k] by simp
    then have err: "\<bar>(r' - of_int (Q + f) * ?a) - (r - of_int Q * a - of_int f * ?X)\<bar> \<le> 7 * ?E"
      by (rule order_trans [OF error_chain [OF r'(3) [folded mult.assoc] eq fx]])
    have "2 * of_int (v + ?c) * two_pow k \<le> 2 * of_int (v + q) * two_pow k"
      using c(3) by (intro mult_right_mono mult_left_mono) simp_all
    then have small: "\<bar>r'\<bar> \<le> 2 * of_int (v + q) * two_pow k" using r'(2) by linarith
    have a: "\<bar>?a\<bar> \<le> two_pow k" using assms(3) x(2) by simp
    show thesis
      by (rule that [of ?a r', OF _ _ a small err]) (simp_all only: new if_not_P [OF False] red r'(1))
  qed
qed

section \<open>Any number of fills\<close>

text \<open>The cash account in dollars: paid for what was bought, received for what was sold.\<close>

fun cash :: "fill list \<Rightarrow> rat" where
  "cash [] = 0"
| "cash ((s, px, q) # fs) = cash fs - of_int (signed_qty s q) * (of_int (ticks px) / 10000)"

text \<open>A fill of positive size at a price of at most \<open>2^k\<close> dollars.\<close>

fun modest_fill :: "int \<Rightarrow> fill \<Rightarrow> bool" where
  "modest_fill k (s, px, q) \<longleftrightarrow> 0 < q \<and> \<bar>of_int (ticks px)\<bar> \<le> 10000 * two_pow k"

lemma fills_snoc [simp]:
  "cash (fs @ [(s, px, q)]) = cash fs - of_int (signed_qty s q) * (of_int (ticks px) / 10000)"
  "net_qty (fs @ [(s, px, q)]) = net_qty fs + signed_qty s q"
  "total_qty (fs @ [(s, px, q)]) = total_qty fs + q"
  by (induction fs rule: cash.induct) simp_all

lemma fills_sizes: "\<forall>f\<in>set fs. modest_fill k f \<Longrightarrow> 0 \<le> total_qty fs \<and> \<bar>net_qty fs\<bar> \<le> total_qty fs"
  by (induction fs rule: cash.induct) (auto simp: signed_qty_def)

lemma apply_fill_tuple: "apply_fill (s, px, q) p = on_fill s px q p"
  by (simp add: apply_fill_def)

lemma modest_nonneg: "modest_fill k f \<Longrightarrow> 0 \<le> snd (snd f)"
  by (cases f) simp

text \<open>The books of a portfolio: average cost and realised P\&L balance against the cash account.\<close>

definition balanced_books :: "int \<Rightarrow> fill list \<Rightarrow> portfolio \<Rightarrow> bool" where
  "balanced_books k fs p \<longleftrightarrow> position (pf_state p) = net_qty fs
     \<and> (\<exists>a r. avg_entry_price (pf_state p) = Fin a \<and> realized_pnl (pf_state p) = Fin r
       \<and> \<bar>a\<bar> \<le> two_pow k \<and> \<bar>r\<bar> \<le> 2 * of_int (total_qty fs) * two_pow k
       \<and> \<bar>(r - of_int (net_qty fs) * a) - cash fs\<bar> \<le> of_nat (7 * length fs) * unit_error (total_qty fs) k)"

lemma balanced_books_new: "balanced_books k [] new_portfolio"
  by (simp add: balanced_books_def new_portfolio_def flat_state_def unit_error_def)

lemma balanced_fill:
  assumes "balanced_books k fs p" "\<forall>f\<in>set fs. modest_fill k f" "modest_fill k (s, px, q)"
    and "total_qty fs + q \<le> 2 ^ 53" "0 \<le> k" "k \<le> 39"
  shows "balanced_books k (fs @ [(s, px, q)]) (on_fill s px q p)"
proof -
  let ?v = "total_qty fs"
  note sz = fills_sizes [OF assms(2)]
  obtain a r where b: "avg_entry_price (pf_state p) = Fin a" "realized_pnl (pf_state p) = Fin r" "\<bar>a\<bar> \<le> two_pow k"
      "\<bar>r\<bar> \<le> 2 * of_int ?v * two_pow k" "position (pf_state p) = net_qty fs"
      "\<bar>(r - of_int (net_qty fs) * a) - cash fs\<bar> \<le> of_nat (7 * length fs) * unit_error ?v k"
    using assms(1) unfolding balanced_books_def by blast
  have q: "0 < q" "\<bar>of_int (ticks px)\<bar> \<le> 10000 * two_pow k" using assms(3) by simp_all
  have v: "\<bar>position (pf_state p)\<bar> \<le> ?v" using sz b(5) by simp
  obtain a' r' where f: "avg_entry_price (pf_state (on_fill s px q p)) = Fin a'"
      "realized_pnl (pf_state (on_fill s px q p)) = Fin r'" "\<bar>a'\<bar> \<le> two_pow k"
      "\<bar>r'\<bar> \<le> 2 * of_int (?v + q) * two_pow k"
      "\<bar>(r' - of_int (net_qty fs + signed_qty s q) * a')
         - (r - of_int (net_qty fs) * a - of_int (signed_qty s q) * (of_int (ticks px) / 10000))\<bar> \<le> 7 * unit_error (?v + q) k"
    using fill_error [OF b(1-4) assms(5,6) v q(1) assms(4) q(2), of s] unfolding b(5) by blast
  have "of_nat (7 * length fs) * unit_error ?v k \<le> of_nat (7 * length fs) * unit_error (?v + q) k"
    using q(1) by (intro mult_left_mono unit_error_mono) simp_all
  then have "\<bar>(r' - of_int (net_qty fs + signed_qty s q) * a') - (cash fs - of_int (signed_qty s q) * (of_int (ticks px) / 10000))\<bar>
      \<le> of_nat (7 * length fs) * unit_error (?v + q) k + 7 * unit_error (?v + q) k"
    using b(6) f(5) by linarith
  moreover have "position (pf_state (on_fill s px q p)) = net_qty fs + signed_qty s q"
    unfolding b(5) [symmetric] using sz q(1) assms(4) v by (intro on_fill_position) (auto simp: signed_qty_def)
  ultimately show ?thesis
    using f(1-4) by (simp add: balanced_books_def distrib_right del: of_int_add)
qed

lemma balanced_fills:
  "\<forall>f\<in>set fs. modest_fill k f \<Longrightarrow> total_qty fs \<le> 2 ^ 53 \<Longrightarrow> 0 \<le> k \<Longrightarrow> k \<le> 39 \<Longrightarrow>
   balanced_books k fs (fold apply_fill fs new_portfolio)"
proof (induction fs rule: rev_induct)
  case (snoc f fs)
  obtain s px q where f: "f = (s, px, q)" by (cases f)
  have "total_qty fs \<le> 2 ^ 53" using snoc.prems(1,2) by (simp add: f)
  then have "balanced_books k fs (fold apply_fill fs new_portfolio)" using snoc by simp
  from balanced_fill [OF this] show ?case using snoc.prems by (simp add: f apply_fill_tuple)
qed (simp add: balanced_books_new)

lemma mark_error:
  assumes "balanced_books k fs p" "\<forall>f\<in>set fs. modest_fill k f" "total_qty fs \<le> 2 ^ 53" "0 \<le> k" "k \<le> 39" "\<bar>y\<bar> \<le> two_pow k"
  obtains t where "total_pnl (pf_state (mark_to_market (Fin y) p)) = Fin t"
    "\<bar>t - (cash fs + of_int (net_qty fs) * y)\<bar> \<le> of_nat (7 * length fs + 8) * unit_error (total_qty fs) k"
proof -
  let ?v = "total_qty fs" and ?n = "net_qty fs"
  let ?E = "unit_error ?v k"
  note sz = fills_sizes [OF assms(2)]
  have P: "two_pow (k + 1) = 2 * two_pow k" "two_pow (k + 2) = 4 * two_pow k" by (simp_all add: two_pow_add two_pow_def [of 1] two_pow_def [of 2])
  obtain a r where b: "avg_entry_price (pf_state p) = Fin a" "realized_pnl (pf_state p) = Fin r" "\<bar>a\<bar> \<le> two_pow k"
      "\<bar>r\<bar> \<le> 2 * of_int ?v * two_pow k" "position (pf_state p) = ?n"
      "\<bar>(r - of_int ?n * a) - cash fs\<bar> \<le> of_nat (7 * length fs) * ?E"
    using assms(1) unfolding balanced_books_def by blast
  show thesis
  proof (cases "fs = []")
    case True
    have "\<bar>y - a\<bar> \<le> of_int 1 * two_pow (k + 1)" using b(3) assms(6) P by simp
    then have "rnd (y - a) = Fin (rnd_rat (y - a))" using rnd_within(1) [of "y - a" 1 "k + 1"] assms(4,5) by simp
    then show thesis using that [of 0] b True by (simp add: mark_to_market_def unit_error_def)
  next
    case False
    then have v: "1 \<le> ?v" using assms(2) fills_sizes [of "tl fs" k] by (cases fs) (auto dest: list.set_sel)
    define D where "D = rnd_rat (y - a)"
    define U where "U = rnd_rat (of_int ?n * D)"
    define t where "t = rnd_rat (r + U)"
    have "\<bar>y - a\<bar> \<le> of_int 1 * two_pow (k + 1)" using b(3) assms(6) P by simp
    note D0 = rnd_within [OF this]
    have D: "rnd (y - a) = Fin D" "\<bar>D\<bar> \<le> two_pow (k + 1)" "\<bar>D - (y - a)\<bar> \<le> 2 * unit_error 1 k"
      using D0 assms(4,5) by (simp_all add: D_def unit_error_def P)
    have n: "\<bar>of_int ?n :: rat\<bar> \<le> of_int ?v" using sz by (intro abs_of_int_le) simp
    have "\<bar>of_int ?n * D\<bar> \<le> of_int ?v * two_pow (k + 1)" using D(2) n by (intro abs_mult_le)
    note U0 = rnd_within [OF this v assms(3)]
    have U: "rnd (of_int ?n * D) = Fin U" "\<bar>U\<bar> \<le> of_int ?v * two_pow (k + 1)" "\<bar>U - of_int ?n * D\<bar> \<le> 2 * ?E"
      using U0 assms(4,5) by (simp_all add: U_def unit_error_def P)
    have "\<bar>of_int ?n * (D - (y - a))\<bar> \<le> of_int ?v * (2 * unit_error 1 k)" using D(3) n by (intro abs_mult_le)
    then have nD: "\<bar>of_int ?n * D - of_int ?n * (y - a)\<bar> \<le> 2 * ?E" by (simp add: right_diff_distrib unit_error_def)
    have "\<bar>r + U\<bar> \<le> of_int ?v * two_pow (k + 2)" using b(4) U(2) by (simp add: P)
    note t0 = rnd_within [OF this v assms(3)]
    have t: "rnd (r + U) = Fin t" "\<bar>t - (r + U)\<bar> \<le> 4 * ?E"
      using t0 assms(4,5) by (simp_all add: t_def unit_error_def P)
    have "\<bar>t - (cash fs + of_int ?n * y)\<bar> \<le> of_nat (7 * length fs) * ?E + 8 * ?E"
      using t(2) U(3) nD b(6) by (simp only: right_diff_distrib)
    moreover have "d_of_int ?n = Fin (of_int ?n)" using sz assms(3) by (intro d_of_int_exact) simp
    ultimately show thesis
      using that [of t] D(1) U(1) t(1) b(1,2,5) by (simp add: mark_to_market_def distrib_right)
  qed
qed

section \<open>Marks do not touch the books\<close>

text \<open>What \<open>on_fill\<close> reads and \<open>mark_to_market\<close> leaves alone.\<close>

definition ledger :: "portfolio \<Rightarrow> int \<times> double \<times> double \<times> int" where
  "ledger p = (let st = pf_state p in (position st, avg_entry_price st, realized_pnl st, total_volume_traded st))"

lemma ledger_mark [simp, keeps]: "ledger (mark_to_market m p) = ledger p"
  by (simp add: ledger_def mark_to_market_def Let_def)

lemma ledger_on_fill: "ledger p = ledger p' \<Longrightarrow> ledger (on_fill s px q p) = ledger (on_fill s px q p')"
  by (auto simp: ledger_def on_fill_def record_history_def extend_position_def reduce_position_def Let_def)

lemma balanced_ledger: "ledger p = ledger p' \<Longrightarrow> balanced_books k fs p = balanced_books k fs p'"
  by (simp add: ledger_def balanced_books_def Let_def)

lemma ledger_volume: "ledger p = ledger (fold apply_fill fs new_portfolio) \<Longrightarrow>
    total_volume_traded (pf_state p) = total_qty fs"
proof -
  have "total_volume_traded (pf_state (fold apply_fill fs q)) = total_volume_traded (pf_state q) + total_qty fs" for q
    by (induction fs arbitrary: q rule: total_qty.induct) (simp_all add: apply_fill_tuple on_fill_frame)
  then show "ledger p = ledger (fold apply_fill fs new_portfolio) \<Longrightarrow> ?thesis"
    by (simp add: ledger_def Let_def new_portfolio_def flat_state_def)
qed

end
