(* ===== verification/Pipeline_Pnl.thy ===== *)
theory Pipeline_Pnl
  imports Pipeline_Feed Pnl_Accuracy
begin

text \<open>
  The P\&L the pipeline of \<open>src/common/pipeline.hpp\<close> reports and hands to its risk engine, against the
  cash account of the fills that its execution engine has reported.
\<close>

section \<open>Runs with their fills\<close>

definition fill_of :: "exec_report \<Rightarrow> fill" where
  "fill_of r = (rep_side r, rep_fill_price r, rep_fill_quantity r)"

text \<open>The fills the execution engine reports while the pipeline handles an event.\<close>

definition fills_of :: "'g env \<Rightarrow> market_event \<Rightarrow> 'g pipeline \<Rightarrow> fill list" where
  "fills_of env ev p =
     (if is_duplicate ev p then []
      else map fill_of (filter (\<lambda>r. 0 < rep_fill_quantity r)
             (fst (on_market_event (env_draw env) (env_iter env) ev (p_exec (accept_event ev (count_event p)))))))"

inductive traded :: "'g env \<Rightarrow> 'g pipeline \<Rightarrow> fill list \<Rightarrow> 'g pipeline \<Rightarrow> bool" for env p0 where
  traded_start: "traded env p0 [] p0"
| traded_event: "traded env p0 fs p \<Longrightarrow> traded env p0 (fs @ fills_of env ev p) (process env tm ev p)"
| traded_clock: "traded env p0 fs p \<Longrightarrow> traded env p0 fs (on_clock now p)"

lemma reachable_traded: "reachable env p0 p \<longleftrightarrow> (\<exists>fs. traded env p0 fs p)"
proof
  show "reachable env p0 p \<Longrightarrow> \<exists>fs. traded env p0 fs p"
    by (induction rule: reachable.induct) (auto elim!: pipe_stepE intro: traded.intros)
  have "traded env p0 fs p \<Longrightarrow> reachable env p0 p" for fs
    by (induction rule: traded.induct) (auto intro: reachable.intros pipe_step.intros)
  then show "\<exists>fs. traded env p0 fs p \<Longrightarrow> reachable env p0 p" by blast
qed

section \<open>The books follow the fills\<close>

definition booked :: "fill list \<Rightarrow> 'g pipeline \<Rightarrow> bool" where
  "booked fs p \<longleftrightarrow> ledger (p_portfolio p) = ledger (fold apply_fill fs new_portfolio) \<and> fills (stats p) = length fs"

lemma booked_transfer:
  "booked fs p \<Longrightarrow> ledger (p_portfolio p') = ledger (p_portfolio p) \<Longrightarrow> fills (stats p') = fills (stats p) \<Longrightarrow> booked fs p'"
  by (simp add: booked_def)

lemma booked_report:
  "booked fs p \<Longrightarrow> booked (fs @ map fill_of (filter (\<lambda>r. 0 < rep_fill_quantity r) [r])) (apply_report r p)"
  by (auto simp: booked_def apply_report_def Let_def fill_of_def apply_fill_tuple intro!: ledger_on_fill)

lemma booked_reports:
  "booked fs p \<Longrightarrow> booked (fs @ map fill_of (filter (\<lambda>r. 0 < rep_fill_quantity r) rs)) (fold apply_report rs p)"
proof (induction rs arbitrary: fs p)
  case (Cons r rs)
  from Cons.IH [OF booked_report [OF Cons.prems, of r]] show ?case by (simp split: if_splits)
qed simp

lemma fills_keeps [simp, keeps]:
  "fills (stats (submit s px sz ref now p)) = fills (stats p)"
  "fills (stats (cancel_side s now p)) = fills (stats p)"
  "fills (stats (cancel_resting_quotes now p)) = fills (stats p)"
  "fills (stats (update_market env ev p)) = fills (stats p)"
  "fills (stats (mark_portfolio p)) = fills (stats p)"
  "fills (stats (count_event p)) = fills (stats p)"
proof -
  show c: "fills (stats (cancel_side s now p)) = fills (stats p)" for s now and p :: "'a pipeline"
    by (simp add: cancel_side_def Let_def split: option.split)
  then show "fills (stats (cancel_resting_quotes now p)) = fills (stats p)" by (simp add: cancel_resting_quotes_def)
qed (simp_all add: submit_def update_market_def mark_portfolio_def count_event_def Let_def split: option.split)

lemma portfolio_keeps [simp, keeps]:
  "p_portfolio (update_market env ev p) = p_portfolio p" "p_portfolio (count_event p) = p_portfolio p"
  "p_portfolio (accept_event ev p) = p_portfolio p" "p_portfolio (requote env el now p) = p_portfolio p"
  "fills (stats (accept_event ev p)) = fills (stats p)" "fills (stats (requote env el now p)) = fills (stats p)"
  by (simp_all add: update_market_def count_event_def accept_event_def resync_def requote_def replace_side_def Let_def)

lemma booked_process:
  assumes "booked fs p"
  shows "booked (fs @ fills_of env ev p) (process env tm ev p)"
proof (cases "is_duplicate ev p")
  case True
  then show ?thesis
    using assms by (simp add: process_def Let_def fills_of_def booked_def)
next
  case False
  let ?q = "update_market env ev (accept_event ev (count_event p))"
  obtain rs e where rs: "on_market_event (env_draw env) (env_iter env) ev (p_exec ?q) = (rs, e)" by fastforce
  have "booked fs (?q\<lparr>p_exec := e\<rparr>)" using assms by (rule booked_transfer) simp_all
  then have "booked (fs @ fills_of env ev p) (run_execution env ev ?q)"
    using booked_reports [of fs "?q\<lparr>p_exec := e\<rparr>" rs] rs False by (simp add: run_execution_def fills_of_def)
  then have "booked (fs @ fills_of env ev p) (ingest env tm ev (count_event p))"
    by (rule booked_transfer) (simp_all add: ingest_def Let_def mark_portfolio_def split: option.split)
  then show ?thesis
    by (rule booked_transfer) (simp_all add: process_def Let_def False)
qed

lemma booked_traded: "traded env (new_pipeline sd sy cfg) fs p \<Longrightarrow> booked fs p"
proof (induction rule: traded.induct)
  case traded_start
  show ?case by (simp add: booked_def new_pipeline_def zero_stats_def)
next
  case (traded_clock fs p now)
  from traded_clock.IH show ?case by (rule booked_transfer) (simp_all add: on_clock_def)
qed (rule booked_process)

section \<open>The mark is fresh\<close>

lemma marked_after_process:
  fixes p :: "'g pipeline"
  assumes "\<not> is_duplicate ev p" "mid_price (p_book (process env tm ev p)) = Some m"
  shows "total_pnl (pf_state (p_portfolio (process env tm ev p))) =
    total_pnl (pf_state (mark_to_market m (p_portfolio (process env tm ev p))))"
proof -
  let ?i = "ingest env tm ev (count_event p)"
  have same: "p_book (process env tm ev p) = p_book ?i" "p_portfolio (process env tm ev p) = p_portfolio ?i"
    using assms(1) by (simp_all add: process_def Let_def)
  obtain q :: "'g pipeline" where q: "p_portfolio ?i = p_portfolio (mark_portfolio q)" "p_book ?i = p_book q"
    by (intro that [of "run_execution env ev (update_market env ev (accept_event ev (count_event p)))"])
      (simp_all add: ingest_def Let_def mark_portfolio_def split: option.split)
  then show ?thesis
    using assms(2) unfolding same by (simp add: mark_portfolio_def mark_to_market_def Let_def)
qed

lemma balanced_booked:
  assumes "booked fs p" "\<forall>f\<in>set fs. modest_fill k f" "total_qty fs \<le> 2 ^ 53" "0 \<le> k" "k \<le> 39"
  shows "balanced_books k fs (p_portfolio p)"
  using balanced_fills [OF assms(2-5)] balanced_ledger assms(1) unfolding booked_def by blast

lemma pnl_tracks_cash:
  assumes "traded env (new_pipeline sd sy cfg) fs p" "\<not> is_duplicate ev p"
    and "mid_price (p_book (process env tm ev p)) = Some (Fin y)"
    and "\<forall>f\<in>set (fs @ fills_of env ev p). modest_fill k f" "total_qty (fs @ fills_of env ev p) \<le> 2 ^ 53"
    and "\<bar>y\<bar> \<le> two_pow k" "0 \<le> k" "k \<le> 39"
  defines "st \<equiv> pf_state (p_portfolio (process env tm ev p))" and "gs \<equiv> fs @ fills_of env ev p"
  shows "position st = net_qty gs \<and> total_volume_traded st = total_qty gs
    \<and> fills (stats (process env tm ev p)) = length gs
    \<and> (\<exists>t. total_pnl st = Fin t \<and> \<bar>t - (cash gs + of_int (net_qty gs) * y)\<bar>
         \<le> of_nat (7 * length gs + 8) * (of_int (total_qty gs) * two_pow k * two_pow (- 53)))"
proof -
  have b: "booked gs (process env tm ev p)"
    unfolding gs_def by (rule booked_traded [OF traded_event [OF assms(1)]])
  note gs = assms(4,5) [folded gs_def]
  note bal = balanced_booked [OF b gs assms(7,8)]
  obtain t where t: "total_pnl (pf_state (mark_to_market (Fin y) (p_portfolio (process env tm ev p)))) = Fin t"
      "\<bar>t - (cash gs + of_int (net_qty gs) * y)\<bar> \<le> of_nat (7 * length gs + 8) * unit_error (total_qty gs) k"
    by (rule mark_error [OF bal gs assms(7,8,6)])
  have "total_pnl st = Fin t" unfolding st_def marked_after_process [OF assms(2,3)] by (rule t(1))
  moreover have "position st = net_qty gs" using bal by (simp add: st_def balanced_books_def)
  moreover have "total_volume_traded st = total_qty gs"
    unfolding st_def by (rule ledger_volume) (use b in \<open>simp add: booked_def\<close>)
  ultimately show ?thesis using b t(2) by (auto simp: booked_def unit_error_def)
qed

text \<open>
  C2: The P\&L is the cash account.  After every event that leaves a two-sided book, the position
  and the traded volume are exactly those of the fills reported so far, and the total P\&L differs
  from the cash these fills paid and earned, plus the position valued at the mid, by at most the
  roundings of seven operations per fill and eight for the mark, for prices up to \<open>2^39\<close> dollars
  and a traded volume up to \<open>2^53\<close>.
\<close>

theorem pnl_is_the_cash_account:
  assumes "traded env (new_pipeline sd sy cfg) fs p" "\<not> is_duplicate ev p"
    and "mid_price (p_book (process env tm ev p)) = Some (Fin y)"
    and "\<forall>f\<in>set (fs @ fills_of env ev p). modest_fill k f" "total_qty (fs @ fills_of env ev p) \<le> 2 ^ 53"
    and "\<bar>y\<bar> \<le> two_pow k" "0 \<le> k" "k \<le> 39"
  defines "st \<equiv> pf_state (p_portfolio (process env tm ev p))" and "gs \<equiv> fs @ fills_of env ev p"
  shows "position st = net_qty gs \<and> total_volume_traded st = total_qty gs
    \<and> fills (stats (process env tm ev p)) = length gs
    \<and> (\<exists>t. total_pnl st = Fin t \<and> \<bar>t - (cash gs + of_int (net_qty gs) * y)\<bar>
         \<le> of_nat (7 * length gs + 8) * (of_int (total_qty gs) * two_pow k * two_pow (- 53)))"
  unfolding st_def gs_def by (rule pnl_tracks_cash [OF assms(1-8)])

text \<open>One share of the resting bid at 50 dollars is filled while the mid is 100.\<close>

definition demo_hit :: market_event where
  "demo_hit = make_trade 3 3 ''AAPL'' Sell (Price 490000) 1"

lemma demo_hit_accepted:
  "\<not> is_duplicate demo_hit demo_two" "\<not> is_gap demo_hit demo_two"
  "\<not> is_late (ev_timestamp demo_hit) demo_two"
proof -
  have "\<not> (3 :: u64) \<le> 2" by (simp add: word_le_nat_alt)
  then show "\<not> is_duplicate demo_hit demo_two" "\<not> is_gap demo_hit demo_two"
    "\<not> is_late (ev_timestamp demo_hit) demo_two"
    by (simp_all add: is_duplicate_def is_gap_def is_late_def demo_two_eval demo_hit_def make_trade_def)
qed

lemma demo_hit_fills: "fills_of demo_env demo_hit demo_two = [(Buy, Price 500000, 1)]"
proof -
  have e: "p_exec (accept_event demo_hit (count_event demo_two)) = p_exec demo_two"
    by (simp add: accept_event_def demo_hit_accepted Let_def)
  show ?thesis
    unfolding fills_of_def if_not_P [OF demo_hit_accepted(1)] e
    by (simp add: demo_two_eval demo_hit_def make_trade_def on_market_event_def
        demo_env_def fill_one_def submit_limit_def new_engine_def crosses_def fill_size_def make_fill_report_def
        remaining_quantity_def less_eq_price_def fill_of_def Let_def)
qed

lemma demo_two_traded: "traded demo_env demo_start [] demo_two"
proof -
  have q: "fills_of demo_env (make_quote t n sy s px z) p = []" for t n sy s px z and p :: "unit pipeline"
    by (simp add: fills_of_def make_quote_def on_market_event_def)
  have "fills_of demo_env demo_bid demo_start = []" "fills_of demo_env demo_ask demo_one = []"
    by (simp_all add: demo_bid_def demo_ask_def q)
  then show ?thesis
    using traded_event [OF traded_event [OF traded_start, of demo_env demo_start demo_bid demo_tm], of demo_ask demo_tm]
    by (simp flip: demo_one_def demo_two_def)
qed

theorem pnl_is_the_cash_account_witness:
  "\<exists>t. total_pnl (pf_state (p_portfolio (process demo_env demo_tm demo_hit demo_two))) = Fin t \<and> \<bar>t - 50\<bar> \<le> 1 / 10 ^ 12"
proof -
  have "p_book (process demo_env demo_tm demo_hit demo_two) = apply_event demo_hit demo_book_two"
    using demo_hit_accepted by (simp add: process_feed demo_two_eval)
  then have mid: "mid_price (p_book (process demo_env demo_tm demo_hit demo_two)) = Some (Fin 100)"
    using demo_book_two_mid(1)
    by (simp add: demo_hit_def make_trade_def apply_event_def mid_price_def best_bid_def best_ask_def Let_def)
  have "total_qty ([] @ fills_of demo_env demo_hit demo_two) \<le> 2 ^ 53"
      "\<forall>f\<in>set ([] @ fills_of demo_env demo_hit demo_two). modest_fill 7 f"
    by (simp_all add: demo_hit_fills two_pow_def)
  from pnl_is_the_cash_account [OF demo_two_traded [unfolded demo_start_def] demo_hit_accepted(1) mid this(2,1)]
  obtain t where "total_pnl (pf_state (p_portfolio (process demo_env demo_tm demo_hit demo_two))) = Fin t"
      "\<bar>t - 50\<bar> \<le> 15 * (two_pow 7 * two_pow (- 53))"
    by (auto simp: demo_hit_fills signed_qty_def two_pow_def)
  moreover have "15 * (two_pow 7 * two_pow (- 53)) \<le> 1 / 10 ^ 12" by (simp add: two_pow_def)
  ultimately show ?thesis by (intro exI [of _ t]) linarith
qed

end
