(* ===== verification/Quote_Gap.thy ===== *)
theory Quote_Gap
  imports Pipeline_Pnl
begin

text \<open>
  The hysteresis of \<open>requote\<close> in \<open>src/common/pipeline.hpp\<close> and its consequence for the quotes of the
  strategy (\<open>src/strategy/market_maker.hpp\<close>): a resting quote may lag behind its target, so that bid and
  ask stem from different decisions.  The two sides still never meet, provided the half-spread
  exceeds the requote threshold by a basis point.
\<close>

section \<open>Rounding below a power of two\<close>

lemma rnd_two_pow:
  assumes "\<bar>x\<bar> \<le> two_pow k" "0 \<le> k" "k \<le> 100"
  shows "rnd x = Fin (rnd_rat x)" "\<bar>rnd_rat x\<bar> \<le> two_pow k" "\<bar>rnd_rat x - x\<bar> \<le> two_pow (k - 53)"
  using rnd_within [of x 1 k] assms by (simp_all add: two_pow_diff two_pow_def [of "- 53"] two_pow_def [of 53])

lemma rnd_rat_lower:
  assumes "z \<le> x" "\<bar>z\<bar> \<le> two_pow k" "0 \<le> k" "k \<le> 100"
  shows "z - two_pow (k - 53) \<le> rnd_rat x"
  using rnd_rat_mono [OF assms(1)] rnd_two_pow(3) [OF assms(2-4)] by linarith

section \<open>The distance of the targets\<close>

text \<open>What the configuration has to satisfy: the half-spread exceeds the threshold by a basis point, and
  spread, volatility multiplier and skew stay within generous limits.\<close>

definition spread_exceeds_threshold :: "strategy_config \<Rightarrow> bool" where
  "spread_exceeds_threshold cfg \<longleftrightarrow>
     (case (base_half_spread_bps cfg, requote_threshold_bps cfg, volatility_spread_multiplier cfg,
            inventory_skew_bps_per_unit cfg) of
        (Fin b, Fin t, Fin mu, Fin k) \<Rightarrow> 0 \<le> t \<and> t + 1 \<le> b \<and> b \<le> 2 ^ 13 \<and> 0 \<le> mu \<and> mu \<le> 2 ^ 10
          \<and> 1 \<le> max_inventory_for_skew cfg \<and> max_inventory_for_skew cfg \<le> 2 ^ 53
          \<and> \<bar>k\<bar> * of_int (max_inventory_for_skew cfg) \<le> 2 ^ 8 * 10000
      | _ \<Rightarrow> False)"

lemma spread_exceeds_thresholdE:
  assumes "spread_exceeds_threshold cfg"
  obtains b t mu k where "base_half_spread_bps cfg = Fin b" "requote_threshold_bps cfg = Fin t"
    "volatility_spread_multiplier cfg = Fin mu" "inventory_skew_bps_per_unit cfg = Fin k"
    "0 \<le> t" "t + 1 \<le> b" "b \<le> 2 ^ 13" "0 \<le> mu" "mu \<le> 2 ^ 10" "1 \<le> max_inventory_for_skew cfg"
    "max_inventory_for_skew cfg \<le> 2 ^ 53" "\<bar>k\<bar> * of_int (max_inventory_for_skew cfg) \<le> 2 ^ 8 * 10000"
  using assms unfolding spread_exceeds_threshold_def by (auto split: double.splits prod.splits)

lemma half_spread_lower:
  assumes "base_half_spread_bps cfg = Fin b" "volatility_spread_multiplier cfg = Fin mu"
    and "1 \<le> b" "b \<le> 2 ^ 13" "0 \<le> mu" "mu \<le> 2 ^ 10" "0 \<le> v" "v \<le> 1" "1 \<le> y" "y \<le> 2 ^ 20"
  obtains h where "half_spread_dollars cfg (Fin y) (Fin v) = Fin h" "y * b / 10000 - two_pow (- 19) \<le> h"
proof -
  define nv where "nv = rnd_rat (v * 10000)"
  define w where "w = rnd_rat (mu * nv)"
  define u where "u = rnd_rat (1 + w)"
  define hb where "hb = rnd_rat (b * u)"
  define g where "g = rnd_rat (y * hb)"
  define h where "h = rnd_rat (g / 10000)"
  have p: "two_pow 10 = 2 ^ 10" "two_pow 13 = 2 ^ 13" "two_pow 20 = 2 ^ 20" by (simp_all add: two_pow_def)
  have "\<bar>v * 10000\<bar> \<le> two_pow 14" using assms(7,8) by (simp add: two_pow_def)
  note nv = rnd_two_pow(1,2) [OF this]
  have nv0: "0 \<le> nv" unfolding nv_def using assms(7) by (intro rnd_rat_nonneg) simp
  have "\<bar>mu * nv\<bar> \<le> two_pow 10 * two_pow 14"
    using assms(5,6) nv(2) by (intro abs_mult_le) (simp_all add: nv_def p)
  then have "\<bar>mu * nv\<bar> \<le> two_pow 24" by (simp flip: two_pow_add)
  note w = rnd_two_pow(1,2) [OF this]
  have w0: "0 \<le> w" unfolding w_def using assms(5) nv0 by (intro rnd_rat_nonneg) simp
  have "\<bar>1 + w\<bar> \<le> two_pow 25"
    using w(2) w0 by (simp add: w_def [symmetric] two_pow_def)
  note u = rnd_two_pow(1,2) [OF this]
  have u1: "1 \<le> u" unfolding u_def using w0 is_fp_of_int [of 1] by (intro rnd_rat_ge_fp) simp_all
  have "\<bar>b * u\<bar> \<le> two_pow 13 * two_pow 25"
    using assms(3,4) u(2) by (intro abs_mult_le) (simp_all add: u_def p)
  then have "\<bar>b * u\<bar> \<le> two_pow 38" by (simp flip: two_pow_add)
  note hb = rnd_two_pow(1,2) [OF this]
  have "b \<le> b * u" using assms(3) u1 by (simp add: mult_le_cancel_left1)
  moreover have "\<bar>b\<bar> \<le> two_pow 13" using assms(3,4) p by simp
  ultimately have hb1: "b - two_pow (- 40) \<le> hb"
    unfolding hb_def using rnd_rat_lower [of b "b * u" 13] by simp
  have "\<bar>y * hb\<bar> \<le> two_pow 20 * two_pow 38"
    using assms(9,10) hb(2) by (intro abs_mult_le) (simp_all add: hb_def p)
  then have "\<bar>y * hb\<bar> \<le> two_pow 58" by (simp flip: two_pow_add)
  note g = rnd_two_pow(1,2) [OF this]
  define z where "z = y * (b - two_pow (- 40))"
  have "two_pow (- 40) \<le> 1" by (simp add: two_pow_def)
  then have z: "0 \<le> z" "z \<le> y * hb" "z \<le> y * b"
    using assms(3,9) hb1 by (simp_all add: z_def mult_left_mono)
  have "y * b \<le> 2 ^ 20 * 2 ^ 13" using assms(3,4,9,10) by (intro mult_mono) simp_all
  then have zb: "\<bar>z\<bar> \<le> two_pow 33" using z by (simp add: two_pow_def)
  from rnd_rat_lower [OF z(2) zb] have g1: "z - two_pow (- 20) \<le> g" by (simp add: g_def)
  have "\<bar>z - two_pow (- 20)\<bar> \<le> two_pow 33" using zb z(1) by (simp add: two_pow_def abs_le_iff)
  then have gb: "\<bar>(z - two_pow (- 20)) / 10000\<bar> \<le> two_pow 33" by simp
  have "(z - two_pow (- 20)) / 10000 \<le> g / 10000" using g1 by simp
  from rnd_rat_lower [OF this gb] have h1: "(z - two_pow (- 20)) / 10000 - two_pow (- 20) \<le> h" by (simp add: h_def)
  have "\<bar>g / 10000\<bar> \<le> two_pow 58" using g(2) by (simp add: g_def)
  note h = rnd_two_pow(1) [OF this]
  have e: "two_pow (- 19) = two_pow (- 20) + two_pow (- 20)" by (simp add: two_pow_def)
  have "y * two_pow (- 40) \<le> two_pow (- 20)" using assms(10) by (simp add: two_pow_def)
  then have "y * b / 10000 - two_pow (- 19) \<le> h"
    using h1 e two_pow_nonneg [of "- 20"] unfolding z_def right_diff_distrib diff_divide_distrib by linarith
  moreover have "half_spread_dollars cfg (Fin y) (Fin v) = Fin h"
    using nv(1) w(1) u(1) hb(1) g(1) h assms(1,2)
    by (simp add: half_spread_dollars_def nv_def [symmetric] w_def [symmetric] u_def [symmetric]
        hb_def [symmetric] g_def [symmetric] h_def [symmetric])
  ultimately show thesis using that by blast
qed

lemma clamped_range:
  assumes "0 \<le> max_inventory_for_skew cfg" "max_inventory_for_skew cfg \<le> 2 ^ 53"
  obtains c where "clamped_inventory cfg i = Fin c" "\<bar>c\<bar> \<le> of_int (max_inventory_for_skew cfg)"
proof -
  let ?M = "max_inventory_for_skew cfg"
  have M: "d_of_int ?M = Fin (of_int ?M)" using assms by (intro d_of_int_exact) simp
  have "d_of_int i \<noteq> NaN" by (simp add: d_of_int_def)
  then show thesis
  proof (cases "d_of_int i")
    case (Fin x)
    consider "x < - of_int ?M" | "of_int ?M < x" "\<not> x < - of_int ?M" | "\<bar>x\<bar> \<le> of_int ?M" "\<not> x < - of_int ?M" "\<not> of_int ?M < x"
      by linarith
    then show thesis
      using that assms(1) by cases (auto simp: clamped_inventory_def M dclamp_def Fin)
  qed (use that assms(1) in \<open>auto simp: clamped_inventory_def M dclamp_def\<close>)
qed

lemma skew_bounded:
  assumes "inventory_skew_bps_per_unit cfg = Fin k" "1 \<le> max_inventory_for_skew cfg" "max_inventory_for_skew cfg \<le> 2 ^ 53"
    and "\<bar>k\<bar> * of_int (max_inventory_for_skew cfg) \<le> 2 ^ 8 * 10000" "1 \<le> y" "y \<le> 2 ^ 20"
  obtains s where "inv_skew_dollars cfg (Fin y) i = Fin s" "\<bar>s\<bar> \<le> two_pow 30"
proof -
  define M :: rat where "M = of_int (max_inventory_for_skew cfg)"
  have M: "1 \<le> M" "M \<le> 2 ^ 53" using assms(2,3) of_int_le_iff [of "max_inventory_for_skew cfg" "2 ^ 53", where ?'a = rat]
    by (simp_all add: M_def)
  have "0 \<le> max_inventory_for_skew cfg" using assms(2) by simp
  then obtain c where c: "clamped_inventory cfg i = Fin c" "\<bar>c\<bar> \<le> M"
    unfolding M_def using clamped_range assms(3) by blast
  define x where "x = k / 10000"
  define s1 where "s1 = rnd_rat x"
  define r where "r = rnd_rat (s1 * c)"
  have xM: "\<bar>x\<bar> * M \<le> 2 ^ 8" using assms(4) by (simp add: x_def M_def)
  have "\<bar>x\<bar> \<le> \<bar>x\<bar> * M" using M(1) by (simp add: mult_le_cancel_left1)
  then have "\<bar>x\<bar> \<le> two_pow 8" using xM by (simp add: two_pow_def)
  note s1 = rnd_two_pow(1) [OF this]
  have "\<bar>s1 - x\<bar> \<le> (\<bar>x\<bar> + two_pow (- 1022)) * two_pow (- 53)"
    unfolding s1_def by (rule rnd_rat_abs_error) simp_all
  also have "\<dots> \<le> \<bar>x\<bar> + two_pow (- 1022)" by (rule mult_left_le) (simp_all add: two_pow_def)
  finally have "\<bar>s1\<bar> \<le> 2 * \<bar>x\<bar> + two_pow (- 1022)" by linarith
  then have "\<bar>s1\<bar> * M \<le> (2 * \<bar>x\<bar> + two_pow (- 1022)) * M" using M(1) by (intro mult_right_mono) simp_all
  also have "\<dots> = 2 * (\<bar>x\<bar> * M) + two_pow (- 1022) * M" by (simp add: distrib_right)
  also have "\<dots> \<le> 2 * 2 ^ 8 + two_pow (- 1022) * 2 ^ 53"
    using xM M by (intro add_mono mult_left_mono) simp_all
  also have "\<dots> \<le> two_pow 10" by (simp add: two_pow_def)
  finally have "\<bar>s1\<bar> * M \<le> two_pow 10" .
  moreover have "\<bar>s1 * c\<bar> \<le> \<bar>s1\<bar> * M" using c(2) by (simp add: abs_mult mult_left_mono)
  ultimately have "\<bar>s1 * c\<bar> \<le> two_pow 10" by linarith
  note r = rnd_two_pow(1,2) [OF this]
  have "\<bar>r * y\<bar> \<le> two_pow 10 * two_pow 20"
    using r(2) assms(5,6) by (intro abs_mult_le) (simp_all add: r_def two_pow_def)
  then have "\<bar>r * y\<bar> \<le> two_pow 30" by (simp flip: two_pow_add)
  note s = rnd_two_pow(1,2) [OF this]
  have "inv_skew_dollars cfg (Fin y) i = Fin (rnd_rat (r * y))"
    using s1 r(1) s(1) c(1) assms(1) by (simp add: inv_skew_dollars_def x_def [symmetric] s1_def [symmetric] r_def [symmetric])
  with s(2) show thesis using that by simp
qed

text \<open>Conversion to ticks moves a dollar amount by half a tick and little more.\<close>

lemma from_double_error:
  assumes "0 < d" "d \<le> two_pow 33"
  shows "of_int (ticks (from_double (Fin d))) \<le> d * 10000 + 1 / 2 + two_pow (- 4)"
    "d * 10000 - 1 / 2 - two_pow (- 4) < of_int (ticks (from_double (Fin d)))"
proof -
  define a where "a = rnd_rat (d * 10000)"
  define c where "c = rnd_rat (a + 1 / 2)"
  have "\<bar>d * 10000\<bar> \<le> two_pow 47" using assms by (simp add: two_pow_def)
  note a = rnd_two_pow [OF this]
  have "0 \<le> a" unfolding a_def using assms(1) by (intro rnd_rat_nonneg) simp
  then have "\<bar>a + 1 / 2\<bar> \<le> two_pow 48" using a(2) by (simp add: a_def [symmetric] two_pow_def)
  note c = rnd_two_pow [OF this]
  have c0: "0 \<le> c" unfolding c_def using \<open>0 \<le> a\<close> by (intro rnd_rat_nonneg) simp
  have fl: "of_int \<lfloor>c\<rfloor> \<le> c" "c < of_int \<lfloor>c\<rfloor> + 1" by linarith+
  have "c \<le> 2 ^ 48" using c(2) by (simp add: c_def [symmetric] two_pow_def)
  then have "\<lfloor>c\<rfloor> \<le> 2 ^ 48" using fl(1) by (metis floor_mono floor_of_int of_int_numeral of_int_power)
  moreover have "0 \<le> \<lfloor>c\<rfloor>" using c0 by simp
  ultimately have t: "ticks (from_double (Fin d)) = \<lfloor>c\<rfloor>"
    using a(1) c(1) c0 assms(1)
    by (simp add: from_double_def from_ticks_def kScale_def fp_eval a_def [symmetric] c_def [symmetric] trunc_rat_def int64_ok_def)
  have "\<bar>c - (d * 10000 + 1 / 2)\<bar> \<le> two_pow (- 4)"
  proof -
    have "\<bar>a - d * 10000\<bar> \<le> 1 / 64" "\<bar>c - (a + 1 / 2)\<bar> \<le> 1 / 32" "two_pow (- 4) = 1 / 16"
      using a(3) c(3) by (simp_all add: a_def [symmetric] c_def [symmetric] two_pow_def)
    then show ?thesis by linarith
  qed
  then show "of_int (ticks (from_double (Fin d))) \<le> d * 10000 + 1 / 2 + two_pow (- 4)"
    "d * 10000 - 1 / 2 - two_pow (- 4) < of_int (ticks (from_double (Fin d)))"
    unfolding t using fl by linarith+
qed

section \<open>Targets more than two thresholds apart\<close>

text \<open>The threshold of \<open>requote\<close>, in ticks.\<close>

definition hysteresis :: "double \<Rightarrow> double \<Rightarrow> int" where
  "hysteresis mid bps = d_to_int64 (dmul (ddiv (dmul mid bps) (Fin 10000)) (d_of_int kScale))"

lemma hysteresis_range:
  assumes "0 \<le> t" "t \<le> 2 ^ 13" "1 \<le> y" "y \<le> 2 ^ 20"
  shows "0 \<le> hysteresis (Fin y) (Fin t)" "of_int (hysteresis (Fin y) (Fin t)) \<le> y * t + two_pow (- 5)"
proof -
  define g where "g = rnd_rat (y * t)"
  define q where "q = rnd_rat (g / 10000)"
  define m where "m = rnd_rat (q * 10000)"
  have "y * t \<le> 2 ^ 20 * 2 ^ 13" using assms by (intro mult_mono) simp_all
  moreover have "0 \<le> y * t" using assms by simp
  ultimately have "\<bar>y * t\<bar> \<le> two_pow 33" by (simp add: two_pow_def)
  note g = rnd_two_pow [OF this]
  have "\<bar>g / 10000\<bar> \<le> two_pow 33" using g(2) by (simp add: g_def)
  note q = rnd_two_pow [OF this]
  have "\<bar>q * 10000\<bar> \<le> two_pow 47" using q(2) by (simp add: q_def [symmetric] two_pow_def)
  note m = rnd_two_pow [OF this]
  have m0: "0 \<le> m" unfolding m_def q_def g_def using assms by (intro rnd_rat_nonneg mult_nonneg_nonneg divide_nonneg_pos) simp_all
  have "m \<le> 2 ^ 47" using m(2) by (simp add: m_def [symmetric] two_pow_def)
  moreover have fl: "of_int \<lfloor>m\<rfloor> \<le> m" by linarith
  ultimately have "\<lfloor>m\<rfloor> \<le> 2 ^ 47" by (metis floor_mono floor_of_int of_int_numeral of_int_power)
  then have h: "hysteresis (Fin y) (Fin t) = \<lfloor>m\<rfloor>" "0 \<le> \<lfloor>m\<rfloor>"
    using g(1) q(1) m(1) m0
    by (simp_all add: hysteresis_def kScale_def fp_eval g_def [symmetric] q_def [symmetric] m_def [symmetric]
        trunc_rat_def int64_ok_def)
  have "\<bar>g - y * t\<bar> \<le> 1 / 1048576" "\<bar>q - g / 10000\<bar> \<le> 1 / 1048576" "\<bar>m - q * 10000\<bar> \<le> 1 / 64" "two_pow (- 5) = 1 / 32"
    using g(3) q(3) m(3) by (simp_all add: g_def [symmetric] q_def [symmetric] m_def [symmetric] two_pow_def)
  then have "m \<le> y * t + two_pow (- 5)" by linarith
  then show "of_int (hysteresis (Fin y) (Fin t)) \<le> y * t + two_pow (- 5)" "0 \<le> hysteresis (Fin y) (Fin t)"
    using fl h by (simp_all del: of_int_floor_le)
qed

lemma dollars_apart:
  fixes y h s :: rat
  assumes "dsub (dsub (Fin y) (Fin h)) (Fin s) = bid" "dsub (dadd (Fin y) (Fin h)) (Fin s) = ask"
    and "1 \<le> y" "y \<le> 2 ^ 20" "\<bar>s\<bar> \<le> two_pow 30" "0 \<le> h + 1" "h \<le> two_pow 100" "\<not> dle bid (Fin 0)"
  obtains b a where "bid = Fin b" "ask = Fin a" "0 < b" "a \<le> two_pow 33" "2 * h - two_pow (- 18) \<le> a - b"
proof -
  define A where "A = rnd_rat (y - h)"
  define C where "C = rnd_rat (y + h)"
  have y20: "y \<le> two_pow 20" using assms(4) by (simp add: two_pow_def)
  have "\<bar>y - h\<bar> \<le> two_pow 100" using assms(3,4,6,7) by (simp add: two_pow_def abs_le_iff)
  note A0 = rnd_two_pow(1,2) [OF this]
  then have "bid = rnd (A - s)" using assms(1) by (simp add: A_def)
  moreover have "rnd (A - s) = Fin (rnd_rat (A - s))"
  proof (rule rnd_Fin_le [of _ 101])
    show "\<bar>A - s\<bar> \<le> two_pow 101" using A0(2) assms(5) by (simp add: A_def [symmetric] two_pow_def abs_le_iff)
  qed simp
  ultimately have b: "bid = Fin (rnd_rat (A - s))" "0 < rnd_rat (A - s)" using assms(8) by simp_all
  have "0 < A - s" using b(2) rnd_rat_nonpos [of "A - s"] by linarith
  then have "- two_pow 30 < A" using assms(5) by linarith
  moreover have "is_fp (- two_pow 30)" by (intro is_fp_minus is_fp_two_pow) simp
  ultimately have "\<not> y - h \<le> - two_pow 30" unfolding A_def using rnd_rat_le_fp not_le by blast
  then have h: "h \<le> two_pow 31" using assms(4) by (simp add: two_pow_def)
  have "\<bar>y - h\<bar> \<le> two_pow 32" "\<bar>y + h\<bar> \<le> two_pow 32" using h assms(3,4,6) by (simp_all add: two_pow_def abs_le_iff)
  note A = rnd_two_pow [OF this(1)] and C = rnd_two_pow [OF this(2)]
  have "\<bar>A - s\<bar> \<le> two_pow 33" "\<bar>C - s\<bar> \<le> two_pow 33"
    using A(2) C(2) assms(5) by (simp_all add: A_def [symmetric] C_def [symmetric] two_pow_def abs_le_iff)
  note B = rnd_two_pow [OF this(1)] and D = rnd_two_pow [OF this(2)]
  have "ask = Fin (rnd_rat (C - s))" using assms(2) C(1) D(1) by (simp add: C_def)
  moreover have "\<bar>A - (y - h)\<bar> \<le> 1 / 2097152" "\<bar>rnd_rat (A - s) - (A - s)\<bar> \<le> 1 / 1048576"
      "\<bar>C - (y + h)\<bar> \<le> 1 / 2097152" "\<bar>rnd_rat (C - s) - (C - s)\<bar> \<le> 1 / 1048576" "two_pow (- 18) = 1 / 262144"
    using A(3) B(3) C(3) D(3) by (simp_all add: A_def [symmetric] C_def [symmetric] two_pow_def)
  then have "2 * h - two_pow (- 18) \<le> rnd_rat (C - s) - rnd_rat (A - s)" by linarith
  ultimately show thesis using that b D(2) by simp
qed

lemma half_spread_upper:
  assumes "half_spread_dollars cfg (Fin y) (Fin v) = Fin h" "base_half_spread_bps cfg = Fin b"
    "volatility_spread_multiplier cfg = Fin mu" "1 \<le> b" "b \<le> 2 ^ 13" "0 \<le> mu" "mu \<le> 2 ^ 10" "0 \<le> v" "v \<le> 1" "1 \<le> y" "y \<le> 2 ^ 20"
  shows "h \<le> two_pow 100"
proof -
  have "bounded_by 0 (Fin v)" "bounded_by 14 (Fin 10000)" "bounded_by 13 (Fin b)" "bounded_by 10 (Fin mu)"
    "bounded_by 20 (Fin y)" "bounded_by 0 (Fin 1)"
    using assms by (simp_all add: bounded_by_def two_pow_def)
  note b = this
  have "bounded_by 14 (dmul (Fin v) (Fin 10000))" using bounded_by_dmul [OF b(1,2)] by simp
  then have "bounded_by 24 (dmul (Fin mu) (dmul (Fin v) (Fin 10000)))" using bounded_by_dmul [OF b(4)] by fastforce
  moreover have "bounded_by 24 (Fin 1)" using b(6) by (rule bounded_by_mono) simp
  ultimately have "bounded_by 25 (dadd (Fin 1) (dmul (Fin mu) (dmul (Fin v) (Fin 10000))))"
    using bounded_by_dadd by fastforce
  then have "bounded_by 38 (dmul (Fin b) (dadd (Fin 1) (dmul (Fin mu) (dmul (Fin v) (Fin 10000)))))"
    using bounded_by_dmul [OF b(3)] by fastforce
  then have "bounded_by 58 (dmul (Fin y) (dmul (Fin b) (dadd (Fin 1) (dmul (Fin mu) (dmul (Fin v) (Fin 10000))))))"
    using bounded_by_dmul [OF b(5)] by fastforce
  then obtain g where g: "dmul (Fin y) (dmul (Fin b) (dadd (Fin 1) (dmul (Fin mu) (dmul (Fin v) (Fin 10000))))) = Fin g"
      "\<bar>g\<bar> \<le> two_pow 58"
    unfolding bounded_by_def by blast
  then have "Fin h = rnd (g / 10000)" using assms(1-3) by (simp add: half_spread_dollars_def del: dmul.simps dadd.simps)
  then have "h = rnd_rat (g / 10000)" by (intro rnd_FinD) simp
  moreover have "\<bar>rnd_rat (g / 10000)\<bar> \<le> two_pow 58" using rnd_two_pow(2) [of "g / 10000" 58] g(2) by simp
  moreover have "two_pow 58 \<le> two_pow 100" by (rule two_pow_mono) simp
  ultimately show ?thesis by linarith
qed

lemma targets_apart:
  assumes "spread_exceeds_threshold cfg" "mid_price book = Some (Fin y)" "1 \<le> y" "y \<le> 2 ^ 20"
    and "current_vol sqrt_fn micro = Fin v" "0 \<le> v" "v \<le> 1"
    and "quote_bid (decide sqrt_fn cfg book micro inventory now) \<or> quote_ask (decide sqrt_fn cfg book micro inventory now)"
  defines "qd \<equiv> decide sqrt_fn cfg book micro inventory now"
    and "th \<equiv> hysteresis (Fin y) (requote_threshold_bps cfg)"
  shows "0 \<le> th" "ticks (bid_price qd) + th < ticks (ask_price qd) - th"
proof -
  obtain b t mu k where cfg: "base_half_spread_bps cfg = Fin b" "requote_threshold_bps cfg = Fin t"
    "volatility_spread_multiplier cfg = Fin mu" "inventory_skew_bps_per_unit cfg = Fin k"
    "0 \<le> t" "t + 1 \<le> b" "b \<le> 2 ^ 13" "0 \<le> mu" "mu \<le> 2 ^ 10" "1 \<le> max_inventory_for_skew cfg"
    "max_inventory_for_skew cfg \<le> 2 ^ 53" "\<bar>k\<bar> * of_int (max_inventory_for_skew cfg) \<le> 2 ^ 8 * 10000"
    using spread_exceeds_thresholdE [OF assms(1)] .
  have b1: "1 \<le> b" "t \<le> 2 ^ 13" using cfg(5-7) by linarith+
  obtain mid bid ask where d: "mid_price book = Some mid"
    "bid = quote_bid_dollars cfg mid (current_vol sqrt_fn micro) inventory"
    "ask = quote_ask_dollars cfg mid (current_vol sqrt_fn micro) inventory" "\<not> dle bid (Fin 0)"
    "bid_price qd = from_double bid" "ask_price qd = from_double ask"
    using decide_cases [OF assms(8)] unfolding qd_def by (metis quote_decision.select_convs(3,4))
  then have mid: "mid = Fin y" using assms(2) by simp
  obtain h where h: "half_spread_dollars cfg (Fin y) (Fin v) = Fin h" "y * b / 10000 - two_pow (- 19) \<le> h"
    by (rule half_spread_lower [OF cfg(1,3) b1(1) cfg(7-9) assms(6,7,3,4)])
  have hu: "h \<le> two_pow 100" by (rule half_spread_upper [OF h(1) cfg(1,3) b1(1) cfg(7-9) assms(6,7,3,4)])
  obtain s where s: "inv_skew_dollars cfg (Fin y) inventory = Fin s" "\<bar>s\<bar> \<le> two_pow 30"
    by (rule skew_bounded [OF cfg(4,10-12) assms(3,4)])
  have yb: "0 \<le> y * b" using assms(3) b1(1) by simp
  have "two_pow (- 19) \<le> 1" by (simp add: two_pow_def)
  then have h0: "0 \<le> h + 1" using h(2) yb by linarith
  have e: "dsub (dsub (Fin y) (Fin h)) (Fin s) = bid" "dsub (dadd (Fin y) (Fin h)) (Fin s) = ask"
    unfolding d(2,3) mid assms(5) quote_bid_dollars_def quote_ask_dollars_def h(1) s(1) by simp_all
  obtain B A where BA: "bid = Fin B" "ask = Fin A" "0 < B" "A \<le> two_pow 33" "2 * h - two_pow (- 18) \<le> A - B"
    by (rule dollars_apart [OF e assms(3,4) s(2) h0 hu d(4)])
  have c: "two_pow (- 19) = 1 / 524288" "two_pow (- 18) = 1 / 262144" "two_pow (- 4) = 1 / 16" "two_pow (- 5) = 1 / 32"
    by (simp_all add: two_pow_def)
  have "y * 1 \<le> y * (b - t)" using cfg(6) assms(3) by (intro mult_left_mono) simp_all
  then have ybt: "1 \<le> y * b - y * t" using assms(3) by (simp add: right_diff_distrib)
  have yt: "0 \<le> y * t" using assms(3) cfg(5) by simp
  have AB: "B < A" "0 < A" "B \<le> two_pow 33" using BA(3-5) h(2) ybt yt unfolding c by linarith+
  note bt = from_double_error(1) [OF BA(3) AB(3)] and at = from_double_error(2) [OF AB(2) BA(4)]
  have "th = hysteresis (Fin y) (Fin t)" by (simp add: th_def cfg(2))
  then have th: "0 \<le> th" "of_int th \<le> y * t + two_pow (- 5)"
    using hysteresis_range [OF cfg(5) b1(2) assms(3,4)] by simp_all
  show "0 \<le> th" by (rule th(1))
  have "(of_int (ticks (bid_price qd)) + 2 * of_int th :: rat) < of_int (ticks (ask_price qd))"
    using bt at th(2) BA(5) h(2) ybt unfolding d(5,6) BA(1,2) c by linarith
  then have "(of_int (ticks (bid_price qd) + 2 * th) :: rat) < of_int (ticks (ask_price qd))" by simp
  then show "ticks (bid_price qd) + th < ticks (ask_price qd) - th" by (simp only: of_int_less_iff)
qed

end
