(* ===== verification/Pipeline_Quoting.thy ===== *)
theory Pipeline_Quoting
  imports Quote_Gap
begin

text \<open>
  What \<open>requote\<close> of \<open>src/common/pipeline.hpp\<close> leaves in the market: after every event that can move the
  targets, each resting quote belongs to the current decision of the strategy, up to the
  hysteresis; and along any run through calm markets the own bid stays below the own ask.
\<close>

section \<open>What does not change\<close>

lemma submit_frame [simp, keeps]:
  "p_strategy (submit s px sz ref now p) = p_strategy p" "p_micro (submit s px sz ref now p) = p_micro p"
  "requote_threshold (submit s px sz ref now p) = requote_threshold p"
  by (simp_all add: submit_def Let_def)

lemma config_keeps [simp, keeps]:
  "p_strategy (requote env el now p) = p_strategy p" "requote_threshold (requote env el now p) = requote_threshold p"
  "p_micro (requote env el now p) = p_micro p"
  "p_strategy (accept_event ev p) = p_strategy p" "requote_threshold (accept_event ev p) = requote_threshold p"
  "p_strategy (update_market env ev p) = p_strategy p" "requote_threshold (update_market env ev p) = requote_threshold p"
  "p_strategy (count_event p) = p_strategy p" "requote_threshold (count_event p) = requote_threshold p"
  "p_strategy (mark_portfolio p) = p_strategy p" "requote_threshold (mark_portfolio p) = requote_threshold p"
  by (simp_all add: requote_def replace_side_def accept_event_def resync_def cancel_resting_quotes_def
      update_market_def count_event_def mark_portfolio_def Let_def split: option.split)

lemma config_execution [simp, keeps]:
  "p_strategy (run_execution env ev p) = p_strategy p"
  "requote_threshold (run_execution env ev p) = requote_threshold p"
proof -
  have "p_strategy (fold apply_report rs q) = p_strategy q \<and> requote_threshold (fold apply_report rs q) = requote_threshold q"
    for rs and q :: "'a pipeline"
    by (induction rs arbitrary: q) simp_all
  then show "p_strategy (run_execution env ev p) = p_strategy p"
    "requote_threshold (run_execution env ev p) = requote_threshold p"
    by (simp_all add: run_execution_def split: prod.split)
qed

lemma config_ingest [simp, keeps]:
  "p_strategy (ingest env tm ev p) = p_strategy p" "requote_threshold (ingest env tm ev p) = requote_threshold p"
  by (simp_all add: ingest_def Let_def)

lemma config_step:
  assumes "pipe_step env p p'"
  shows "p_strategy p' = p_strategy p \<and> requote_threshold p' = requote_threshold p"
  using assms by (auto elim!: pipe_stepE simp: process_def on_clock_def cancel_resting_quotes_def Let_def)

section \<open>Slots\<close>

definition on_side :: "side \<Rightarrow> 'a \<Rightarrow> 'a \<Rightarrow> 'a" where
  "on_side s x y = (if s = Buy then x else y)"

text \<open>A resting quote that serves a decision: the side is quoted, the size is the target size, the
  price within the threshold of the target price.\<close>

definition serves :: "quote_decision \<Rightarrow> int \<Rightarrow> side \<Rightarrow> resting_quote \<Rightarrow> bool" where
  "serves qd th s q \<longleftrightarrow> on_side s (quote_bid qd) (quote_ask qd) \<and> rq_size q = on_side s (bid_size qd) (ask_size qd)
     \<and> \<bar>ticks (rq_price q) - ticks (on_side s (bid_price qd) (ask_price qd))\<bar> \<le> max 0 th"

lemma slot_submit_cases:
  "slot s (submit s px sz ref now p) = Some \<lparr>rq_id = next_order_id p, rq_price = px, rq_size = sz\<rparr>
   \<or> slot s (submit s px sz ref now p) = slot s p
     \<and> risk_rejects (stats (submit s px sz ref now p)) = risk_rejects (stats p) + 1"
  by (simp add: submit_def Let_def)

lemma slot_submit_other: "(s' = Buy) \<noteq> (s = Buy) \<Longrightarrow> slot s' (submit s px sz ref now p) = slot s' p"
  by (auto simp: submit_def Let_def)

lemma slot_replace_other: "(s' = Buy) \<noteq> (s = Buy) \<Longrightarrow> slot s' (replace_side s w px sz th ref now p) = slot s' p"
  by (simp add: replace_side_def slot_submit_other)

lemma rejects_grow:
  "risk_rejects (stats p) \<le> risk_rejects (stats (submit s px sz ref now p))"
  "risk_rejects (stats (cancel_side s now p)) = risk_rejects (stats p)"
  by (simp_all add: submit_def cancel_side_def Let_def split: option.split)

lemma rejects_replace: "risk_rejects (stats p) \<le> risk_rejects (stats (replace_side s w px sz th ref now p))"
  using rejects_grow(1) [of "cancel_side s now p"] by (simp add: replace_side_def rejects_grow(2))

lemma replace_side_serves:
  assumes "slot s (replace_side s True px sz th ref now p) = Some q"
  shows "rq_size q = sz \<and> \<bar>ticks (rq_price q) - ticks px\<bar> \<le> max 0 th"
proof (cases "needs_replace (slot s p) px sz th")
  case True
  then show ?thesis
    using assms slot_submit_cases [of s px sz ref now "cancel_side s now p"] by (auto simp: replace_side_def)
next
  case False
  then show ?thesis
    using assms by (auto simp: replace_side_def needs_replace_def Let_def split: option.splits if_splits)
qed

lemma replace_side_rejects:
  assumes "slot s (replace_side s True px sz th ref now p) = None"
  shows "risk_rejects (stats p) < risk_rejects (stats (replace_side s True px sz th ref now p))"
proof (cases "needs_replace (slot s p) px sz th")
  case True
  then show ?thesis
    using assms slot_submit_cases [of s px sz ref now "cancel_side s now p"]
    by (auto simp: replace_side_def rejects_grow(2))
next
  case False
  then show ?thesis using assms by (simp add: replace_side_def) (simp add: needs_replace_def)
qed

lemma replace_side_kept:
  "slot s p = Some q \<Longrightarrow> rq_size q = sz \<Longrightarrow> \<bar>ticks (rq_price q) - ticks px\<bar> \<le> th \<Longrightarrow>
   replace_side s w px sz th ref now p = p"
  by (auto simp: replace_side_def needs_replace_def Let_def)

lemma replace_side_unwanted [simp]: "replace_side s False px sz th ref now p = p"
  by (simp add: replace_side_def)

text \<open>The slots after \<open>requote\<close>.\<close>

lemma requote_slots:
  fixes p :: "'g pipeline" and env :: "'g env" and now :: int
  assumes "s = Buy \<or> s = Sell"
  defines "qd \<equiv> decide (env_sqrt env) (p_strategy p) (p_book p) (p_micro p) (position (pf_state (p_portfolio p))) now"
    and "th \<equiv> hysteresis (case mid_price (p_book p) of None \<Rightarrow> Fin 0 | Some m \<Rightarrow> m) (requote_threshold p)"
  shows "slot s (requote env el now p) = Some q \<Longrightarrow> serves qd th s q"
    "slot s (requote env el now p) = None \<Longrightarrow> on_side s (quote_bid qd) (quote_ask qd) \<Longrightarrow>
      risk_rejects (stats p) < risk_rejects (stats (requote env el now p))"
    "slot s p = Some q \<Longrightarrow> serves qd th s q \<Longrightarrow> 0 \<le> th \<Longrightarrow> slot s (requote env el now p) = Some q"
proof -
  define ref_price where "ref_price = (case mid_price (p_book p) of None \<Rightarrow> Fin 0 | Some m \<Rightarrow> m)"
  define p1 where "p1 = (if \<not> quote_bid qd then cancel_side Buy now p else p)"
  define p2 where "p2 = (if \<not> quote_ask qd then cancel_side Sell now p1 else p1)"
  define p3 where "p3 = replace_side Buy (quote_bid qd) (bid_price qd) (bid_size qd) th ref_price now p2"
  define p4 where "p4 = replace_side Sell (quote_ask qd) (ask_price qd) (ask_size qd) th ref_price now p3"
  have eq: "requote env el now p = p4\<lparr>stats := (stats p4)\<lparr>decision_latency := add_ns el (decision_latency (stats p4))\<rparr>\<rparr>"
    unfolding requote_def Let_def p4_def p3_def p2_def p1_def qd_def th_def hysteresis_def ref_price_def by simp
  have slots: "slot s (requote env el now p) = slot s p4" "risk_rejects (stats (requote env el now p)) = risk_rejects (stats p4)"
    by (simp_all add: eq)
  have "risk_rejects (stats p2) \<le> risk_rejects (stats p3)" "risk_rejects (stats p3) \<le> risk_rejects (stats p4)"
    unfolding p3_def p4_def by (rule rejects_replace)+
  moreover have "risk_rejects (stats p2) = risk_rejects (stats p)" by (simp add: p2_def p1_def rejects_grow(2))
  ultimately have rej: "risk_rejects (stats p2) = risk_rejects (stats p)" "risk_rejects (stats p) \<le> risk_rejects (stats p3)"
    "risk_rejects (stats p3) \<le> risk_rejects (stats p4)" by simp_all
  have buy: "slot Buy p4 = slot Buy p3" unfolding p4_def by (rule slot_replace_other) simp
  have gone: "\<not> quote_bid qd \<Longrightarrow> slot Buy p3 = None" "\<not> quote_ask qd \<Longrightarrow> slot Sell p4 = None"
  proof -
    show "\<not> quote_bid qd \<Longrightarrow> slot Buy p3 = None" by (simp add: p3_def p2_def p1_def)
    assume "\<not> quote_ask qd"
    moreover have "slot Sell p3 = slot Sell p2" unfolding p3_def by (rule slot_replace_other) simp
    ultimately show "slot Sell p4 = None" by (simp add: p4_def p2_def)
  qed
  have B: "serves qd th Buy q" if "slot Buy p3 = Some q"
  proof -
    have qb: "quote_bid qd" using that gone(1) by auto
    have "slot Buy (replace_side Buy True (bid_price qd) (bid_size qd) th ref_price now p2) = Some q"
      using that unfolding p3_def by (simp add: qb)
    from replace_side_serves [OF this] qb show ?thesis by (simp add: serves_def on_side_def)
  qed
  have S: "serves qd th Sell q" if "slot Sell p4 = Some q"
  proof -
    have qa: "quote_ask qd" using that gone(2) by auto
    have "slot Sell (replace_side Sell True (ask_price qd) (ask_size qd) th ref_price now p3) = Some q"
      using that unfolding p4_def by (simp add: qa)
    from replace_side_serves [OF this] qa show ?thesis by (simp add: serves_def on_side_def)
  qed
  show "serves qd th s q" if "slot s (requote env el now p) = Some q"
    using that assms(1) B S buy unfolding slots by auto
  have B': "risk_rejects (stats p2) < risk_rejects (stats p3)" if "slot Buy p3 = None" "quote_bid qd"
    using that(1) replace_side_rejects [of Buy "bid_price qd" "bid_size qd" th ref_price now p2] unfolding p3_def by (simp add: that(2))
  have S': "risk_rejects (stats p3) < risk_rejects (stats p4)" if "slot Sell p4 = None" "quote_ask qd"
    using that(1) replace_side_rejects [of Sell "ask_price qd" "ask_size qd" th ref_price now p3] unfolding p4_def by (simp add: that(2))
  show "risk_rejects (stats p) < risk_rejects (stats (requote env el now p))"
    if "slot s (requote env el now p) = None" "on_side s (quote_bid qd) (quote_ask qd)"
    using that assms(1) rej B' S' buy unfolding slots by (auto simp: on_side_def)
  show "slot s (requote env el now p) = Some q" if "slot s p = Some q" "serves qd th s q" "0 \<le> th"
    using assms(1)
  proof
    assume s: "s = Buy"
    then have "quote_bid qd" "slot Buy p2 = Some q" using that by (simp_all add: serves_def on_side_def p2_def p1_def)
    then have "slot Buy p3 = Some q" using that s by (simp add: p3_def replace_side_kept serves_def on_side_def)
    then show ?thesis using slots(1) buy s by simp
  next
    assume s: "s = Sell"
    have "slot Sell p3 = slot Sell p2" unfolding p3_def by (rule slot_replace_other) simp
    then have "quote_ask qd" "slot Sell p3 = Some q" using that s by (simp_all add: serves_def on_side_def p2_def p1_def)
    then have "slot Sell p4 = Some q" using that s by (simp add: p4_def replace_side_kept serves_def on_side_def)
    then show ?thesis using slots(1) s by simp
  qed
qed

section \<open>Slots over a run\<close>

lemma slot_shrinks:
  "slot s (accept_event ev p) \<in> {None, slot s p}" "slot s (run_execution env ev p) \<in> {None, slot s p}"
proof -
  show "slot s (accept_event ev p) \<in> {None, slot s p}"
    by (simp add: accept_event_def resync_def Let_def)
  obtain rs e where "on_market_event (env_draw env) (env_iter env) ev (p_exec p) = (rs, e)" by fastforce
  then show "slot s (run_execution env ev p) \<in> {None, slot s p}"
    by (simp add: run_execution_def slot_fold_reports split: option.split)
qed

lemma slot_ingest: "slot s (ingest env tm ev p) \<in> {None, slot s p}"
proof -
  let ?q = "accept_event ev p"
  have "slot s (update_market env ev ?q) = slot s ?q" by (simp add: update_market_def Let_def)
  moreover have "slot s (ingest env tm ev p) = slot s (run_execution env ev (update_market env ev ?q))"
    by (simp add: ingest_def Let_def)
  ultimately show ?thesis
    using slot_shrinks(1) [of s ev p] slot_shrinks(2) [of s env ev "update_market env ev ?q"] by auto
qed

text \<open>An accepted event that can move the targets, on a book that is not crossed.\<close>

definition requotes :: "'g env \<Rightarrow> timings \<Rightarrow> market_event \<Rightarrow> 'g pipeline \<Rightarrow> bool" where
  "requotes env tm ev p \<longleftrightarrow> \<not> is_duplicate ev p \<and> \<not> crossed (p_book (process env tm ev p))
     \<and> ev_type ev \<in> {Quote, BookDelete, Snapshot}"

lemma process_requotes:
  assumes "requotes env tm ev p"
  shows "process env tm ev p = requote env (decision_ns tm) (ev_timestamp ev) (ingest env tm ev (count_event p))"
proof -
  let ?i = "ingest env tm ev (count_event p)"
  have "p_book (process env tm ev p) = p_book ?i"
    using assms by (simp add: requotes_def process_def Let_def)
  then show ?thesis using assms by (auto simp: requotes_def process_def Let_def)
qed

lemma process_slots:
  assumes "\<not> requotes env tm ev p"
  shows "slot s (process env tm ev p) \<in> {None, slot s p}"
proof -
  let ?i = "ingest env tm ev (count_event p)"
  have "\<not> is_duplicate ev p \<Longrightarrow> p_book (process env tm ev p) = p_book ?i" by (simp add: process_def Let_def)
  then show ?thesis
    using assms slot_ingest [of s env tm ev "count_event p"] by (auto simp: requotes_def process_def Let_def)
qed

lemma rejects_keeps [simp, keeps]:
  "risk_rejects (stats (count_event p)) = risk_rejects (stats p)"
  "risk_rejects (stats (accept_event ev p)) = risk_rejects (stats p)"
  "risk_rejects (stats (update_market env ev p)) = risk_rejects (stats p)"
  "risk_rejects (stats (run_execution env ev p)) = risk_rejects (stats p)"
  "risk_rejects (stats (mark_portfolio p)) = risk_rejects (stats p)"
proof -
  have f: "risk_rejects (stats (fold apply_report rs q)) = risk_rejects (stats q)" for rs and q :: "'a pipeline"
  proof (induction rs arbitrary: q)
    case (Cons r rs)
    have "risk_rejects (stats (apply_report r q)) = risk_rejects (stats q)" by (simp add: apply_report_def Let_def)
    with Cons show ?case by simp
  qed simp
  show "risk_rejects (stats (run_execution env ev p)) = risk_rejects (stats p)"
    by (simp add: run_execution_def f split: prod.split)
  show "risk_rejects (stats (accept_event ev p)) = risk_rejects (stats p)"
    by (simp add: accept_event_def resync_def cancel_resting_quotes_def rejects_grow(2) Let_def)
qed (simp_all add: count_event_def update_market_def mark_portfolio_def Let_def split: option.split)

lemma rejects_ingest [simp, keeps]: "risk_rejects (stats (ingest env tm ev p)) = risk_rejects (stats p)"
  by (simp add: ingest_def Let_def)

section \<open>Properties\<close>


section \<open>Calm runs\<close>

text \<open>A market state in which mid price and volatility are in the range of the error analysis.\<close>

definition calm :: "'g env \<Rightarrow> 'g pipeline \<Rightarrow> bool" where
  "calm env p \<longleftrightarrow>
     (case mid_price (p_book p) of None \<Rightarrow> True | Some m \<Rightarrow> (case m of Fin y \<Rightarrow> 1 \<le> y \<and> y \<le> 2 ^ 20 | _ \<Rightarrow> False))
   \<and> (case short_term_volatility (env_sqrt env) (p_micro p) of None \<Rightarrow> True
      | Some v \<Rightarrow> (case v of Fin x \<Rightarrow> 0 \<le> x \<and> x \<le> 1 | _ \<Rightarrow> False))"

inductive calm_run :: "'g env \<Rightarrow> 'g pipeline \<Rightarrow> 'g pipeline \<Rightarrow> bool" for env p0 where
  calm_start: "calm_run env p0 p0"
| calm_step: "calm_run env p0 p \<Longrightarrow> pipe_step env p p' \<Longrightarrow> calm env p' \<Longrightarrow> calm_run env p0 p'"

definition apart :: "'g pipeline \<Rightarrow> bool" where
  "apart p \<longleftrightarrow> (\<forall>b a. slot Buy p = Some b \<and> slot Sell p = Some a \<longrightarrow> ticks (rq_price b) < ticks (rq_price a))"

lemma apart_shrinks: "apart p \<Longrightarrow> (\<And>s. slot s p' \<in> {None, slot s p}) \<Longrightarrow> apart p'"
  unfolding apart_def by (metis insert_iff singletonD option.distinct(1))

lemma apart_requote:
  fixes p :: "'g pipeline"
  assumes "spread_exceeds_threshold (p_strategy p)" "requote_threshold p = requote_threshold_bps (p_strategy p)" "calm env p"
  shows "apart (requote env el now p)"
  unfolding apart_def
proof (intro allI impI, elim conjE)
  fix b a
  let ?qd = "decide (env_sqrt env) (p_strategy p) (p_book p) (p_micro p) (position (pf_state (p_portfolio p))) now"
  let ?th = "hysteresis (case mid_price (p_book p) of None \<Rightarrow> Fin 0 | Some m \<Rightarrow> m) (requote_threshold p)"
  assume "slot Buy (requote env el now p) = Some b" "slot Sell (requote env el now p) = Some a"
  then have ba: "serves ?qd ?th Buy b" "serves ?qd ?th Sell a"
    using requote_slots(1) [of Buy env el now p b] requote_slots(1) [of Sell env el now p a] by simp_all
  then have q: "quote_bid ?qd \<or> quote_ask ?qd" by (simp add: serves_def on_side_def)
  obtain mid where "mid_price (p_book p) = Some mid" using decide_cases [OF q] by blast
  then obtain y where y: "mid_price (p_book p) = Some (Fin y)" "1 \<le> y" "y \<le> 2 ^ 20"
    using assms(3) by (cases mid) (simp_all add: calm_def)
  obtain v where v: "current_vol (env_sqrt env) (p_micro p) = Fin v" "0 \<le> v" "v \<le> 1"
    using assms(3) by (auto simp: calm_def current_vol_def split: option.splits double.splits)
  note t = targets_apart [OF assms(1) y v q]
  have th: "?th = hysteresis (Fin y) (requote_threshold_bps (p_strategy p))" by (simp add: y(1) assms(2))
  have "\<bar>ticks (rq_price b) - ticks (bid_price ?qd)\<bar> \<le> hysteresis (Fin y) (requote_threshold_bps (p_strategy p))"
    "\<bar>ticks (rq_price a) - ticks (ask_price ?qd)\<bar> \<le> hysteresis (Fin y) (requote_threshold_bps (p_strategy p))"
    using ba t(1) unfolding th by (simp_all add: serves_def on_side_def)
  then show "ticks (rq_price b) < ticks (rq_price a)" using t(2) by linarith
qed

lemma apart_step:
  assumes "pipe_step env p p'" "apart p" "calm env p'" "spread_exceeds_threshold (p_strategy p)"
    "requote_threshold p = requote_threshold_bps (p_strategy p)"
  shows "apart p'"
  using assms(1)
proof cases
  case (event tm ev)
  show ?thesis
  proof (cases "requotes env tm ev p")
    case True
    let ?i = "ingest env tm ev (count_event p)"
    have "calm env ?i" using assms(3) unfolding event process_requotes [OF True] by (simp add: calm_def)
    with assms(4,5) show ?thesis unfolding event process_requotes [OF True] by (intro apart_requote) simp_all
  next
    case False
    from process_slots [OF this] show ?thesis unfolding event by (rule apart_shrinks [OF assms(2)])
  qed
next
  case (clock now)
  have "slot s (on_clock now p) \<in> {None, slot s p}" for s by (simp add: on_clock_def)
  then show ?thesis unfolding clock by (rule apart_shrinks [OF assms(2)])
qed

lemma calm_run_apart:
  assumes "calm_run env (new_pipeline sd sy cfg) p" "spread_exceeds_threshold (cfg_strategy cfg)"
  shows "apart p \<and> p_strategy p = cfg_strategy cfg \<and> requote_threshold p = requote_threshold_bps (cfg_strategy cfg)"
  using assms(1)
proof (induction rule: calm_run.induct)
  case calm_start
  show ?case by (simp add: apart_def new_pipeline_def slot_def)
next
  case (calm_step p p')
  with assms(2) config_step [OF calm_step.hyps(2)] apart_step [OF calm_step.hyps(2)] show ?case by auto
qed

text \<open>
  C3: The own quotes never cross.  If the half-spread of the configuration exceeds the requote
  threshold by at least a basis point, then on every run of events and clock calls with mid prices
  from one dollar to \<open>2^20\<close> dollars and a volatility of at most 1, the resting bid is always below the
  resting ask, even though the two may stem from different decisions.
\<close>

theorem own_quotes_never_cross:
  assumes "calm_run env (new_pipeline sd sy cfg) p" "spread_exceeds_threshold (cfg_strategy cfg)"
    "resting_bid p = Some b" "resting_ask p = Some a"
  shows "rq_price b < rq_price a"
proof -
  have "apart p" using calm_run_apart [OF assms(1,2)] by blast
  then show ?thesis using assms(3,4) by (simp add: apart_def slot_def less_price_def)
qed

section \<open>A run with two quotes\<close>

text \<open>The default configuration meets the condition: a half-spread of 5 against a threshold of 1.\<close>

lemma default_spread: "spread_exceeds_threshold default_strategy_config"
  by (simp add: spread_exceeds_threshold_def default_strategy_config_def)

lemma wide_spread: "spread_exceeds_threshold wide_config"
  by (simp add: spread_exceeds_threshold_def wide_config_def default_strategy_config_def)

lemma demo_two_requote:
  "requotes demo_env demo_tm demo_ask demo_one"
  "p_micro demo_two = default_micro\<lparr>last_mid := Some (Fin 100)\<rparr>"
proof -
  have ev: "ev_type demo_ask = Quote" by (simp add: demo_ask_def make_quote_def)
  have "\<not> is_duplicate demo_ask demo_one"
    by (simp add: is_duplicate_def demo_one_fields demo_ask_def make_quote_def seq_2_1)
  moreover have "\<not> crossed (p_book demo_two)" by (simp add: demo_two_eval demo_book_two_mid)
  ultimately show r: "requotes demo_env demo_tm demo_ask demo_one"
    by (simp add: requotes_def ev flip: demo_two_def)
  show "p_micro demo_two = default_micro\<lparr>last_mid := Some (Fin 100)\<rparr>"
    unfolding demo_two_def process_requotes [OF r] by (simp add: demo_ingest)
qed

lemma demo_calm: "calm demo_env demo_one" "calm demo_env demo_two"
proof -
  show "calm demo_env demo_one"
    by (simp add: calm_def demo_one_eval demo_defs mid_price_def best_bid_def best_ask_def short_term_volatility_def)
  show "calm demo_env demo_two"
    by (simp add: calm_def demo_two_eval demo_book_two_mid demo_two_requote(2))
      (simp add: short_term_volatility_def default_micro_def new_micro_def)
qed


theorem own_quotes_never_cross_witness:
  "\<exists>b a. calm_run demo_env demo_start demo_two \<and> resting_bid demo_two = Some b \<and> resting_ask demo_two = Some a
     \<and> rq_price b < rq_price a"
proof -
  have one: "pipe_step demo_env demo_start demo_one" unfolding demo_one_def by (rule event)
  have two: "pipe_step demo_env demo_one demo_two" unfolding demo_two_def by (rule event)
  have run: "calm_run demo_env demo_start demo_two"
    by (rule calm_step [OF calm_step [OF calm_start one demo_calm(1)] two demo_calm(2)])
  obtain b a where ba: "resting_bid demo_two = Some b" "resting_ask demo_two = Some a"
    using demo_two_eval by blast
  have "spread_exceeds_threshold (cfg_strategy demo_cfg)" by (simp add: demo_cfg_def wide_spread)
  from own_quotes_never_cross [OF run [unfolded demo_start_def] this ba] run ba show ?thesis by blast
qed

end
