(* ===== verification/Loss_Limit.thy ===== *)
theory Loss_Limit
  imports Pipeline_Quoting
begin

text \<open>
  The loss limit of \<open>src/risk/risk_engine.hpp\<close> inside the pipeline of \<open>src/common/pipeline.hpp\<close>.  The risk
  engine compares a total P\&L in doubles; \<open>Pipeline_Pnl\<close> bounds its distance from the cash account,
  so the limit works on the money that is really lost.
\<close>

section \<open>Refusal\<close>

definition limit_reached :: "'g pipeline \<Rightarrow> bool" where
  "limit_reached p \<longleftrightarrow> dle (total_pnl (pf_state (p_portfolio p))) (dneg (max_daily_loss (p_risk p)))"

lemma submit_refused:
  assumes "limit_reached p"
  shows "submit s px sz ref now p = p\<lparr>stats := (stats p)\<lparr>risk_rejects := risk_rejects (stats p) + 1\<rparr>\<rparr>"
  using assms by (simp add: submit_def limit_reached_def risk_check_Approved Let_def)

lemma limit_reached_cancel [simp]: "limit_reached (cancel_side s now p) = limit_reached p"
  by (simp add: limit_reached_def)

lemma limit_reached_requote [simp]: "limit_reached (requote env el now p) = limit_reached p"
proof -
  have "p_risk (requote env el now p) = p_risk p" by (simp add: requote_def Let_def)
  then show ?thesis by (simp add: limit_reached_def)
qed

lemma replace_side_refused:
  assumes "limit_reached p"
  shows "slot s' (replace_side s w px sz th ref now p) \<in> {None, slot s' p}"
    "quotes_submitted (stats (replace_side s w px sz th ref now p)) = quotes_submitted (stats p)"
    "limit_reached (replace_side s w px sz th ref now p)"
  using assms by (simp_all add: replace_side_def submit_refused) (simp add: limit_reached_def)

lemma requote_refused:
  fixes p :: "'g pipeline"
  assumes "limit_reached p"
  shows "slot s (requote env el now p) \<in> {None, slot s p}"
    "quotes_submitted (stats (requote env el now p)) = quotes_submitted (stats p)"
proof -
  define qd where "qd = decide (env_sqrt env) (p_strategy p) (p_book p) (p_micro p) (position (pf_state (p_portfolio p))) now"
  define p2 where "p2 = (let p1 = (if \<not> quote_bid qd then cancel_side Buy now p else p)
    in if \<not> quote_ask qd then cancel_side Sell now p1 else p1)"
  have p2: "limit_reached p2" "slot s p2 \<in> {None, slot s p}" "quotes_submitted (stats p2) = quotes_submitted (stats p)"
    using assms by (simp_all add: p2_def Let_def)
  obtain b tb a ta th ref where eq: "requote env el now p =
      (let p3 = replace_side Buy (quote_bid qd) b tb th ref now p2; p4 = replace_side Sell (quote_ask qd) a ta th ref now p3
       in p4\<lparr>stats := (stats p4)\<lparr>decision_latency := add_ns el (decision_latency (stats p4))\<rparr>\<rparr>)"
    by (simp add: requote_def Let_def p2_def qd_def)
  define p3 where "p3 = replace_side Buy (quote_bid qd) b tb th ref now p2"
  define p4 where "p4 = replace_side Sell (quote_ask qd) a ta th ref now p3"
  have r3: "slot s p3 \<in> {None, slot s p2}" "quotes_submitted (stats p3) = quotes_submitted (stats p2)" "limit_reached p3"
    unfolding p3_def by (rule replace_side_refused [OF p2(1)])+
  have r4: "slot s p4 \<in> {None, slot s p3}" "quotes_submitted (stats p4) = quotes_submitted (stats p3)"
    unfolding p4_def by (rule replace_side_refused [OF r3(3)])+
  show "slot s (requote env el now p) \<in> {None, slot s p}"
    using r4(1) r3(1) p2(2) by (auto simp: eq Let_def simp flip: p3_def p4_def)
  show "quotes_submitted (stats (requote env el now p)) = quotes_submitted (stats p)"
    using r4(2) r3(2) p2(3) by (simp add: eq Let_def flip: p3_def p4_def)
qed

lemma process_refused:
  assumes "limit_reached (process env tm ev p)"
  shows "slot s (process env tm ev p) \<in> {None, slot s p}"
    "quotes_submitted (stats (process env tm ev p)) = quotes_submitted (stats p)"
proof -
  let ?i = "ingest env tm ev (count_event p)"
  show "slot s (process env tm ev p) \<in> {None, slot s p}"
  proof (cases "requotes env tm ev p")
    case True
    have "limit_reached ?i" using assms unfolding process_requotes [OF True] by simp
    from requote_refused(1) [OF this, of s env "decision_ns tm" "ev_timestamp ev"] show ?thesis
      unfolding process_requotes [OF True] using slot_ingest [of s env tm ev "count_event p"] by auto
  qed (rule process_slots)
  show "quotes_submitted (stats (process env tm ev p)) = quotes_submitted (stats p)"
  proof (cases "requotes env tm ev p")
    case True
    have "limit_reached ?i" using assms unfolding process_requotes [OF True] by simp
    from requote_refused(2) [OF this] show ?thesis unfolding process_requotes [OF True] by simp
  next
    case False
    have "\<not> is_duplicate ev p \<Longrightarrow> p_book (process env tm ev p) = p_book ?i" by (simp add: process_def Let_def)
    then show ?thesis
      using False by (auto simp: requotes_def process_def cancel_resting_quotes_def Let_def)
  qed
qed

text \<open>
  C4: A real loss stops the quoting.  If after an event the cash account, with the position valued
  at the mid, is below the negative loss limit by more than the rounding error of the P\&L, then
  this event submitted no quote, and every quote still resting was resting before: none is
  replaced.
\<close>

theorem real_loss_stops_quoting:
  assumes "traded env (new_pipeline sd sy cfg) fs p" "\<not> is_duplicate ev p"
    and "mid_price (p_book (process env tm ev p)) = Some (Fin y)"
    and "\<forall>f\<in>set (fs @ fills_of env ev p). modest_fill k f" "total_qty (fs @ fills_of env ev p) \<le> 2 ^ 53"
    and "\<bar>y\<bar> \<le> two_pow k" "0 \<le> k" "k \<le> 39" "max_daily_loss (cfg_risk_limits cfg) = Fin L"
  defines "gs \<equiv> fs @ fills_of env ev p"
  assumes "cash gs + of_int (net_qty gs) * y + of_nat (7 * length gs + 8) * (of_int (total_qty gs) * two_pow k * two_pow (- 53)) \<le> - L"
  shows "quotes_submitted (stats (process env tm ev p)) = quotes_submitted (stats p)
    \<and> slot Buy (process env tm ev p) \<in> {None, slot Buy p} \<and> slot Sell (process env tm ev p) \<in> {None, slot Sell p}"
proof -
  let ?p = "process env tm ev p"
  have "reachable env (new_pipeline sd sy cfg) ?p"
    using traded_event [OF assms(1)] reachable_traded by blast
  then have "max_daily_loss (p_risk ?p) = Fin L" using assms(9) by (simp add: reachable_risk)
  moreover obtain t where "total_pnl (pf_state (p_portfolio ?p)) = Fin t"
      "\<bar>t - (cash gs + of_int (net_qty gs) * y)\<bar> \<le> of_nat (7 * length gs + 8) * (of_int (total_qty gs) * two_pow k * two_pow (- 53))"
    using pnl_tracks_cash [OF assms(1-8), folded gs_def] by blast
  ultimately have "limit_reached ?p" using assms(11) by (simp add: limit_reached_def abs_le_iff)
  from process_refused [OF this] show ?thesis by blast
qed

section \<open>A losing short position\<close>

text \<open>One share of the resting ask at 150 dollars is lifted, then the only ask of the market is
  deleted and a new one at 9901 dollars moves the mid to 5000 dollars.\<close>

definition demo_lift :: market_event where
  "demo_lift = make_trade 3 3 ''AAPL'' Buy (Price 1510000) 1"

definition demo_gone :: market_event where
  "demo_gone = make_delete 4 4 ''AAPL'' Sell (Price 1010000)"

definition demo_spike :: market_event where
  "demo_spike = make_quote 5 5 ''AAPL'' Sell (Price 99010000) 10"

definition demo_short :: "unit pipeline" where
  "demo_short = process demo_env demo_tm demo_gone (process demo_env demo_tm demo_lift demo_two)"

lemmas demo_moves = demo_lift_def demo_gone_def demo_spike_def make_trade_def make_delete_def make_quote_def

lemma seq_steps: "\<not> (3 :: u64) \<le> 2" "\<not> (4 :: u64) \<le> 3" "\<not> (5 :: u64) \<le> 4"
  by (simp_all add: word_le_nat_alt)

lemma demo_lift_fills: "fills_of demo_env demo_lift demo_two = [(Sell, Price 1500000, 1)]"
proof -
  have d: "\<not> is_duplicate demo_lift demo_two" "\<not> is_gap demo_lift demo_two" "\<not> is_late (ev_timestamp demo_lift) demo_two"
    by (simp_all add: is_duplicate_def is_gap_def is_late_def demo_two_eval demo_moves seq_steps)
  have e: "p_exec (accept_event demo_lift (count_event demo_two)) = p_exec demo_two"
    by (simp add: accept_event_def d Let_def)
  show ?thesis
    unfolding fills_of_def if_not_P [OF d(1)] e
    by (simp add: demo_two_eval demo_moves on_market_event_def demo_env_def fill_one_def submit_limit_def new_engine_def
        crosses_def fill_size_def make_fill_report_def remaining_quantity_def less_eq_price_def fill_of_def Let_def)
qed

lemma demo_short_run:
  "traded demo_env demo_start [(Sell, Price 1500000, 1)] demo_short" "fills_of demo_env demo_spike demo_short = []"
  "\<not> is_duplicate demo_spike demo_short"
  "mid_price (p_book (process demo_env demo_tm demo_spike demo_short)) = Some (Fin 5000)"
proof -
  let ?p = "process demo_env demo_tm demo_lift demo_two"
  have d2: "\<not> is_duplicate demo_lift demo_two" "\<not> is_gap demo_lift demo_two" "\<not> is_late (ev_timestamp demo_lift) demo_two"
    by (simp_all add: is_duplicate_def is_gap_def is_late_def demo_two_eval demo_moves seq_steps)
  have p: "p_last_sequence ?p = Some 3" "last_event_ts ?p = Some 3" "stale_threshold ?p = 5000000000"
      "p_book ?p = apply_event demo_lift demo_book_two"
    using d2 by (simp_all add: process_feed last_event_ts_process demo_two_eval) (simp_all add: demo_moves)
  have d3: "\<not> is_duplicate demo_gone ?p" "\<not> is_gap demo_gone ?p" "\<not> is_late (ev_timestamp demo_gone) ?p"
    by (simp_all add: is_duplicate_def is_gap_def is_late_def p demo_gone_def make_delete_def seq_steps demo_two_eval)
  have q: "p_last_sequence demo_short = Some 4" "last_event_ts demo_short = Some 4" "stale_threshold demo_short = 5000000000"
      "p_book demo_short = apply_event demo_gone (apply_event demo_lift demo_book_two)"
  proof -
    show "p_last_sequence demo_short = Some 4"
      unfolding demo_short_def process_feed if_not_P [OF d3(1)] by (simp add: demo_gone_def make_delete_def)
    show "last_event_ts demo_short = Some 4"
      unfolding demo_short_def last_event_ts_process [OF d3(1)] by (simp add: demo_gone_def make_delete_def)
    show "stale_threshold demo_short = 5000000000" by (simp add: demo_short_def demo_two_eval)
    show "p_book demo_short = apply_event demo_gone (apply_event demo_lift demo_book_two)"
      unfolding demo_short_def process_feed if_not_P [OF d3(1)] using d2 d3(2,3) by (simp add: demo_two_eval)
  qed
  show d4: "\<not> is_duplicate demo_spike demo_short"
    by (simp add: is_duplicate_def q demo_spike_def make_quote_def seq_steps)
  have "\<not> is_gap demo_spike demo_short" "\<not> is_late (ev_timestamp demo_spike) demo_short"
    by (simp_all add: is_gap_def is_late_def q demo_spike_def make_quote_def)
  then have b: "p_book (process demo_env demo_tm demo_spike demo_short) =
      apply_event demo_spike (apply_event demo_gone (apply_event demo_lift demo_book_two))"
    using d4 by (simp add: process_feed q)
  show "mid_price (p_book (process demo_env demo_tm demo_spike demo_short)) = Some (Fin 5000)"
    unfolding b by (simp add: demo_moves demo_book_two_def run_eval erase_def erase_levels_def to_double_def kScale_def fp_eval)
  have none: "fills_of demo_env demo_gone ?p = []"
    by (simp add: fills_of_def on_market_event_def demo_gone_def make_delete_def)
  show "fills_of demo_env demo_spike demo_short = []"
    by (simp add: fills_of_def on_market_event_def demo_spike_def make_quote_def)
  show "traded demo_env demo_start [(Sell, Price 1500000, 1)] demo_short"
    using traded_event [OF traded_event [OF demo_two_traded, of demo_lift demo_tm], of demo_gone demo_tm]
    by (simp add: demo_lift_fills none demo_short_def)
qed

theorem real_loss_stops_quoting_witness:
  "cash [(Sell, Price 1500000, 1)] + of_int (net_qty [(Sell, Price 1500000, 1)]) * 5000 = - 4850
   \<and> quotes_submitted (stats (process demo_env demo_tm demo_spike demo_short)) = quotes_submitted (stats demo_short)"
proof -
  let ?gs = "[(Sell, Price 1500000, 1)] @ fills_of demo_env demo_spike demo_short"
  have gs: "\<forall>f\<in>set ?gs. modest_fill 13 f" "total_qty ?gs \<le> 2 ^ 53"
    by (simp_all add: demo_short_run(2) two_pow_def)
  have y: "\<bar>5000 :: rat\<bar> \<le> two_pow 13" "(0 :: int) \<le> 13" "(13 :: int) \<le> 39" by (simp_all add: two_pow_def)
  have L: "max_daily_loss (cfg_risk_limits demo_cfg) = Fin 2000" by (simp add: demo_cfg_def default_risk_limits_def)
  have "cash ?gs + of_int (net_qty ?gs) * 5000
      + of_nat (7 * length ?gs + 8) * (of_int (total_qty ?gs) * two_pow 13 * two_pow (- 53)) \<le> - 2000"
    by (simp add: demo_short_run(2) signed_qty_def two_pow_def)
  from real_loss_stops_quoting [OF demo_short_run(1) [unfolded demo_start_def] demo_short_run(3,4) gs y L this]
  show ?thesis by (simp add: signed_qty_def)
qed

end
