(* ===== verification/Order_Limits.thy ===== *)
theory Order_Limits
  imports Pipeline_Quoting
begin

text \<open>
  The limits of \<open>src/risk/risk_engine.hpp\<close> on the orders that the pipeline of
  \<open>src/common/pipeline.hpp\<close> really places: each stage of \<open>requote\<close> only adds orders that the risk
  engine has approved for the position, the P\&L, the mid and the book the pipeline ends up with.
\<close>

section \<open>What the risk engine saw\<close>

definition within_limits :: "int \<Rightarrow> 'g pipeline \<Rightarrow> order \<Rightarrow> bool" where
  "within_limits now p o' \<longleftrightarrow> o_filled o' = 0 \<and> o_created_time o' = now
     \<and> 0 < o_quantity o' \<and> o_quantity o' \<le> max_order_size (p_risk p)
     \<and> \<bar>position (pf_state (p_portfolio p)) + signed_delta (o_side o') (o_quantity o')\<bar> \<le> max_position (p_risk p)
     \<and> \<not> dle (total_pnl (pf_state (p_portfolio p))) (dneg (max_daily_loss (p_risk p)))
     \<and> (\<exists>mid. mid_price (p_book p) = Some mid
          \<and> \<not> dlt (max_notional (p_risk p)) (dmul (d_of_int (o_quantity o')) mid))"

text \<open>A stage of \<open>requote\<close>: it may withdraw orders and place new ones that are within the limits, and
  when it places one, the cap on the open orders still holds afterwards.\<close>

definition places_checked :: "int \<Rightarrow> 'g pipeline \<Rightarrow> 'g pipeline \<Rightarrow> bool" where
  "places_checked now p p' \<longleftrightarrow> p_book p' = p_book p \<and> p_portfolio p' = p_portfolio p \<and> p_risk p' = p_risk p
     \<and> (\<forall>i o'. get_order i (p_exec p') = Some o' \<longrightarrow> get_order i (p_exec p) = Some o' \<or> within_limits now p o')
     \<and> ((\<forall>i. get_order i (p_exec p') \<noteq> None \<longrightarrow> get_order i (p_exec p) \<noteq> None)
          \<and> open_order_count (p_exec p') \<le> open_order_count (p_exec p)
        \<or> open_order_count (p_exec p') \<le> max_open_orders (p_risk p))"

lemma places_checked_refl [simp]: "places_checked now p p"
  by (simp add: places_checked_def)

lemma places_checked_trans:
  assumes "places_checked now p q" "places_checked now q r"
  shows "places_checked now p r"
proof -
  have w: "within_limits now q = within_limits now p" using assms(1) by (simp add: places_checked_def within_limits_def fun_eq_iff)
  show ?thesis
    using assms unfolding places_checked_def w by (metis order_trans)
qed

lemma places_checkedD:
  assumes "places_checked now p p'" "get_order i (p_exec p') = Some o'" "get_order i (p_exec p) = None"
  shows "within_limits now p o'" "open_order_count (p_exec p') \<le> max_open_orders (p_risk p)"
  using assms unfolding places_checked_def by (metis option.distinct(1))+

lemma places_checked_withdrawn:
  assumes "p_book p' = p_book p" "p_portfolio p' = p_portfolio p" "p_risk p' = p_risk p"
    "\<And>i o'. get_order i (p_exec p') = Some o' \<Longrightarrow> get_order i (p_exec p) = Some o'"
    "open_order_count (p_exec p') \<le> open_order_count (p_exec p)"
  shows "places_checked now p p'"
  using assms unfolding places_checked_def by (metis option.exhaust)

lemma places_checked_cancel: "places_checked now p (cancel_side s t p)"
proof (cases "slot s p")
  case (Some q)
  then have e: "p_exec (cancel_side s t p) = snd (cancel (rq_id q) t (p_exec p))" by (simp add: cancel_side_def Let_def)
  show ?thesis
  proof (rule places_checked_withdrawn)
    show "open_order_count (p_exec (cancel_side s t p)) \<le> open_order_count (p_exec p)"
      unfolding e by (simp add: cancel_def open_order_count_def AList.delete_eq split: option.split)
  qed (simp_all add: e get_order_cancel split: if_splits)
qed (simp add: cancel_side_def)

lemma length_update_le: "length (AList.update k v xs) \<le> Suc (length xs)"
  by (induction xs) auto

lemma places_checked_submit:
  assumes "mid_price (p_book p) = Some ref"
  shows "places_checked now p (submit s px sz ref now p)"
proof -
  let ?i = "\<lparr>order_quantity = sz, order_side = s, reference_price = ref,
     current_position = position (pf_state (p_portfolio p)), current_daily_pnl = total_pnl (pf_state (p_portfolio p)),
     current_open_orders = open_order_count (p_exec p), input_stale = market_data_stale p\<rparr>"
  show ?thesis
  proof (cases "risk_check (p_risk p) ?i = Approved")
    case True
    let ?e = "snd (submit_limit (next_order_id p) (ob_symbol (p_book p)) s px sz now (p_exec p))"
    from True have a: "open_order_count (p_exec p) < max_open_orders (p_risk p)" "0 < sz" "sz \<le> max_order_size (p_risk p)"
        "\<bar>position (pf_state (p_portfolio p)) + signed_delta s sz\<bar> \<le> max_position (p_risk p)"
        "\<not> dle (total_pnl (pf_state (p_portfolio p))) (dneg (max_daily_loss (p_risk p)))"
        "\<not> dlt (max_notional (p_risk p)) (dmul (d_of_int sz) ref)"
      unfolding risk_check_Approved by simp_all
    have "p_exec (submit s px sz ref now p) = ?e" using True by (simp add: submit_def Let_def)
    moreover have "within_limits now p o'" if "get_order i ?e = Some o'" "get_order i (p_exec p) \<noteq> Some o'" for i o'
      using that a assms
      by (auto simp: submit_limit_def get_order_def update_conv' within_limits_def Let_def split: if_splits)
    moreover have "open_order_count ?e \<le> max_open_orders (p_risk p)"
      using a(1) length_update_le [of _ _ "open_orders (p_exec p)"]
      by (simp add: submit_limit_def open_order_count_def Let_def) (meson Suc_leI le_trans)
    ultimately show ?thesis by (auto simp: places_checked_def)
  qed (simp add: submit_def Let_def places_checked_def)
qed

lemma places_checked_replace:
  assumes "wanted \<Longrightarrow> mid_price (p_book p) = Some ref"
  shows "places_checked now p (replace_side s wanted px sz th ref now p)"
proof -
  have "places_checked now p (submit s px sz ref now (cancel_side s now p))" if wanted
    by (rule places_checked_trans [OF places_checked_cancel places_checked_submit]) (simp add: assms that)
  then show ?thesis by (simp add: replace_side_def)
qed

lemma decide_mid:
  assumes "quote_bid (decide sqrt_fn cfg book micro inventory now) \<or> quote_ask (decide sqrt_fn cfg book micro inventory now)"
  obtains mid where "mid_price book = Some mid"
  using assms by (rule decide_cases) blast

lemma places_checked_requote: "places_checked now p (requote env el now p)"
proof -
  define qd where "qd = decide (env_sqrt env) (p_strategy p) (p_book p) (p_micro p) (position (pf_state (p_portfolio p))) now"
  define ref_price where "ref_price = (case mid_price (p_book p) of None \<Rightarrow> Fin 0 | Some m \<Rightarrow> m)"
  define th where "th = hysteresis ref_price (requote_threshold p)"
  define p1 where "p1 = (if \<not> quote_bid qd then cancel_side Buy now p else p)"
  define p2 where "p2 = (if \<not> quote_ask qd then cancel_side Sell now p1 else p1)"
  define p3 where "p3 = replace_side Buy (quote_bid qd) (bid_price qd) (bid_size qd) th ref_price now p2"
  define p4 where "p4 = replace_side Sell (quote_ask qd) (ask_price qd) (ask_size qd) th ref_price now p3"
  have ref: "quote_bid qd \<or> quote_ask qd \<Longrightarrow> mid_price (p_book p) = Some ref_price"
    unfolding qd_def by (erule decide_mid) (simp add: ref_price_def)
  have books: "p_book p2 = p_book p" "p_book p3 = p_book p" by (simp_all add: p3_def p2_def p1_def replace_side_def)
  have c1: "places_checked now p p1" unfolding p1_def by (simp add: places_checked_cancel)
  have c2: "places_checked now p1 p2" unfolding p2_def by (simp add: places_checked_cancel)
  have c3: "places_checked now p2 p3" unfolding p3_def by (rule places_checked_replace) (simp add: ref books)
  have c4: "places_checked now p3 p4" unfolding p4_def by (rule places_checked_replace) (simp add: ref books)
  have "requote env el now p = p4\<lparr>stats := (stats p4)\<lparr>decision_latency := add_ns el (decision_latency (stats p4))\<rparr>\<rparr>"
    unfolding requote_def Let_def p4_def p3_def p2_def p1_def qd_def th_def hysteresis_def ref_price_def by simp
  then have "places_checked now p4 (requote env el now p)" by (simp add: places_checked_def)
  with c1 c2 c3 c4 show ?thesis by (blast intro: places_checked_trans)
qed

lemma open_after_ingest:
  assumes "pipe_inv p" "valid_iter (env_iter env)" "quotes_submitted (stats p) < 2 ^ 64"
    "get_order i (p_exec (ingest env tm ev (count_event p))) \<noteq> None"
  shows "get_order i (p_exec p) \<noteq> None"
proof -
  let ?i = "ingest env tm ev (count_event p)"
  have "pipe_inv (count_event p)" using assms(1) by (simp add: count_event_def)
  then have "pipe_inv ?i" using assms(2) by (rule pipe_inv_ingest)
  then have ok: "orders_ok ?i" "orders_ok p" using assms(1,3) by (simp_all add: pipe_inv_def count_event_def)
  have sl: "slot s ?i \<in> {None, slot s p}" for s using slot_ingest [of s env tm ev "count_event p"] by (simp add: count_event_def)
  obtain q where "slot Buy ?i = Some q \<or> slot Sell ?i = Some q" "rq_id q = i"
    using assms(4) open_iff_slot [OF ok(1)] by (auto simp: slot_def)
  then have "slot Buy p = Some q \<or> slot Sell p = Some q" using sl [of Buy] sl [of Sell] by auto
  with \<open>rq_id q = i\<close> show ?thesis unfolding open_iff_slot [OF ok(2)] by (auto simp: slot_def)
qed

lemma open_after_cancel: "get_order i (p_exec (cancel_side s now p)) \<noteq> None \<Longrightarrow> get_order i (p_exec p) \<noteq> None"
  by (auto simp: cancel_side_def get_order_cancel Let_def split: option.splits if_splits)

lemma open_after_clock: "get_order i (p_exec (on_clock now p)) \<noteq> None \<Longrightarrow> get_order i (p_exec p) \<noteq> None"
proof -
  have "get_order i (p_exec (cancel_resting_quotes now q)) \<noteq> None \<Longrightarrow> get_order i (p_exec q) \<noteq> None" for q :: "'a pipeline"
    unfolding cancel_resting_quotes_def by (rule open_after_cancel [OF open_after_cancel])
  from this [of "p\<lparr>market_data_stale := True, stats := (stats p)\<lparr>clock_stale_events := clock_stale_events (stats p) + 1\<rparr>\<rparr>"]
  show "get_order i (p_exec (on_clock now p)) \<noteq> None \<Longrightarrow> get_order i (p_exec p) \<noteq> None"
    by (simp add: on_clock_def split: if_splits)
qed

lemma notional_bound:
  assumes "\<not> dlt (Fin cap) (dmul (d_of_int q) (Fin y))" "0 < q" "q \<le> 2 ^ 53" "\<bar>y\<bar> \<le> two_pow 64" "1 \<le> cap"
  shows "of_int q * y * (1 - two_pow (- 53)) \<le> cap"
proof -
  let ?x = "of_int q * y"
  have "of_int q \<le> (of_int (2 ^ 53) :: rat)" using assms(3) by (simp only: of_int_le_iff)
  then have "\<bar>?x\<bar> \<le> two_pow 53 * two_pow 64"
    using assms(2,4) unfolding abs_mult by (intro mult_mono) (simp_all add: two_pow_def)
  also have "\<dots> \<le> two_pow 1023" by (simp flip: two_pow_add)
  finally have "rnd ?x = Fin (rnd_rat ?x)" by (rule rnd_Fin)
  then have le: "rnd_rat ?x \<le> cap" using assms(1-3) by (simp add: d_of_int_exact not_less)
  have e: "(0 :: rat) \<le> two_pow (- 53)" "two_pow (- 53) \<le> (1 :: rat)" by (simp_all add: two_pow_def)
  show ?thesis
  proof (cases "1 \<le> ?x")
    case True
    then have "two_pow (- 1022) \<le> \<bar>?x\<bar>" using two_pow_mono [of "- 1022" 0] by (simp add: two_pow_0)
    from rnd_rat_rel_error [OF this] True le show ?thesis by (simp add: algebra_simps abs_le_iff)
  next
    case False
    have "?x * (1 - two_pow (- 53)) \<le> 1"
    proof (cases "0 \<le> ?x")
      case True
      with False e show ?thesis using mult_mono [of ?x 1 "1 - two_pow (- 53)" 1] by simp
    next
      case False
      then show ?thesis using e mult_nonpos_nonneg [of ?x "1 - two_pow (- 53)"] by linarith
    qed
    with assms(5) show ?thesis by linarith
  qed
qed

text \<open>
  C10: Every order has passed every limit.  An order that is open after an event and was not open
  before was created by this very event, on a book that the event has just updated and that is not
  crossed, and not while the data were flagged as stale; it has a positive size within the size
  limit and nothing of it is filled; its notional at the mid is within the limit, up to one
  rounding; filling it completely keeps the position within its limit; the marked P\&L is above the
  loss limit; and no more orders are open than permitted.  The clock never adds an order, and from
  no state in which the data are flagged as stale is an order placed.
\<close>

theorem new_orders_pass_every_limit:
  fixes p :: "'g pipeline" and env :: "'g env" and ev :: market_event and tm :: timings and cfg :: pipeline_config
  defines "p' \<equiv> process env tm ev p" and "lims \<equiv> cfg_risk_limits cfg"
  assumes "reachable env (new_pipeline sd sy cfg) p" "valid_iter (env_iter env)" "quotes_submitted (stats p') < 2 ^ 64"
    and "get_order i (p_exec p) = None" "get_order i (p_exec p') = Some o'"
    and "max_order_size lims \<le> 2 ^ 53" "max_daily_loss lims = Fin L" "max_notional lims = Fin cap" "1 \<le> cap"
  shows "o_created_time o' = ev_timestamp ev \<and> last_update_time (p_book p') = ev_timestamp ev
    \<and> \<not> crossed (p_book p') \<and> \<not> market_data_stale p'
    \<and> 0 < o_quantity o' \<and> o_quantity o' \<le> max_order_size lims \<and> o_filled o' = 0
    \<and> (\<exists>mid. mid_price (p_book p') = Some mid \<and> (\<forall>y. mid = Fin y \<and> \<bar>y\<bar> \<le> two_pow 64 \<longrightarrow>
          of_int (o_quantity o') * y * (1 - two_pow (- 53)) \<le> cap))
    \<and> \<bar>position (pf_state (p_portfolio p')) + signed_delta (o_side o') (o_quantity o')\<bar> \<le> max_position lims
    \<and> (\<forall>t. total_pnl (pf_state (p_portfolio p')) = Fin t \<longrightarrow> - L < t)
    \<and> open_order_count (p_exec p') \<le> max_open_orders lims
    \<and> (\<forall>j now. get_order j (p_exec (on_clock now p)) \<noteq> None \<longrightarrow> get_order j (p_exec p) \<noteq> None)
    \<and> (\<forall>(q :: 'g pipeline) s px sz ref now. market_data_stale q \<longrightarrow> p_exec (submit s px sz ref now q) = p_exec q)"
proof -
  let ?i = "ingest env tm ev (count_event p)" and ?now = "ev_timestamp ev"
  have inv: "pipe_inv p" by (rule pipe_inv_reachable [OF assms(3,4)])
  have inv': "pipe_inv p'"
    unfolding p'_def by (rule pipe_inv_reachable [OF reachable.step [OF assms(3) pipe_step.event] assms(4)])
  have lt: "quotes_submitted (stats p) < 2 ^ 64"
    using assms(5) quotes_submitted_process(1) [of p env tm ev] by (simp add: p'_def)
  have rq: "requotes env tm ev p"
  proof (rule ccontr)
    assume n: "\<not> requotes env tm ev p"
    have ok: "orders_ok p" "orders_ok p'" using inv inv' lt assms(5) by (simp_all add: pipe_inv_def)
    have sl: "slot s p' \<in> {None, slot s p}" for s unfolding p'_def by (rule process_slots [OF n])
    have "i \<in> rq_id ` (set_option (resting_bid p') \<union> set_option (resting_ask p'))"
      using assms(7) open_iff_slot [OF ok(2), of i] by simp
    then have "i \<in> rq_id ` (set_option (resting_bid p) \<union> set_option (resting_ask p))"
      using sl [of Buy] sl [of Sell] by (auto simp: slot_def)
    then show False using assms(6) open_iff_slot [OF ok(1), of i] by simp
  qed
  then have p': "p' = requote env (decision_ns tm) ?now ?i" unfolding p'_def by (rule process_requotes)
  have c: "places_checked ?now ?i p'" unfolding p' by (rule places_checked_requote)
  have new: "get_order i (p_exec ?i) = None" using open_after_ingest [OF inv assms(4) lt] assms(6) by blast
  have risk: "p_risk ?i = lims"
    using c reachable_risk [OF reachable.step [OF assms(3) pipe_step.event], of tm ev]
    by (simp add: places_checked_def lims_def p'_def)
  have frame: "p_book p' = p_book ?i" "p_portfolio p' = p_portfolio ?i" using c by (simp_all add: places_checked_def)
  have w: "within_limits ?now ?i o'" using c assms(7) new by (rule places_checkedD)
  then obtain mid where mid: "mid_price (p_book p') = Some mid" "\<not> dlt (Fin cap) (dmul (d_of_int (o_quantity o')) mid)"
    by (auto simp: within_limits_def risk frame assms(10))
  have q: "0 < o_quantity o'" "o_quantity o' \<le> max_order_size lims" using w by (simp_all add: within_limits_def risk)
  have n: "\<forall>y. mid = Fin y \<and> \<bar>y\<bar> \<le> two_pow 64 \<longrightarrow> of_int (o_quantity o') * y * (1 - two_pow (- 53)) \<le> cap"
    using notional_bound [of cap "o_quantity o'"] mid(2) q assms(8,11) by auto
  have "\<forall>t. total_pnl (pf_state (p_portfolio p')) = Fin t \<longrightarrow> - L < t"
    using w by (auto simp: within_limits_def risk frame assms(9))
  moreover have "open_order_count (p_exec p') \<le> max_open_orders lims"
    using places_checkedD(2) [OF c assms(7) new] by (simp add: risk)
  moreover have "\<not> crossed (p_book p')" using rq by (simp add: requotes_def p'_def)
  moreover have "last_update_time (p_book p') = ?now" by (simp add: frame last_update_apply_event)
  moreover have "\<not> market_data_stale p'" by (simp add: p')
  moreover have "get_order j (p_exec p) \<noteq> None" if "get_order j (p_exec (on_clock now p)) \<noteq> None" for j now
    using that by (rule open_after_clock)
  moreover have "p_exec (submit s px sz ref now q) = p_exec q" if "market_data_stale q" for q :: "'g pipeline" and s px sz ref now
    using that by (simp add: submit_def risk_check_Approved Let_def)
  ultimately show ?thesis using w q mid(1) n by (auto simp: within_limits_def risk frame)
qed

theorem new_orders_pass_every_limit_witness:
  "\<exists>o'. get_order 1 (p_exec demo_one) = None \<and> get_order 1 (p_exec demo_two) = Some o'
     \<and> o_created_time o' = 2 \<and> o_quantity o' \<le> 100 \<and> open_order_count (p_exec demo_two) \<le> 20"
proof -
  have lims: "max_order_size (cfg_risk_limits demo_cfg) = 100" "max_daily_loss (cfg_risk_limits demo_cfg) = Fin 2000"
    "max_notional (cfg_risk_limits demo_cfg) = Fin 100000" "max_open_orders (cfg_risk_limits demo_cfg) = 20"
    by (simp_all add: demo_cfg_def default_risk_limits_def)
  have "reachable demo_env demo_start demo_one"
    unfolding demo_one_def by (rule reachable.step [OF reachable.start pipe_step.event])
  note r = this [unfolded demo_start_def]
  have q: "quotes_submitted (stats (process demo_env demo_tm demo_ask demo_one)) < 2 ^ 64"
    by (simp add: demo_two_eval flip: demo_two_def)
  have none: "get_order 1 (p_exec demo_one) = None" by (simp add: demo_one_fields get_order_def new_engine_def)
  obtain o' where o': "get_order 1 (p_exec demo_two) = Some o'"
    by (simp add: demo_two_eval get_order_def submit_limit_def new_engine_def Let_def)
  from new_orders_pass_every_limit [OF r demo_env_iter q none o' [unfolded demo_two_def] _ lims(2,3)]
  show ?thesis using none o' by (simp add: lims demo_two_def [symmetric]) (simp add: demo_ask_def make_quote_def)
qed

end
