(* ===== verification/Spec2Isabelle.thy ===== *)
theory Spec2Isabelle
  imports Market_Engine Object_Pool Data_Tools Ring_Memory Loss_Limit Order_Limits
begin

text \<open>
  \<^bold>\<open>A verified model of a limit order book and market-making engine\<close>

  The program turns a feed of market events into quotes.  Events come from a recorded log
  (replay), from a seeded generator or from a live trade feed.  A single-threaded pipeline applies
  each event to an order book, updates market metrics, fills its simulated resting orders, marks
  its portfolio and decides new quotes, which pass a risk check before they become orders.  In live
  mode the feed runs in a thread of its own and a ring buffer carries the events to the pipeline.

  \<^bold>\<open>Theories and the code they model\<close> (file names below \<open>src/\<close> of the repository)

  \<^item> \<open>Prelude\<close>: machine types, fact collections, list lemmas.  \<open>Doubles\<close>: binary64 arithmetic with
    rounding to nearest even on rationals, infinities and NaN; rounding is monotone, exact on
    representable numbers and within \<open>2^-53\<close> relative error.
  \<^item> \<open>Market_Types\<close>: \<open>common/types.hpp\<close>, \<open>marketdata/events.hpp\<close>.
  \<^item> \<open>Order_Book\<close>: \<open>orderbook/order_book.hpp\<close> and the \<open>std::map\<close> reference of
    \<open>benchmarks/bench_order_book.cpp\<close>.  Sorting invariant, refinement to the map (levels, best prices and
    depth of bids), mid price.
    \<open>Book_Streams\<close>: books along a stream of events.
  \<^item> \<open>Risk_Engine\<close>, \<open>Portfolio\<close>, \<open>Strategy\<close>, \<open>Microstructure\<close>, \<open>Latency_Stats\<close>: the headers of the same
    subject, with all arithmetic in the order of the source.  \<open>Pnl_Accuracy\<close>: the P\&L of the portfolio
    against exact cash accounting, one bound on the rounding error per fill and one for the mark.
    \<open>Quote_Gap\<close>: how far apart the bid target of one decision and the ask target of another must be.
  \<^item> \<open>Execution\<close>: \<open>execution/order.hpp\<close>, \<open>paper_execution_engine.{hpp,cpp}\<close>.  \<open>Order_Venue\<close>: the contract
    the pipeline relies on (locale \<open>order_venue\<close>), interpreted by the execution engine.
  \<^item> \<open>Pipeline\<close>: \<open>common/pipeline.hpp\<close>, the whole of \<open>process\<close> and \<open>on_clock\<close>.  \<open>Pipeline_Invariant\<close>: the
    invariant of its reachable states.  \<open>Pipeline_Properties\<close>: position limit, resting quotes, order
    accounting.  \<open>Pipeline_Feed\<close>: duplicates, gaps, stale and crossed books.  \<open>Pipeline_Timing\<close>:
    measured durations reach nothing but the latency statistics.  \<open>Pipeline_Pnl\<close>: the position, volume
    and P\&L after a run against the fills reported in it.  \<open>Pipeline_Quoting\<close>: what \<open>requote\<close> leaves in
    the market, and why the own quotes do not cross.  \<open>Loss_Limit\<close>: the loss limit of the risk engine
    works on the money really lost.  \<open>Order_Limits\<close>: every order that is placed was within all limits.
  \<^item> \<open>Ring_Buffer\<close>: \<open>concurrency/spsc_ring_buffer.hpp\<close>, as whole operations (locale \<open>bounded_fifo\<close>) and as
    interleaved memory accesses.  \<open>Ring_Memory\<close>: its atomics with their memory orders, where a thread
    may read a stale value of the other's counter; release and acquire keep its slots free of data
    races and the transfer first-in first-out.  \<open>Object_Pool\<close>: \<open>common/object_pool.hpp\<close> (locale
    \<open>allocator\<close>).
  \<^item> \<open>Event_Codec\<close>: \<open>replay/event_codec.{hpp,cpp}\<close>, byte for byte.  \<open>Replay\<close>: \<open>replay/replay_engine.hpp\<close>.
  \<^item> \<open>Trade_Tape\<close>: \<open>marketdata/trade_tape_adapter.hpp\<close>.  \<open>Finnhub\<close>: \<open>marketdata/finnhub_parser.cpp\<close> and
    \<open>finnhub_client.cpp\<close>.  \<open>Synthetic_Book\<close>: \<open>tools/synthetic_book.hpp\<close> and the event loop of
    \<open>tools/synthetic_data_gen.cpp\<close>.
  \<^item> \<open>Cli_Args\<close>: \<open>common/cli_args.hpp\<close>.  \<open>Data_Tools\<close>: the programs \<open>tools/synthetic_data_gen.cpp\<close> and
    \<open>tools/finnhub_recorder.cpp\<close>; what they write fits the format of the log and reads back.
  \<^item> \<open>apps/market_engine.cpp\<close> takes four theories.  \<open>Live_Run\<close>: what the two threads of live mode do with
    ring buffer and pipeline, in any order.  \<open>Reports\<close>: the console report and the JSON report.
    \<open>Live_Session\<close>: a session from the start of the client through signal or deadline to the final
    drain and the report, as a step relation over the program points of the main loop.
    \<open>Market_Engine\<close>: configuration, replay mode and \<open>main\<close>; what a replayed log and a live session end in.
  \<^item> this theory: from the generator to the pipeline, with the events handed over directly and through
    a log that \<open>market_engine\<close> replays.

  \<^bold>\<open>How the code is represented.\<close>  A class is a record of its members, a member function a function
  from the object to the result and the new object.  Signed 64-bit quantities are integers: their
  overflow is undefined in C++, and theorems that need the range state it (\<open>int64_ok\<close>, bounds on
  prices of \<open>2^49\<close> ticks, on positions of \<open>2^52\<close>).  The bounds on the P\&L hold for prices up to \<open>2^39\<close>
  dollars and a traded volume up to \<open>2^53\<close>, beyond which a quantity is no longer exact as a double; those
  on the quotes for mids from 1 to \<open>2^20\<close> dollars and a volatility of at most 1, where the rounding errors
  stay below the margin of one basis point that the configuration must leave.  Sequence numbers and order ids are 64-bit words;
  statements that would be false after a wrap-around assume fewer than \<open>2^64\<close> events or orders.
  Exceptions and undefined behaviour are values of sum types.  Loops are recursive functions with
  termination proofs; the drain at shutdown is a partial function and is proved to return.  Nothing
  needs fuel.

  \<^bold>\<open>Parameters.\<close>  What the repository does not define is an argument: the random distributions and
  the iteration order of \<open>std::unordered_map\<close> (theorems hold for all of them, within the ranges the
  standard gives), \<open>std::log\<close>, \<open>std::sqrt\<close>, \<open>std::pow\<close>, \<open>std::stod\<close> and \<open>std::stol\<close>, clock readings, the
  build option \<open>LOB_BUILD_LIVE_FEED\<close>, the file system as a map from paths to bytes, and the JSON and web-socket libraries.

  \<^bold>\<open>Not modelled.\<close>  The benchmark harnesses, cache-line padding, diagnostics on standard error, and the
  web-socket connection itself, whose messages are inputs.  Reports are sequences of texts and values:
  how the stream library prints a number is left open.  A file that has been opened for writing takes
  every byte: the source checks no write, and a full disk is outside the model.  The doubles have one zero, so the sign of a
  zero is lost.  In \<open>Ring_Memory\<close> the memory orders are those of the C++ model restricted to two
  threads and two counters, each written by one thread only.
\<close>

section \<open>Synthetic sessions\<close>

text \<open>A pipeline that has processed the events up to number \<open>k\<close> of a clean stream.\<close>

definition in_step :: "u64 \<Rightarrow> int \<Rightarrow> 'g pipeline \<Rightarrow> bool" where
  "in_step k t p \<longleftrightarrow> 2000000 \<le> stale_threshold p
     \<and> p_last_sequence p \<in> {None, Some (k - 1)} \<and> last_event_ts p \<in> {None, Some t}"

lemma clean_event:
  assumes "in_step k t p" "ev_sequence ev = k" "k \<noteq> 0" "ev_timestamp ev \<le> t + 2000000"
    "feed_counters p = (n, 0, 0, 0)" "\<not> crossed (apply_event ev (p_book p))"
  shows "in_step (k + 1) (ev_timestamp ev) (process env tm ev p)
    \<and> p_book (process env tm ev p) = apply_event ev (p_book p)
    \<and> feed_counters (process env tm ev p) = (n + 1, 0, 0, 0)"
proof -
  have "k - 1 < k" using assms(3) by (simp add: word_less_nat_alt unat_minus_one) (simp add: unat_gt_0)
  then have d: "\<not> is_duplicate ev p" using assms(1,2) by (auto simp: in_step_def is_duplicate_def)
  have "\<not> is_gap ev p" "\<not> is_late (ev_timestamp ev) p"
    using assms(1,2,4) by (auto simp: in_step_def is_gap_def is_late_def)
  with d have b: "p_book (process env tm ev p) = apply_event ev (p_book p)" by (simp add: process_feed)
  moreover have "feed_counters (process env tm ev p) = (n + 1, 0, 0, 0)"
    using assms(5,6) d \<open>\<not> is_gap ev p\<close> b by (simp add: feed_counters_process) (simp add: feed_counters_def)
  moreover have "in_step (k + 1) (ev_timestamp ev) (process env tm ev p)"
    using assms(1,2) d by (simp add: in_step_def process_feed last_event_ts_process)
  ultimately show ?thesis by blast
qed

lemma clean_stream:
  assumes "in_step k t p" "consecutive k evs" "paced t evs" "throughout separated apply_event evs (p_book p)"
    "feed_counters p = (n, 0, 0, 0)" "0 < unat k" "unat k + length evs \<le> 2 ^ 64" "length tms = length evs"
  shows "p_book (fold (\<lambda>(tm, ev). process env tm ev) (zip tms evs) p) = fold apply_event evs (p_book p)
    \<and> feed_counters (fold (\<lambda>(tm, ev). process env tm ev) (zip tms evs) p) = (n + length evs, 0, 0, 0)"
  using assms
proof (induction evs arbitrary: k t p n tms)
  case (Cons ev evs)
  obtain tm tms' where tms: "tms = tm # tms'" using Cons.prems(8) by (cases tms) auto
  have "separated (apply_event ev (p_book p))" using Cons.prems(4) by (auto dest: throughout_start)
  then have e: "in_step (k + 1) (ev_timestamp ev) (process env tm ev p)
      \<and> p_book (process env tm ev p) = apply_event ev (p_book p)
      \<and> feed_counters (process env tm ev p) = (n + 1, 0, 0, 0)"
    using Cons.prems by (intro clean_event [of k t]) (auto dest: separated_not_crossed)
  show ?case
  proof (cases evs)
    case Nil
    then show ?thesis using e by (simp add: tms)
  next
    case (Cons ev' evs')
    then have "unat k + 1 < 2 ^ 64" using Cons.prems(7) by simp
    then have "unat (k + 1) = unat k + 1" by (simp add: unat_word_ariths)
    then show ?thesis
      using Cons.IH [of "k + 1" "ev_timestamp ev" "process env tm ev p" "n + 1" tms'] Cons.prems e by (simp add: tms)
  qed
qed simp

text \<open>Data from the synthetic generator runs through the pipeline without any incident: with a
  staleness limit of at least two milliseconds, every event is applied to the book, none is
  dropped as out of order, no gap is seen and no event finds the book crossed.\<close>

lemma synthetic_session_is_clean:
  assumes "fair d" "0 < ticks (from_double tick_size)" "n < 2 ^ 64 - 1"
    and "gen_events d n (new_gen seeded seed start_price tick_size sy) = (evs, s')"
    and "2000000 \<le> seconds_to_ns (max_staleness_sec (cfg_strategy cfg))" "length tms = n"
  shows "p_book (fold (\<lambda>(tm, ev). process env tm ev) (zip tms evs) (new_pipeline sd psy cfg)) =
      fold apply_event evs (new_book psy)
    \<and> events_processed (stats (fold (\<lambda>(tm, ev). process env tm ev) (zip tms evs) (new_pipeline sd psy cfg))) = n
    \<and> out_of_order_dropped (stats (fold (\<lambda>(tm, ev). process env tm ev) (zip tms evs) (new_pipeline sd psy cfg))) = 0
    \<and> sequence_gaps (stats (fold (\<lambda>(tm, ev). process env tm ev) (zip tms evs) (new_pipeline sd psy cfg))) = 0
    \<and> crossed_book_events (stats (fold (\<lambda>(tm, ev). process env tm ev) (zip tms evs) (new_pipeline sd psy cfg))) = 0"
proof -
  let ?g = "new_gen seeded seed start_price tick_size sy" and ?p = "new_pipeline sd psy cfg"
  have g: "length evs = n" "consecutive 1 evs" "paced (g_time ?g) evs" "throughout separated apply_event evs (new_book psy)"
    using gen_events_sound [OF assms(1) new_gen_mirrors [OF assms(2)] assms(4)] by (simp_all add: new_gen_def)
  have "in_step 1 (g_time ?g) ?p" "feed_counters ?p = (0, 0, 0, 0)" "p_book ?p = new_book psy"
    using assms(5) by (simp_all add: in_step_def new_pipeline_def feed_counters_def zero_stats_def)
  then show ?thesis
    using clean_stream [of 1 "g_time ?g" ?p evs 0 tms env] g assms(3,6) by (simp add: feed_counters_def)
qed

section \<open>From the generator to the replay\<close>

lemma configured_staleness:
  assumes "make_config api capi args cfg = Inr pc"
  shows "2000000 \<le> seconds_to_ns (max_staleness_sec (cfg_strategy pc))"
proof -
  obtain c where c: "build_pipeline_config api capi cfg = Inr c" "cfg_strategy pc = cfg_strategy c"
    using assms by (auto simp: make_config_def split: sum.splits)
  from build_config_value [OF c(1)] show ?thesis
    by (simp add: c(2) config_of_def Let_def default_strategy_config_def seconds_to_ns_def fp_eval)
qed

text \<open>C17: The two programs work together.  A log written by \<open>synthetic_data_gen\<close>, for any seed, draws
  and parameters within the range of a price, is replayed by \<open>market_engine\<close> under any
  configuration it accepts: every generated event is read and processed, none is dropped as out
  of order, no gap is seen and no event finds the book crossed.\<close>

theorem generated_log_replays_cleanly:
  assumes "fair d" "data_gen_main d seeded stod stol max_events can_write fs argv = Inr r" "max_events < 2 ^ 63"
    and "get_long_or stol (cli_parse argv) ''events'' 1000000 = Inr num_events" "int64_ok num_events" "num_events \<le> 10 ^ 12"
    and "get_double_or stod (cli_parse argv) ''start-price'' (Fin 190) = Inr start_price"
    and "get_double_or stod (cli_parse argv) ''tick-size'' (rnd (1 / 100)) = Inr tick_size" "0 < ticks (from_double tick_size)"
    and "\<bar>ticks (from_double start_price)\<bar> + (num_events + 10) * ticks (from_double tick_size) < 2 ^ 63"
    and "get_or (cli_parse argv) ''symbol'' ''AAPL'' = sy"
    and "get_or (cli_parse argv) ''out'' (''data/'' @ sy @ ''_synthetic.bin'') = path" "path \<noteq> []"
    and "get_or (cli_parse argv') ''mode'' ''replay'' = ''replay''" "get_or (cli_parse argv') ''data'' [] = path"
    and "config_for capi (tr_files r) (get_or (cli_parse argv') ''config'' ''config/config.local.json'') = Inr cfg"
    and "make_config api capi (cli_parse argv') cfg = Inr pc"
  shows "\<exists>summary p out fs'.
      engine_main api capi stod' stol' ri env_key (tr_files r) argv' = Inr (Replayed summary p out fs')
    \<and> events_replayed summary = nat num_events \<and> events_processed (stats p) = nat num_events
    \<and> out_of_order_dropped (stats p) = 0 \<and> sequence_gaps (stats p) = 0 \<and> crossed_book_events (stats p) = 0"
proof -
  obtain seed evs g where run: "0 \<le> num_events"
      "gen_events d (nat num_events) (new_gen seeded seed start_price tick_size (symbol_of sy)) = (evs, g)"
      "write_events_to_file can_write path evs fs = Inr (tr_files r)"
    by (rule data_gen_run [OF assms(2-5,7,8,11,12)])
  have st: "\<forall>ev\<in>set evs. storable ev"
    by (rule new_gen_storable [OF assms(1,9) _ _ run(2)]) (use assms(6,10) run(1) in simp_all)
  have cw: "can_write path" using run(3) by (auto simp: write_events_to_file_def split: if_splits)
  have lg: "read_events_from_file path (tr_files r) = Inr evs"
    by (rule read_written_file [where can_write = can_write and path = path and fs = fs, OF cw st]) (use run(3) in simp)
  have len: "length evs = nat num_events"
    using gen_events_sound [OF assms(1) new_gen_mirrors [OF assms(9)] run(2)] by blast
  have n: "nat num_events < 2 ^ 64 - 1" using assms(6) by simp
  note clean = synthetic_session_is_clean [OF assms(1,9) n run(2) configured_staleness [OF assms(17)],
      of "map (ri_timings ri) [0..<length evs]" "ri_env ri" "ri_seeded ri"
      "symbol_of (get_or (cli_parse argv') ''symbol'' ''AAPL'')"]
  from replay_mode_runs [OF assms(14,15,13,16,17) lg, of stod' stol' ri env_key] clean len show ?thesis
    by auto
qed

theorem generated_log_replays_cleanly_witness:
  "\<exists>r summary p out fs'.
      data_gen_main loaded_dice unat (\<lambda>s. Some (if s = ''1'' then Fin 1 else Fin 100)) (\<lambda>_. Some 3) 1000 (\<lambda>_. True) Map.empty
        [''--events=3'', ''--start-price=100'', ''--tick-size=1''] = Inr r
    \<and> engine_main demo_api demo_capi (\<lambda>_. None) (\<lambda>_. None) demo_inputs None (tr_files r)
        [''--data=data/AAPL_synthetic.bin''] = Inr (Replayed summary p out fs')
    \<and> events_processed (stats p) = 3 \<and> sequence_gaps (stats p) = 0"
proof -
  let ?stod = "\<lambda>s. Some (if s = ''1'' then Fin 1 else Fin 100)" and ?stol = "\<lambda>_ :: string. Some (3 :: int)"
  let ?argv = "[''--events=3'', ''--start-price=100'', ''--tick-size=1'']" and ?argv' = "[''--data=data/AAPL_synthetic.bin'']"
  let ?path = "''data/AAPL_synthetic.bin''"
  have args: "get_long_or ?stol (cli_parse ?argv) ''events'' 1000000 = Inr 3"
    "get_long_or ?stol (cli_parse ?argv) ''seed'' 1234 = Inr 1234"
    "get_double_or ?stod (cli_parse ?argv) ''start-price'' (Fin 190) = Inr (Fin 100)"
    "get_double_or ?stod (cli_parse ?argv) ''tick-size'' (rnd (1 / 100)) = Inr (Fin 1)"
    "get_or (cli_parse ?argv) ''symbol'' ''AAPL'' = ''AAPL''"
    "get_or (cli_parse ?argv) ''out'' (''data/'' @ ''AAPL'' @ ''_synthetic.bin'') = ?path"
    by (simp_all add: cli_parse_def get_or_def get_double_or_def get_long_or_def cli_get_def)
  have args': "get_or (cli_parse ?argv') ''mode'' ''replay'' = ''replay''" "get_or (cli_parse ?argv') ''data'' [] = ?path"
    "get_or (cli_parse ?argv') ''config'' ''config/config.local.json'' = ''config/config.local.json''"
    by (simp_all add: cli_parse_def get_or_def cli_get_def)
  obtain evs g where e: "gen_events loaded_dice 3 (new_gen unat 1234 (Fin 100) (Fin 1) (symbol_of ''AAPL'')) = (evs, g)"
    by fastforce
  obtain r where r: "data_gen_main loaded_dice unat ?stod ?stol 1000 (\<lambda>_. True) Map.empty ?argv = Inr r" "dom (tr_files r) \<subseteq> {?path}"
    unfolding data_gen_main_def Let_def args by (auto simp: write_events_to_file_def e)
  have none: "tr_files r ''config/config.local.json'' = None" "tr_files r ''config/config.example.json'' = None"
    using r(2) by auto
  have cfg: "config_for demo_capi (tr_files r) (get_or (cli_parse ?argv') ''config'' ''config/config.local.json'') = Inr (DObj [])"
    unfolding args' by (simp add: config_for_def load_config_def none demo_capi_def)
  have mk: "make_config demo_api demo_capi (cli_parse ?argv') (DObj []) =
      Inr (default_pipeline_config\<lparr>cfg_profile_stages := has_arg (cli_parse ?argv') ''profile-stages''\<rparr>)"
    by (simp add: make_config_def build_pipeline_config_def demo_api_def)
  have t: "ticks (from_double (Fin 1)) = 10000" "ticks (from_double (Fin 100)) = 1000000"
    using from_double_to_double [of "Price 10000"] from_double_to_double [of "Price 1000000"]
    by (simp_all add: to_double_def fp_eval)
  have "\<exists>summary p out fs'. engine_main demo_api demo_capi (\<lambda>_. None) (\<lambda>_. None) demo_inputs None (tr_files r) ?argv' =
        Inr (Replayed summary p out fs')
      \<and> events_replayed summary = nat 3 \<and> events_processed (stats p) = nat 3
      \<and> out_of_order_dropped (stats p) = 0 \<and> sequence_gaps (stats p) = 0 \<and> crossed_book_events (stats p) = 0"
    by (rule generated_log_replays_cleanly [OF fair_loaded_dice r(1) _ args(1) _ _ args(3,4) _ _ args(5,6) _ args'(1,2) cfg mk])
      (simp_all add: t int64_ok_def)
  with r(1) show ?thesis by (auto simp: numeral_3_eq_3)
qed

end
